theory Spec2Isabelle
  imports
    Main
    "HOL-Library.AList"
    "HOL-Library.Char_ord"
    "HOL-Library.List_Lexorder"
    "HOL-Library.Multiset"
    "HOL-Library.Sublist"
begin

section \<open>The graph replicator (class DatabaseReplicator)\<close>

text \<open>
  The replicator copies a source graph database into a target one in five stages.
  It talks to both databases through the query executor only, so the embedding has
  three layers:
  \<^item> the records and enums of the source file (\<open>NodeData\<close>, \<open>RelationshipData\<close>,
    \<open>ReplicationProgress\<close>);
  \<^item> the two databases as the replicator sees them: the source as the answers it gives
    to the six read statements at each moment of the run, the target as a small graph
    store together with an oracle that says which statement fails;
  \<^item> the methods of the class, in state-passing style over a \<open>world\<close> record; an
    exception is the left injection of a sum, and a loop that need not end returns
    \<open>None\<close> when it runs forever.
\<close>

subsection \<open>JavaScript helpers\<close>

text \<open>\<open>Array.prototype.join\<close> with a separator.\<close>

fun join :: "string \<Rightarrow> string list \<Rightarrow> string" where
  "join sep [] = []"
| "join sep [x] = x"
| "join sep (x # y # ys) = x @ sep @ join sep (y # ys)"

text \<open>\<open>String.prototype.split\<close> with a one-character separator: the result always
  has at least one piece, and \<open>''''.split('','')\<close> is \<open>['''']\<close>.\<close>

fun split :: "char \<Rightarrow> string \<Rightarrow> string list" where
  "split c [] = [[]]"
| "split c (x # xs) =
     (if x = c then [] # split c xs
      else (case split c xs of
              [] \<Rightarrow> [[x]]
            | y # ys \<Rightarrow> (x # y) # ys))"

text \<open>\<open>xs[0]\<close> inside a template literal: an array that is too short yields
  \<open>undefined\<close>, which the template prints as the word.\<close>

fun at0 :: "string list \<Rightarrow> string" where
  "at0 [] = ''undefined''"
| "at0 (x # xs) = x"

text \<open>A number inside a template literal (decimal digits of a natural number).\<close>

fun digit :: "nat \<Rightarrow> char" where
  "digit n = char_of (48 + n)"

fun show_nat :: "nat \<Rightarrow> string" where
  "show_nat n = (if n < 10 then [digit n] else show_nat (n div 10) @ [digit (n mod 10)])"

declare show_nat.simps [simp del]

subsection \<open>Data model\<close>

datatype pvalue = PNum int | PStr string | PBool bool | PList "pvalue list"

type_synonym props = "(string \<times> pvalue) list"

record NodeData =
  nodeId :: int
  labels :: "string list"
  properties :: props

record RelationshipData =
  startId :: int
  endId :: int
  rel_type :: string
  rel_properties :: props

datatype stage = Clearing | Schema | Nodes | Relationships | Cleanup | Complete

record ReplicationProgress =
  totalNodes :: nat
  processedNodes :: nat
  totalRelationships :: nat
  processedRelationships :: nat
  stage :: stage

text \<open>A thrown value: the driver's errors carry a \<open>code\<close>, a \<open>TypeError\<close> or an
  exception of the observer has none.\<close>

datatype js_error = JsError (code: "string option") (message: string)

text \<open>A row of \<open>SHOW CONSTRAINTS\<close> and of \<open>SHOW INDEXES\<close>, with the columns
  \<open>copySchema\<close> reads.\<close>

record constraint_row =
  c_name :: string
  c_type :: string
  c_entityType :: string
  c_labelsOrTypes :: "string list"
  c_properties :: "string list"

record index_row =
  i_name :: string
  i_type :: string
  i_labelsOrTypes :: "string list"
  i_properties :: "string list"

subsection \<open>The statements the replicator issues\<close>

text \<open>
  Read statements on a source session:
  \<^item> \<open>CountNodes\<close>: \<^verbatim>\<open>MATCH (n) RETURN count(n) as total\<close>
  \<^item> \<open>CountRels\<close>: \<^verbatim>\<open>MATCH ()-[r]->() RETURN count(r) as total\<close>
  \<^item> \<open>SrcShowConstraints\<close>: \<^verbatim>\<open>SHOW CONSTRAINTS\<close>
  \<^item> \<open>SrcShowIndexes\<close>: \<^verbatim>\<open>SHOW INDEXES WHERE type <> 'CONSTRAINT'\<close>
  \<^item> \<open>PageNodes skip limit\<close>: \<^verbatim>\<open>MATCH (n) RETURN id(n), labels(n), properties(n) SKIP $skip LIMIT $limit\<close>
  \<^item> \<open>PageRels skip limit\<close>: \<^verbatim>\<open>MATCH (a)-[r]->(b) RETURN id(a), id(b), type(r), properties(r) SKIP $skip LIMIT $limit\<close>
\<close>

datatype src_query =
    CountNodes
  | CountRels
  | SrcShowConstraints
  | SrcShowIndexes
  | PageNodes nat nat
  | PageRels nat nat

text \<open>
  Statements on a target session. A schema statement carries the name that the
  replicator interpolated and the whole text it built; the two bulk writes carry the
  interpolated piece of their text and the list parameter.
  \<^item> \<open>DetachDeleteAll\<close>: \<^verbatim>\<open>MATCH (n) DETACH DELETE n\<close>
  \<^item> \<open>ShowConstraints\<close>, \<open>ShowIndexes\<close>: as on the source
  \<^item> \<open>DropConstraint name\<close>: \<^verbatim>\<open>DROP CONSTRAINT ${constraintName}\<close>
  \<^item> \<open>DropIndex name\<close>: \<^verbatim>\<open>DROP INDEX ${indexName}\<close>
  \<^item> \<open>CreateConstraint name text\<close>, \<open>CreateIndex name text\<close>: \<open>createStatement\<close>
  \<^item> \<open>UnwindCreateNodes labelClause nodes\<close>:
    \<^verbatim>\<open>UNWIND $nodes as node CREATE (n${labelClause}) SET n = node.properties, n.source_id = node.nodeId\<close>
  \<^item> \<open>UnwindCreateRels relType rels\<close>:
    \<^verbatim>\<open>UNWIND $rels as rel MATCH (a {source_id: rel.startId}), (b {source_id: rel.endId})
      CALL { WITH a, b, rel CREATE (a)-[r:`${relType}`]->(b) SET r = rel.properties RETURN r } RETURN count(*)\<close>
  \<^item> \<open>RemoveSourceId\<close>: \<^verbatim>\<open>MATCH (n) REMOVE n.source_id\<close>
\<close>

datatype stmt =
    DetachDeleteAll
  | ShowConstraints
  | ShowIndexes
  | DropConstraint string
  | DropIndex string
  | CreateConstraint string string
  | CreateIndex string string
  | UnwindCreateNodes string "NodeData list"
  | UnwindCreateRels string "RelationshipData list"
  | RemoveSourceId

subsection \<open>The events of a run\<close>

text \<open>
  What a run does that can be seen from outside, in the order it happens: a statement
  sent on a source session, a statement sent on a target session, a call of the
  observer with the snapshot it is given, and a line on the console. \<open>Console\<close> is a
  call with one string; \<open>ConsoleObj\<close> is a call such as
  \<^verbatim>\<open>console.error('Database replication failed:', error)\<close>, with a string and the error
  object itself, which the console prints after the string in its own way.
\<close>

datatype log_level = Info | Warn | Err

datatype event =
    SourceRun src_query
  | TargetRun stmt
  | Observer ReplicationProgress
  | Console log_level string
  | ConsoleObj log_level string js_error

subsection \<open>The source database\<close>

text \<open>
  The source is what it answers, and it is live: other clients may write to it while
  the replicator runs. The count statements and the page statements are sent several
  times in one run, so their answer is a function of the history of the run (the events
  up to the moment the statement is sent): the same page may be empty once and not the
  next time, and a count need not agree with the pages. Each of the two \<open>SHOW\<close>
  statements is sent once in a run. Any answer may be an error.
\<close>

record source_db =
  countNodes :: "event list \<Rightarrow> js_error + nat"
  countRels :: "event list \<Rightarrow> js_error + nat"
  showConstraints :: "js_error + constraint_row list"
  showIndexes :: "js_error + index_row list"
  pageNodes :: "event list \<Rightarrow> nat \<Rightarrow> nat \<Rightarrow> js_error + NodeData list"
  pageRels :: "event list \<Rightarrow> nat \<Rightarrow> nat \<Rightarrow> js_error + RelationshipData list"

text \<open>A source that nobody writes to during the run: it holds a fixed graph and
  enumerates it in a stable order, \<open>SKIP s LIMIT l\<close> is \<open>take l (drop s _)\<close>.\<close>

record graph =
  g_nodes :: "NodeData list"
  g_rels :: "RelationshipData list"
  g_constraints :: "constraint_row list"
  g_indexes :: "index_row list"

definition static_source :: "graph \<Rightarrow> source_db" where
  "static_source g =
     \<lparr> countNodes = (\<lambda>history. Inr (length (g_nodes g))),
       countRels = (\<lambda>history. Inr (length (g_rels g))),
       showConstraints = Inr (g_constraints g),
       showIndexes = Inr (g_indexes g),
       pageNodes = (\<lambda>history skip limit. Inr (take limit (drop skip (g_nodes g)))),
       pageRels = (\<lambda>history skip limit. Inr (take limit (drop skip (g_rels g)))) \<rparr>"

text \<open>A graph as the engine keeps it: node identifiers are unique and every
  relationship starts and ends at a node of the graph.\<close>

definition wf_graph :: "graph \<Rightarrow> bool" where
  "wf_graph g \<longleftrightarrow>
     distinct (map nodeId (g_nodes g)) \<and>
     list_all (\<lambda>rel. startId rel \<in> set (map nodeId (g_nodes g)) \<and>
                     endId rel \<in> set (map nodeId (g_nodes g))) (g_rels g)"

subsection \<open>The target database\<close>

record tnode =
  t_id :: nat
  t_labels :: "string list"
  t_props :: props

record trel =
  t_start :: nat
  t_end :: nat
  t_type :: string
  t_rprops :: props

record target_db =
  t_nodes :: "tnode list"
  t_rels :: "trel list"
  t_next :: nat
  t_constraints :: "string list"
  t_indexes :: "string list"

text \<open>The labels of \<^verbatim>\<open>CREATE (n:A:B)\<close>; an empty clause creates an unlabeled node. The
  clause is read as names separated by colons, which is how the engine reads it when
  every label is a name of its grammar. The replicator pastes any label into the text
  as it is; for a label with other characters the engine may read the text otherwise,
  and the embedding keeps the reading by colons for every clause.\<close>

definition clause_labels :: "string \<Rightarrow> string list" where
  "clause_labels labelClause = (case labelClause of [] \<Rightarrow> [] | c # cs \<Rightarrow> split CHR '':'' cs)"

text \<open>\<^verbatim>\<open>SET n = node.properties, n.source_id = node.nodeId\<close> for one element of the
  unwound list; the engine numbers the new node itself.\<close>

definition new_node :: "string \<Rightarrow> nat \<Rightarrow> NodeData \<Rightarrow> tnode" where
  "new_node labelClause i node =
     \<lparr> t_id = i,
       t_labels = clause_labels labelClause,
       t_props = AList.update ''source_id'' (PNum (nodeId node)) (properties node) \<rparr>"

fun create_nodes :: "string \<Rightarrow> NodeData list \<Rightarrow> target_db \<Rightarrow> target_db" where
  "create_nodes labelClause [] db = db"
| "create_nodes labelClause (node # rest) db =
     create_nodes labelClause rest
       (db\<lparr> t_nodes := t_nodes db @ [new_node labelClause (t_next db) node],
            t_next := Suc (t_next db) \<rparr>)"

text \<open>\<^verbatim>\<open>MATCH (a {source_id: x})\<close>: the target nodes whose property has that value.\<close>

definition match_source_id :: "int \<Rightarrow> target_db \<Rightarrow> tnode list" where
  "match_source_id x db =
     filter (\<lambda>n. map_of (t_props n) ''source_id'' = Some (PNum x)) (t_nodes db)"

text \<open>One relationship per row of the match, for one element of the unwound list.\<close>

definition new_rels :: "string \<Rightarrow> RelationshipData \<Rightarrow> target_db \<Rightarrow> trel list" where
  "new_rels relType rel db =
     concat (map (\<lambda>a. map (\<lambda>b. \<lparr> t_start = t_id a, t_end = t_id b,
                                   t_type = relType, t_rprops = rel_properties rel \<rparr>)
                              (match_source_id (endId rel) db))
                 (match_source_id (startId rel) db))"

fun create_rels :: "string \<Rightarrow> RelationshipData list \<Rightarrow> target_db \<Rightarrow> target_db" where
  "create_rels relType [] db = db"
| "create_rels relType (rel # rest) db =
     create_rels relType rest (db\<lparr> t_rels := t_rels db @ new_rels relType rel db \<rparr>)"

text \<open>What a statement does to the target when it succeeds.\<close>

fun apply_stmt :: "stmt \<Rightarrow> target_db \<Rightarrow> target_db" where
  "apply_stmt DetachDeleteAll db = db\<lparr> t_nodes := [], t_rels := [] \<rparr>"
| "apply_stmt ShowConstraints db = db"
| "apply_stmt ShowIndexes db = db"
| "apply_stmt (DropConstraint name) db = db\<lparr> t_constraints := removeAll name (t_constraints db) \<rparr>"
| "apply_stmt (DropIndex name) db = db\<lparr> t_indexes := removeAll name (t_indexes db) \<rparr>"
| "apply_stmt (CreateConstraint name text) db = db\<lparr> t_constraints := t_constraints db @ [name] \<rparr>"
| "apply_stmt (CreateIndex name text) db = db\<lparr> t_indexes := t_indexes db @ [name] \<rparr>"
| "apply_stmt (UnwindCreateNodes labelClause ns) db = create_nodes labelClause ns db"
| "apply_stmt (UnwindCreateRels relType rs) db = create_rels relType rs db"
| "apply_stmt RemoveSourceId db =
     db\<lparr> t_nodes := map (\<lambda>n. n\<lparr> t_props := AList.delete ''source_id'' (t_props n) \<rparr>) (t_nodes db) \<rparr>"

text \<open>The \<open>name\<close> column of the records a statement returns.\<close>

fun result_names :: "stmt \<Rightarrow> target_db \<Rightarrow> string list" where
  "result_names ShowConstraints db = t_constraints db"
| "result_names ShowIndexes db = t_indexes db"
| "result_names s db = []"

subsection \<open>The world of one replicator\<close>

text \<open>
  \<open>progress\<close> is the snapshot object that \<open>replicateDatabase\<close> allocates and that its
  two closures and the observer share; the session counters and the driver flags are
  the resources the replicator holds.
\<close>

record world =
  target :: target_db
  trace :: "event list"
  progress :: ReplicationProgress
  sourceSessions :: nat
  targetSessions :: nat
  sourceDriverOpen :: bool
  targetDriverOpen :: bool

type_synonym 'a result = "(js_error + 'a) \<times> world"

text \<open>
  The fields of the class. \<open>sourceDriver\<close> stands for the source behind it;
  \<open>targetFault\<close> says, from the history of the run so far, whether the target rejects
  a statement (a constraint violation, a syntax error, a lost connection) and with
  which error; \<open>sourceCloseFault\<close> and \<open>targetCloseFault\<close> say whether closing a
  driver fails.
\<close>

record replicator =
  sourceDriver :: source_db
  targetFault :: "event list \<Rightarrow> stmt \<Rightarrow> js_error option"
  sourceCloseFault :: "js_error option"
  targetCloseFault :: "js_error option"
  batchSize :: nat

definition console :: "log_level \<Rightarrow> string \<Rightarrow> world \<Rightarrow> world" where
  "console lvl msg w = w\<lparr> trace := trace w @ [Console lvl msg] \<rparr>"

definition console_obj :: "log_level \<Rightarrow> string \<Rightarrow> js_error \<Rightarrow> world \<Rightarrow> world" where
  "console_obj lvl msg error w = w\<lparr> trace := trace w @ [ConsoleObj lvl msg error] \<rparr>"

definition openSource :: "world \<Rightarrow> world" where
  "openSource w = w\<lparr> sourceSessions := Suc (sourceSessions w) \<rparr>"

definition closeSource :: "world \<Rightarrow> world" where
  "closeSource w = w\<lparr> sourceSessions := sourceSessions w - 1 \<rparr>"

definition openTarget :: "world \<Rightarrow> world" where
  "openTarget w = w\<lparr> targetSessions := Suc (targetSessions w) \<rparr>"

definition closeTarget :: "world \<Rightarrow> world" where
  "closeTarget w = w\<lparr> targetSessions := targetSessions w - 1 \<rparr>"

text \<open>\<open>sourceSession.run\<close>: the statement is recorded and the source answers.\<close>

definition sourceRun :: "src_query \<Rightarrow> js_error + 'a \<Rightarrow> world \<Rightarrow> 'a result" where
  "sourceRun q answer w = (answer, w\<lparr> trace := trace w @ [SourceRun q] \<rparr>)"

text \<open>\<open>targetSession.run\<close>: a rejected statement changes nothing in the target.\<close>

definition targetRun :: "replicator \<Rightarrow> stmt \<Rightarrow> world \<Rightarrow> (string list) result" where
  "targetRun r s w =
     (case targetFault r (trace w) s of
        Some e \<Rightarrow> (Inl e, w\<lparr> trace := trace w @ [TargetRun s] \<rparr>)
      | None \<Rightarrow>
          (Inr (result_names s (target w)),
           w\<lparr> trace := trace w @ [TargetRun s], target := apply_stmt s (target w) \<rparr>))"

subsection \<open>Control flow: exceptions, \<open>finally\<close>, optional callbacks\<close>

text \<open>Sequencing: an exception skips the rest.\<close>

definition and_then :: "'a result \<Rightarrow> ('a \<Rightarrow> world \<Rightarrow> 'b result) \<Rightarrow> 'b result" where
  "and_then m k = (case m of (Inl e, w) \<Rightarrow> (Inl e, w) | (Inr x, w) \<Rightarrow> k x w)"

text \<open>\<^verbatim>\<open>try { m } catch (error) { h }\<close>.\<close>

definition try_catch :: "'a result \<Rightarrow> (js_error \<Rightarrow> world \<Rightarrow> 'a result) \<Rightarrow> 'a result" where
  "try_catch m h = (case m of (Inl e, w) \<Rightarrow> h e w | (Inr x, w) \<Rightarrow> (Inr x, w))"

text \<open>\<^verbatim>\<open>try { m } finally { f }\<close>, for a \<open>finally\<close> block that does not throw.\<close>

definition finally_do :: "'a result \<Rightarrow> (world \<Rightarrow> world) \<Rightarrow> 'a result" where
  "finally_do m f = (fst m, f (snd m))"

text \<open>\<^verbatim>\<open>callback?.(x)\<close>.\<close>

definition call_opt :: "('a \<Rightarrow> world \<Rightarrow> unit result) option \<Rightarrow> 'a \<Rightarrow> world \<Rightarrow> unit result" where
  "call_opt callback x w = (case callback of None \<Rightarrow> (Inr (), w) | Some f \<Rightarrow> f x w)"

text \<open>Sequencing after a step that may never return.\<close>

definition seq :: "'a result option \<Rightarrow> ('a \<Rightarrow> world \<Rightarrow> 'b result option) \<Rightarrow> 'b result option" where
  "seq m k =
     (case m of
        None \<Rightarrow> None
      | Some (Inl e, w) \<Rightarrow> Some (Inl e, w)
      | Some (Inr x, w) \<Rightarrow> k x w)"

subsection \<open>\<open>getTotalCounts\<close>\<close>

definition getTotalCounts :: "replicator \<Rightarrow> world \<Rightarrow> (nat \<times> nat) result" where
  "getTotalCounts r w0 =
     finally_do
       (and_then (sourceRun CountNodes (countNodes (sourceDriver r) (trace w0)) (openSource w0))
          (\<lambda>nodeTotal w1.
       and_then (sourceRun CountRels (countRels (sourceDriver r) (trace w1)) w1)
          (\<lambda>relTotal w2. (Inr (nodeTotal, relTotal), w2))))
       closeSource"

subsection \<open>\<open>clearTargetDatabase\<close>\<close>

fun dropConstraints :: "replicator \<Rightarrow> string list \<Rightarrow> world \<Rightarrow> unit result" where
  "dropConstraints r [] w = (Inr (), w)"
| "dropConstraints r (constraintName # rest) w =
     and_then
       (try_catch
          (and_then (targetRun r (DropConstraint constraintName) w)
             (\<lambda>_ w1. (Inr (), console Info (''Dropped constraint: '' @ constraintName) w1)))
          (\<lambda>error w1.
             (Inr (), console_obj Warn (''Failed to drop constraint '' @ constraintName @ '':'')
                        error w1)))
       (\<lambda>_ w2. dropConstraints r rest w2)"

fun dropIndexes :: "replicator \<Rightarrow> string list \<Rightarrow> world \<Rightarrow> unit result" where
  "dropIndexes r [] w = (Inr (), w)"
| "dropIndexes r (indexName # rest) w =
     and_then
       (try_catch
          (and_then (targetRun r (DropIndex indexName) w)
             (\<lambda>_ w1. (Inr (), console Info (''Dropped index: '' @ indexName) w1)))
          (\<lambda>error w1.
             (Inr (), console_obj Warn (''Failed to drop index '' @ indexName @ '':'')
                        error w1)))
       (\<lambda>_ w2. dropIndexes r rest w2)"

definition clearTargetDatabase :: "replicator \<Rightarrow> world \<Rightarrow> unit result" where
  "clearTargetDatabase r w0 =
     finally_do
       (and_then (targetRun r DetachDeleteAll (openTarget (console Info ''Clearing target database...'' w0)))
          (\<lambda>_ w1.
       and_then (targetRun r ShowConstraints (console Info ''All nodes and relationships deleted'' w1))
          (\<lambda>constraints w2.
       and_then (dropConstraints r constraints w2)
          (\<lambda>_ w3.
       and_then (targetRun r ShowIndexes w3)
          (\<lambda>indexes w4. dropIndexes r indexes w4)))))
       closeTarget"

subsection \<open>\<open>copySchema\<close>\<close>

text \<open>The statement built for one constraint row; the empty string when no branch
  applies.\<close>

definition constraintStatement :: "constraint_row \<Rightarrow> string" where
  "constraintStatement c =
     (let name = c_name c; type = c_type c; entityType = c_entityType c;
          labelsOrTypes = c_labelsOrTypes c; properties = c_properties c
      in if type = ''UNIQUENESS'' then
           (if entityType = ''NODE'' then
              ''CREATE CONSTRAINT '' @ name @ '' FOR (n:'' @ at0 labelsOrTypes @ '') REQUIRE (''
                @ join '', '' (map (\<lambda>p. ''n.'' @ p) properties) @ '') IS UNIQUE''
            else if entityType = ''RELATIONSHIP'' then
              ''CREATE CONSTRAINT '' @ name @ '' FOR ()-[r:'' @ at0 labelsOrTypes @ '']-() REQUIRE (''
                @ join '', '' (map (\<lambda>p. ''r.'' @ p) properties) @ '') IS UNIQUE''
            else [])
         else if type = ''NODE_PROPERTY_EXISTENCE'' \<or> type = ''EXISTENCE'' then
           ''CREATE CONSTRAINT '' @ name @ '' FOR (n:'' @ at0 labelsOrTypes @ '') REQUIRE n.''
             @ at0 properties @ '' IS NOT NULL''
         else if type = ''RELATIONSHIP_PROPERTY_EXISTENCE'' then
           ''CREATE CONSTRAINT '' @ name @ '' FOR ()-[r:'' @ at0 labelsOrTypes @ '']-() REQUIRE r.''
             @ at0 properties @ '' IS NOT NULL''
         else if type = ''NODE_KEY'' then
           ''CREATE CONSTRAINT '' @ name @ '' FOR (n:'' @ at0 labelsOrTypes @ '') REQUIRE (''
             @ join '', '' (map (\<lambda>p. ''n.'' @ p) properties) @ '') IS NODE KEY''
         else [])"

text \<open>The body of the \<open>try\<close> block for one constraint.\<close>

definition tryConstraint :: "replicator \<Rightarrow> constraint_row \<Rightarrow> world \<Rightarrow> unit result" where
  "tryConstraint r c w =
     (let createStatement = constraintStatement c
      in if createStatement \<noteq> [] then
           and_then (targetRun r (CreateConstraint (c_name c) createStatement) w)
             (\<lambda>_ w1. (Inr (), console Info (''Created constraint: '' @ c_name c @ '' (''
                                             @ c_type c @ '')'') w1))
         else
           (Inr (), console Warn (''Skipped unsupported constraint type: '' @ c_type c
                                  @ '' for '' @ c_name c) w))"

definition catchConstraint :: "constraint_row \<Rightarrow> js_error \<Rightarrow> world \<Rightarrow> unit result" where
  "catchConstraint c error w =
     (if code error = Some ''Neo.ClientError.Schema.ConstraintAlreadyExists'' \<or>
         code error = Some ''Neo.ClientError.Schema.EquivalentSchemaRuleAlreadyExists''
      then (Inr (), console Info (''Constraint '' @ c_name c @ '' already exists, skipping'') w)
      else (Inr (), console Warn (''Failed to create constraint '' @ c_name c @ '': ''
                                  @ message error) w))"

fun copyConstraints :: "replicator \<Rightarrow> constraint_row list \<Rightarrow> world \<Rightarrow> unit result" where
  "copyConstraints r [] w = (Inr (), w)"
| "copyConstraints r (c # rest) w =
     and_then (try_catch (tryConstraint r c w) (catchConstraint c))
       (\<lambda>_ w1. copyConstraints r rest w1)"

text \<open>The statement built for one index row.\<close>

definition indexStatement :: "index_row \<Rightarrow> string" where
  "indexStatement ix =
     (let name = i_name ix; type = i_type ix;
          labelsOrTypes = i_labelsOrTypes ix; properties = i_properties ix
      in if type = ''BTREE'' then
           (if length labelsOrTypes > 0 \<and> at0 labelsOrTypes \<noteq> [] then
              ''CREATE INDEX '' @ name @ '' FOR (n:'' @ at0 labelsOrTypes @ '') ON (''
                @ join '', '' (map (\<lambda>p. ''n.'' @ p) properties) @ '')''
            else [])
         else if type = ''TEXT'' then
           ''CREATE TEXT INDEX '' @ name @ '' FOR (n:'' @ at0 labelsOrTypes @ '') ON (n.''
             @ at0 properties @ '')''
         else if type = ''FULLTEXT'' then
           ''CREATE FULLTEXT INDEX '' @ name @ '' FOR (n:'' @ join ''|'' labelsOrTypes
             @ '') ON EACH ['' @ join '', '' (map (\<lambda>p. [CHR 0x27] @ p @ [CHR 0x27]) properties)
             @ '']''
         else [])"

definition tryIndex :: "replicator \<Rightarrow> index_row \<Rightarrow> world \<Rightarrow> unit result" where
  "tryIndex r ix w =
     (let createStatement = indexStatement ix
      in if createStatement \<noteq> [] then
           and_then (targetRun r (CreateIndex (i_name ix) createStatement) w)
             (\<lambda>_ w1. (Inr (), console Info (''Created index: '' @ i_name ix @ '' (''
                                             @ i_type ix @ '')'') w1))
         else
           (Inr (), console Warn (''Skipped unsupported index type: '' @ i_type ix
                                  @ '' for '' @ i_name ix) w))"

definition catchIndex :: "index_row \<Rightarrow> js_error \<Rightarrow> world \<Rightarrow> unit result" where
  "catchIndex ix error w =
     (if code error = Some ''Neo.ClientError.Schema.IndexAlreadyExists'' \<or>
         code error = Some ''Neo.ClientError.Schema.EquivalentSchemaRuleAlreadyExists''
      then (Inr (), console Info (''Index '' @ i_name ix @ '' already exists, skipping'') w)
      else (Inr (), console Warn (''Failed to create index '' @ i_name ix @ '': ''
                                  @ message error) w))"

fun copyIndexes :: "replicator \<Rightarrow> index_row list \<Rightarrow> world \<Rightarrow> unit result" where
  "copyIndexes r [] w = (Inr (), w)"
| "copyIndexes r (ix # rest) w =
     and_then (try_catch (tryIndex r ix w) (catchIndex ix))
       (\<lambda>_ w1. copyIndexes r rest w1)"

definition copySchema :: "replicator \<Rightarrow> world \<Rightarrow> unit result" where
  "copySchema r w0 =
     finally_do
       (and_then (sourceRun SrcShowConstraints (showConstraints (sourceDriver r))
                    (openTarget (openSource (console Info ''Copying database schema...'' w0))))
          (\<lambda>constraints w1.
       and_then (copyConstraints r constraints w1)
          (\<lambda>_ w2.
       and_then (sourceRun SrcShowIndexes (showIndexes (sourceDriver r)) w2)
          (\<lambda>indexes w3. copyIndexes r indexes w3))))
       (\<lambda>w. closeTarget (closeSource w))"

subsection \<open>\<open>createNodesInTarget\<close> and \<open>copyNodes\<close>\<close>

text \<open>
  A JavaScript \<open>Map\<close> from a string key to an array keeps its keys in insertion
  order. \<open>group_push k v m\<close> is
  \<^verbatim>\<open>if (!m.has(k)) m.set(k, []); m.get(k).push(v)\<close>.
\<close>

fun group_push :: "string \<Rightarrow> 'a \<Rightarrow> (string \<times> 'a list) list \<Rightarrow> (string \<times> 'a list) list" where
  "group_push k v [] = [(k, [v])]"
| "group_push k v ((k', vs) # m) =
     (if k = k' then (k', vs @ [v]) # m else (k', vs) # group_push k v m)"

text \<open>\<open>node.labels.sort().join(',')\<close>; \<open>sort\<close> orders the array in place, so the
  node that is pushed into its group has its labels sorted.\<close>

definition labelKey :: "NodeData \<Rightarrow> string" where
  "labelKey node = join '','' (sort (labels node))"

definition sorted_in_place :: "NodeData \<Rightarrow> NodeData" where
  "sorted_in_place node = node\<lparr> labels := sort (labels node) \<rparr>"

fun nodesByLabels :: "(string \<times> NodeData list) list \<Rightarrow> NodeData list \<Rightarrow> (string \<times> NodeData list) list" where
  "nodesByLabels m [] = m"
| "nodesByLabels m (node # rest) =
     nodesByLabels (group_push (labelKey node) (sorted_in_place node) m) rest"

text \<open>\<^verbatim>\<open>labels = labelKey ? labelKey.split(',') : []\<close> and
  \<^verbatim>\<open>labelClause = labels.length > 0 ? `:${labels.join(':')}` : ''\<close>.\<close>

definition keyLabels :: "string \<Rightarrow> string list" where
  "keyLabels k = (if k \<noteq> [] then split CHR '','' k else [])"

definition labelClause :: "string \<Rightarrow> string" where
  "labelClause k = (if length (keyLabels k) > 0 then '':'' @ join '':'' (keyLabels k) else [])"

fun createNodeGroups :: "replicator \<Rightarrow> (string \<times> NodeData list) list \<Rightarrow> world \<Rightarrow> unit result" where
  "createNodeGroups r [] w = (Inr (), w)"
| "createNodeGroups r ((k, ns) # rest) w =
     and_then (targetRun r (UnwindCreateNodes (labelClause k) ns) w)
       (\<lambda>_ w1. createNodeGroups r rest w1)"

definition createNodesInTarget :: "replicator \<Rightarrow> NodeData list \<Rightarrow> world \<Rightarrow> unit result" where
  "createNodesInTarget r nodesData w =
     finally_do (createNodeGroups r (nodesByLabels [] nodesData) (openTarget w)) closeTarget"

text \<open>One turn of the \<open>while\<close> loop of \<open>copyNodes\<close>; it returns the new value of
  \<open>processed\<close>.\<close>

definition copyNodesPage ::
  "replicator \<Rightarrow> (nat \<Rightarrow> world \<Rightarrow> unit result) option \<Rightarrow> nat \<Rightarrow> nat \<Rightarrow> world \<Rightarrow> nat result" where
  "copyNodesPage r progressCallback totalCount processed w =
     and_then (sourceRun (PageNodes processed (batchSize r))
                 (pageNodes (sourceDriver r) (trace w) processed (batchSize r)) w)
       (\<lambda>nodesData w1.
     and_then (if length nodesData > 0 then createNodesInTarget r nodesData w1 else (Inr (), w1))
       (\<lambda>_ w2.
     and_then (call_opt progressCallback (processed + length nodesData) w2)
       (\<lambda>_ w3.
          (Inr (processed + length nodesData),
           console Info (''Processed '' @ show_nat (processed + length nodesData) @ ''/''
                         @ show_nat totalCount @ '' nodes'') w3))))"

partial_function (option) copyNodesLoop ::
  "replicator \<Rightarrow> (nat \<Rightarrow> world \<Rightarrow> unit result) option \<Rightarrow> nat \<Rightarrow> nat \<Rightarrow> world \<Rightarrow> unit result option" where
  "copyNodesLoop r progressCallback totalCount processed w =
     (if processed < totalCount then
        (case copyNodesPage r progressCallback totalCount processed w of
           (Inl e, w') \<Rightarrow> Some (Inl e, w')
         | (Inr processed', w') \<Rightarrow> copyNodesLoop r progressCallback totalCount processed' w')
      else Some (Inr (), w))"

definition copyNodes ::
  "replicator \<Rightarrow> (nat \<Rightarrow> world \<Rightarrow> unit result) option \<Rightarrow> world \<Rightarrow> unit result option" where
  "copyNodes r progressCallback w0 =
     map_option (\<lambda>res. finally_do res closeSource)
       (seq (Some (sourceRun CountNodes
                     (countNodes (sourceDriver r) (trace (console Info ''Copying nodes...'' w0)))
                     (openSource (console Info ''Copying nodes...'' w0))))
          (\<lambda>totalCount w1. copyNodesLoop r progressCallback totalCount 0 w1))"

subsection \<open>\<open>createRelationshipsInTarget\<close> and \<open>copyRelationships\<close>\<close>

fun relsByType ::
  "(string \<times> RelationshipData list) list \<Rightarrow> RelationshipData list \<Rightarrow> (string \<times> RelationshipData list) list" where
  "relsByType m [] = m"
| "relsByType m (rel # rest) = relsByType (group_push (rel_type rel) rel m) rest"

fun createRelGroups :: "replicator \<Rightarrow> (string \<times> RelationshipData list) list \<Rightarrow> world \<Rightarrow> unit result" where
  "createRelGroups r [] w = (Inr (), w)"
| "createRelGroups r ((relType, rels) # rest) w =
     and_then (targetRun r (UnwindCreateRels relType rels) w)
       (\<lambda>_ w1. createRelGroups r rest w1)"

definition createRelationshipsInTarget :: "replicator \<Rightarrow> RelationshipData list \<Rightarrow> world \<Rightarrow> unit result" where
  "createRelationshipsInTarget r relsData w =
     finally_do (createRelGroups r (relsByType [] relsData) (openTarget w)) closeTarget"

text \<open>
  The page limit is \<^verbatim>\<open>neo4j.int(this.batchSize / 2)\<close>: the division is the one of
  floating-point numbers and the driver's \<open>int\<close> drops the fraction, so the limit is
  \<open>batchSize div 2\<close>.
\<close>

definition copyRelationshipsPage ::
  "replicator \<Rightarrow> (nat \<Rightarrow> world \<Rightarrow> unit result) option \<Rightarrow> nat \<Rightarrow> nat \<Rightarrow> world \<Rightarrow> nat result" where
  "copyRelationshipsPage r progressCallback totalCount processed w =
     and_then (sourceRun (PageRels processed (batchSize r div 2))
                 (pageRels (sourceDriver r) (trace w) processed (batchSize r div 2)) w)
       (\<lambda>relsData w1.
     and_then (if length relsData > 0 then createRelationshipsInTarget r relsData w1 else (Inr (), w1))
       (\<lambda>_ w2.
     and_then (call_opt progressCallback (processed + length relsData) w2)
       (\<lambda>_ w3.
          (Inr (processed + length relsData),
           console Info (''Processed '' @ show_nat (processed + length relsData) @ ''/''
                         @ show_nat totalCount @ '' relationships'') w3))))"

partial_function (option) copyRelationshipsLoop ::
  "replicator \<Rightarrow> (nat \<Rightarrow> world \<Rightarrow> unit result) option \<Rightarrow> nat \<Rightarrow> nat \<Rightarrow> world \<Rightarrow> unit result option" where
  "copyRelationshipsLoop r progressCallback totalCount processed w =
     (if processed < totalCount then
        (case copyRelationshipsPage r progressCallback totalCount processed w of
           (Inl e, w') \<Rightarrow> Some (Inl e, w')
         | (Inr processed', w') \<Rightarrow> copyRelationshipsLoop r progressCallback totalCount processed' w')
      else Some (Inr (), w))"

definition copyRelationships ::
  "replicator \<Rightarrow> (nat \<Rightarrow> world \<Rightarrow> unit result) option \<Rightarrow> world \<Rightarrow> unit result option" where
  "copyRelationships r progressCallback w0 =
     map_option (\<lambda>res. finally_do res closeSource)
       (seq (Some (sourceRun CountRels
                     (countRels (sourceDriver r)
                        (trace (console Info ''Copying relationships...'' w0)))
                     (openSource (console Info ''Copying relationships...'' w0))))
          (\<lambda>totalCount w1. copyRelationshipsLoop r progressCallback totalCount 0 w1))"

subsection \<open>\<open>cleanup\<close> and \<open>close\<close>\<close>

definition cleanup :: "replicator \<Rightarrow> world \<Rightarrow> unit result" where
  "cleanup r w0 =
     finally_do
       (and_then (targetRun r RemoveSourceId
                    (openTarget (console Info ''Cleaning up temporary properties...'' w0)))
          (\<lambda>_ w1. (Inr (), console Info ''Cleanup completed'' w1)))
       closeTarget"

text \<open>\<open>driver.close()\<close>: the driver is released when the call succeeds; when it is
  rejected nothing is known to be released.\<close>

definition closeSourceDriver :: "replicator \<Rightarrow> world \<Rightarrow> unit result" where
  "closeSourceDriver r w =
     (case sourceCloseFault r of
        Some e \<Rightarrow> (Inl e, w)
      | None \<Rightarrow> (Inr (), w\<lparr> sourceDriverOpen := False \<rparr>))"

definition closeTargetDriver :: "replicator \<Rightarrow> world \<Rightarrow> unit result" where
  "closeTargetDriver r w =
     (case targetCloseFault r of
        Some e \<Rightarrow> (Inl e, w)
      | None \<Rightarrow> (Inr (), w\<lparr> targetDriverOpen := False \<rparr>))"

text \<open>\<open>close\<close> has no \<open>try\<close>: when the first driver fails to close, the second is not
  reached.\<close>

definition close :: "replicator \<Rightarrow> world \<Rightarrow> unit result" where
  "close r w0 =
     and_then (closeSourceDriver r w0)
       (\<lambda>_ w1.
     and_then (closeTargetDriver r w1)
       (\<lambda>_ w2. (Inr (), console Info ''Database connections closed'' w2)))"

subsection \<open>\<open>replicateDatabase\<close>\<close>

text \<open>The observer is the caller's function; it sees the snapshot, and it returns or
  throws. \<open>notify\<close> is \<^verbatim>\<open>progressCallback?.(progress)\<close>.\<close>

type_synonym observer = "ReplicationProgress \<Rightarrow> js_error option"

definition notify :: "observer option \<Rightarrow> world \<Rightarrow> unit result" where
  "notify progressCallback w =
     (case progressCallback of
        None \<Rightarrow> (Inr (), w)
      | Some f \<Rightarrow>
          (case f (progress w) of
             Some e \<Rightarrow> (Inl e, w\<lparr> trace := trace w @ [Observer (progress w)] \<rparr>)
           | None \<Rightarrow> (Inr (), w\<lparr> trace := trace w @ [Observer (progress w)] \<rparr>)))"

definition setStage :: "stage \<Rightarrow> world \<Rightarrow> world" where
  "setStage s w = w\<lparr> progress := (progress w)\<lparr> stage := s \<rparr> \<rparr>"

text \<open>The two closures handed to the copiers.\<close>

definition nodesCallback :: "observer option \<Rightarrow> nat \<Rightarrow> world \<Rightarrow> unit result" where
  "nodesCallback progressCallback n w =
     notify progressCallback (w\<lparr> progress := (progress w)\<lparr> processedNodes := n \<rparr> \<rparr>)"

definition relsCallback :: "observer option \<Rightarrow> nat \<Rightarrow> world \<Rightarrow> unit result" where
  "relsCallback progressCallback n w =
     notify progressCallback (w\<lparr> progress := (progress w)\<lparr> processedRelationships := n \<rparr> \<rparr>)"

text \<open>The body of the \<open>try\<close> block.\<close>

definition replicateStages :: "replicator \<Rightarrow> observer option \<Rightarrow> world \<Rightarrow> unit result option" where
  "replicateStages r progressCallback w0 =
     seq (Some (getTotalCounts r (console Info ''Starting database replication...'' w0)))
       (\<lambda>totals w1.
     seq (Some (notify progressCallback
                  (w1\<lparr> progress := \<lparr> totalNodes = fst totals, processedNodes = 0,
                                      totalRelationships = snd totals, processedRelationships = 0,
                                      stage = Clearing \<rparr> \<rparr>)))
       (\<lambda>_ w2.
     seq (Some (clearTargetDatabase r w2))
       (\<lambda>_ w3.
     seq (Some (notify progressCallback (setStage Schema w3)))
       (\<lambda>_ w4.
     seq (Some (copySchema r w4))
       (\<lambda>_ w5.
     seq (Some (notify progressCallback (setStage Nodes w5)))
       (\<lambda>_ w6.
     seq (copyNodes r (Some (nodesCallback progressCallback)) w6)
       (\<lambda>_ w7.
     seq (Some (notify progressCallback (setStage Relationships w7)))
       (\<lambda>_ w8.
     seq (copyRelationships r (Some (relsCallback progressCallback)) w8)
       (\<lambda>_ w9.
     seq (Some (notify progressCallback (setStage Cleanup w9)))
       (\<lambda>_ w10.
     seq (Some (cleanup r w10))
       (\<lambda>_ w11.
     seq (Some (notify progressCallback (setStage Complete w11)))
       (\<lambda>_ w12.
          Some (Inr (), console Info ''Database replication completed successfully!'' w12)
       ))))))))))))"

text \<open>\<^verbatim>\<open>catch (error) { console.error('Database replication failed:', error); throw error; }\<close>.\<close>

definition replicateDatabase :: "replicator \<Rightarrow> observer option \<Rightarrow> world \<Rightarrow> unit result option" where
  "replicateDatabase r progressCallback w0 =
     map_option
       (\<lambda>res. try_catch res
          (\<lambda>error w. (Inl error, console_obj Err ''Database replication failed:'' error w)))
       (replicateStages r progressCallback w0)"

subsection \<open>A run seen after a bounded number of turns\<close>

text \<open>
  When a paging loop never ends, \<open>copyNodesLoop\<close> is \<open>None\<close> and the events that the
  run produced are out of sight. The functions of this section follow the same code
  for at most \<open>n\<close> turns of each paging loop. The outcome is \<open>Returned\<close> with the result
  of the code when the code returned within the bound, and \<open>Running\<close> with the world
  reached after \<open>n\<close> turns when the loop would go on.
\<close>

datatype 'a outcome = Returned "'a result" | Running world

fun world_of :: "'a outcome \<Rightarrow> world" where
  "world_of (Returned out) = snd out"
| "world_of (Running w) = w"

definition seq_within :: "'a outcome \<Rightarrow> ('a \<Rightarrow> world \<Rightarrow> 'b outcome) \<Rightarrow> 'b outcome" where
  "seq_within m k =
     (case m of
        Running w \<Rightarrow> Running w
      | Returned (Inl e, w) \<Rightarrow> Returned (Inl e, w)
      | Returned (Inr x, w) \<Rightarrow> k x w)"

text \<open>What follows a step once it has returned; a step that is still running has not
  reached its \<open>finally\<close> or \<open>catch\<close> block.\<close>

definition after_return :: "('a result \<Rightarrow> 'b result) \<Rightarrow> 'a outcome \<Rightarrow> 'b outcome" where
  "after_return f m = (case m of Running w \<Rightarrow> Running w | Returned res \<Rightarrow> Returned (f res))"

fun copyNodesLoop_within ::
  "nat \<Rightarrow> replicator \<Rightarrow> (nat \<Rightarrow> world \<Rightarrow> unit result) option \<Rightarrow> nat \<Rightarrow> nat \<Rightarrow> world \<Rightarrow> unit outcome" where
  "copyNodesLoop_within 0 r progressCallback totalCount processed w =
     (if processed < totalCount then Running w else Returned (Inr (), w))"
| "copyNodesLoop_within (Suc n) r progressCallback totalCount processed w =
     (if processed < totalCount then
        (case copyNodesPage r progressCallback totalCount processed w of
           (Inl e, w') \<Rightarrow> Returned (Inl e, w')
         | (Inr processed', w') \<Rightarrow>
             copyNodesLoop_within n r progressCallback totalCount processed' w')
      else Returned (Inr (), w))"

definition copyNodes_within ::
  "nat \<Rightarrow> replicator \<Rightarrow> (nat \<Rightarrow> world \<Rightarrow> unit result) option \<Rightarrow> world \<Rightarrow> unit outcome" where
  "copyNodes_within n r progressCallback w0 =
     after_return (\<lambda>res. finally_do res closeSource)
       (seq_within (Returned (sourceRun CountNodes
                     (countNodes (sourceDriver r) (trace (console Info ''Copying nodes...'' w0)))
                     (openSource (console Info ''Copying nodes...'' w0))))
          (\<lambda>totalCount w1. copyNodesLoop_within n r progressCallback totalCount 0 w1))"

fun copyRelationshipsLoop_within ::
  "nat \<Rightarrow> replicator \<Rightarrow> (nat \<Rightarrow> world \<Rightarrow> unit result) option \<Rightarrow> nat \<Rightarrow> nat \<Rightarrow> world \<Rightarrow> unit outcome" where
  "copyRelationshipsLoop_within 0 r progressCallback totalCount processed w =
     (if processed < totalCount then Running w else Returned (Inr (), w))"
| "copyRelationshipsLoop_within (Suc n) r progressCallback totalCount processed w =
     (if processed < totalCount then
        (case copyRelationshipsPage r progressCallback totalCount processed w of
           (Inl e, w') \<Rightarrow> Returned (Inl e, w')
         | (Inr processed', w') \<Rightarrow>
             copyRelationshipsLoop_within n r progressCallback totalCount processed' w')
      else Returned (Inr (), w))"

definition copyRelationships_within ::
  "nat \<Rightarrow> replicator \<Rightarrow> (nat \<Rightarrow> world \<Rightarrow> unit result) option \<Rightarrow> world \<Rightarrow> unit outcome" where
  "copyRelationships_within n r progressCallback w0 =
     after_return (\<lambda>res. finally_do res closeSource)
       (seq_within (Returned (sourceRun CountRels
                     (countRels (sourceDriver r)
                        (trace (console Info ''Copying relationships...'' w0)))
                     (openSource (console Info ''Copying relationships...'' w0))))
          (\<lambda>totalCount w1. copyRelationshipsLoop_within n r progressCallback totalCount 0 w1))"

definition replicateStages_within ::
  "nat \<Rightarrow> replicator \<Rightarrow> observer option \<Rightarrow> world \<Rightarrow> unit outcome" where
  "replicateStages_within n r progressCallback w0 =
     seq_within (Returned (getTotalCounts r (console Info ''Starting database replication...'' w0)))
       (\<lambda>totals w1.
     seq_within (Returned (notify progressCallback
                  (w1\<lparr> progress := \<lparr> totalNodes = fst totals, processedNodes = 0,
                                      totalRelationships = snd totals, processedRelationships = 0,
                                      stage = Clearing \<rparr> \<rparr>)))
       (\<lambda>_ w2.
     seq_within (Returned (clearTargetDatabase r w2))
       (\<lambda>_ w3.
     seq_within (Returned (notify progressCallback (setStage Schema w3)))
       (\<lambda>_ w4.
     seq_within (Returned (copySchema r w4))
       (\<lambda>_ w5.
     seq_within (Returned (notify progressCallback (setStage Nodes w5)))
       (\<lambda>_ w6.
     seq_within (copyNodes_within n r (Some (nodesCallback progressCallback)) w6)
       (\<lambda>_ w7.
     seq_within (Returned (notify progressCallback (setStage Relationships w7)))
       (\<lambda>_ w8.
     seq_within (copyRelationships_within n r (Some (relsCallback progressCallback)) w8)
       (\<lambda>_ w9.
     seq_within (Returned (notify progressCallback (setStage Cleanup w9)))
       (\<lambda>_ w10.
     seq_within (Returned (cleanup r w10))
       (\<lambda>_ w11.
     seq_within (Returned (notify progressCallback (setStage Complete w11)))
       (\<lambda>_ w12.
          Returned (Inr (), console Info ''Database replication completed successfully!'' w12)
       ))))))))))))"

definition replicateDatabase_within ::
  "nat \<Rightarrow> replicator \<Rightarrow> observer option \<Rightarrow> world \<Rightarrow> unit outcome" where
  "replicateDatabase_within n r progressCallback w0 =
     after_return
       (\<lambda>res. try_catch res
          (\<lambda>error w. (Inl error, console_obj Err ''Database replication failed:'' error w)))
       (replicateStages_within n r progressCallback w0)"


subsection \<open>Reading a trace\<close>

text \<open>The snapshots the observer was called with, the statements sent to the source
  and the statements sent to the target, each in the order of the run.\<close>

fun observed :: "event list \<Rightarrow> ReplicationProgress list" where
  "observed [] = []"
| "observed (Observer p # evs) = p # observed evs"
| "observed (e # evs) = observed evs"

fun source_runs :: "event list \<Rightarrow> src_query list" where
  "source_runs [] = []"
| "source_runs (SourceRun q # evs) = q # source_runs evs"
| "source_runs (e # evs) = source_runs evs"

fun target_runs :: "event list \<Rightarrow> stmt list" where
  "target_runs [] = []"
| "target_runs (TargetRun s # evs) = s # target_runs evs"
| "target_runs (e # evs) = target_runs evs"

text \<open>The stage a statement belongs to. The two count statements are also issued by
  \<open>getTotalCounts\<close>, before the first stage.\<close>

fun stmt_stage :: "stmt \<Rightarrow> stage" where
  "stmt_stage DetachDeleteAll = Clearing"
| "stmt_stage ShowConstraints = Clearing"
| "stmt_stage ShowIndexes = Clearing"
| "stmt_stage (DropConstraint n) = Clearing"
| "stmt_stage (DropIndex n) = Clearing"
| "stmt_stage (CreateConstraint n t) = Schema"
| "stmt_stage (CreateIndex n t) = Schema"
| "stmt_stage (UnwindCreateNodes c ns) = Nodes"
| "stmt_stage (UnwindCreateRels t rs) = Relationships"
| "stmt_stage RemoveSourceId = Cleanup"

fun query_stage :: "src_query \<Rightarrow> stage" where
  "query_stage CountNodes = Nodes"
| "query_stage CountRels = Relationships"
| "query_stage SrcShowConstraints = Schema"
| "query_stage SrcShowIndexes = Schema"
| "query_stage (PageNodes s l) = Nodes"
| "query_stage (PageRels s l) = Relationships"

fun is_page :: "src_query \<Rightarrow> bool" where
  "is_page (PageNodes s l) = True"
| "is_page (PageRels s l) = True"
| "is_page q = False"

fun is_count :: "src_query \<Rightarrow> bool" where
  "is_count CountNodes = True"
| "is_count CountRels = True"
| "is_count q = False"

text \<open>The stage tag that may follow a tag (\<open>None\<close>: no observer call yet).\<close>

fun follows :: "stage option \<Rightarrow> stage \<Rightarrow> bool" where
  "follows None s = (s = Clearing)"
| "follows (Some Clearing) s = (s = Schema)"
| "follows (Some Schema) s = (s = Nodes)"
| "follows (Some Nodes) s = (s = Relationships)"
| "follows (Some Relationships) s = (s = Cleanup)"
| "follows (Some Cleanup) s = (s = Complete)"
| "follows (Some Complete) s = False"

text \<open>
  A monitor for the order of a run. Its state is the tag of the last observer call and
  whether a page has been fetched that the observer has not been told about yet.
  \<^item> A statement must belong to the stage of the last tag.
  \<^item> A page may be fetched only when no page is pending, and is then pending.
  \<^item> An observer call while a page is pending must carry the current tag and settles
    the page; an observer call with no page pending must carry the next tag of the
    fixed order.
\<close>

type_synonym mon = "stage option \<times> bool"

fun monitor :: "mon \<Rightarrow> event \<Rightarrow> mon option" where
  "monitor (s, pending) (Console lvl msg) = Some (s, pending)"
| "monitor (s, pending) (ConsoleObj lvl msg error) = Some (s, pending)"
| "monitor (s, pending) (TargetRun st) =
     (if s = Some (stmt_stage st) then Some (s, pending) else None)"
| "monitor (s, pending) (SourceRun q) =
     (if is_page q then
        (if s = Some (query_stage q) \<and> \<not> pending then Some (s, True) else None)
      else if s = Some (query_stage q) \<or> (s = None \<and> is_count q) then Some (s, pending)
      else None)"
| "monitor (s, pending) (Observer p) =
     (if pending then (if s = Some (stage p) then Some (s, False) else None)
      else if follows s (stage p) then Some (Some (stage p), False)
      else None)"

fun monitor_run :: "mon \<Rightarrow> event list \<Rightarrow> mon option" where
  "monitor_run m [] = Some m"
| "monitor_run m (e # evs) = (case monitor m e of None \<Rightarrow> None | Some m' \<Rightarrow> monitor_run m' evs)"

text \<open>An event that the monitor accepts in stage \<open>s\<close> without changing its state.\<close>

definition quiet :: "stage option \<Rightarrow> event \<Rightarrow> bool" where
  "quiet s e \<longleftrightarrow> monitor (s, False) e = Some (s, False) \<and> monitor (s, True) e = Some (s, True)"

text \<open>The tags seen up to a tag, in the fixed order.\<close>

fun visited :: "stage option \<Rightarrow> stage list" where
  "visited None = []"
| "visited (Some Clearing) = [Clearing]"
| "visited (Some Schema) = [Clearing, Schema]"
| "visited (Some Nodes) = [Clearing, Schema, Nodes]"
| "visited (Some Relationships) = [Clearing, Schema, Nodes, Relationships]"
| "visited (Some Cleanup) = [Clearing, Schema, Nodes, Relationships, Cleanup]"
| "visited (Some Complete) = [Clearing, Schema, Nodes, Relationships, Cleanup, Complete]"

text \<open>
  \<open>steps P w w'\<close>: from \<open>w\<close> to \<open>w'\<close> the trace grew by events that satisfy \<open>P\<close>, the
  stage tag of the snapshot is the same, as many sessions are open as before, and the
  drivers are as they were.
\<close>

definition steps :: "(event \<Rightarrow> bool) \<Rightarrow> world \<Rightarrow> world \<Rightarrow> bool" where
  "steps P w w' \<longleftrightarrow>
     (\<exists>evs. trace w' = trace w @ evs \<and> list_all P evs) \<and>
     stage (progress w') = stage (progress w) \<and>
     sourceSessions w' = sourceSessions w \<and> targetSessions w' = targetSessions w \<and>
     sourceDriverOpen w' = sourceDriverOpen w \<and> targetDriverOpen w' = targetDriverOpen w"

text \<open>A callback that returns normally on every call.\<close>

definition never_throws :: "(nat \<Rightarrow> world \<Rightarrow> unit result) option \<Rightarrow> bool" where
  "never_throws callback \<longleftrightarrow> (\<forall>n w. fst (call_opt callback n w) = Inr ())"

text \<open>A target that rejects no statement, whatever happened before.\<close>

definition never_rejects :: "replicator \<Rightarrow> bool" where
  "never_rejects r \<longleftrightarrow> (\<forall>history s. targetFault r history s = None)"

text \<open>The labels and properties of the target nodes, without the identifiers the
  engine gave them.\<close>

definition content :: "target_db \<Rightarrow> (string list \<times> props) list" where
  "content db = map (\<lambda>n. (t_labels n, t_props n)) (t_nodes db)"

text \<open>What \<open>createNodesInTarget\<close> writes when nothing is rejected: one statement per
  group, in the order of the groups.\<close>

definition node_props :: "NodeData \<Rightarrow> props" where
  "node_props node = AList.update ''source_id'' (PNum (nodeId node)) (properties node)"

fun create_groups :: "(string \<times> NodeData list) list \<Rightarrow> target_db \<Rightarrow> target_db" where
  "create_groups [] db = db"
| "create_groups ((k, ns) # rest) db = create_groups rest (create_nodes (labelClause k) ns db)"

fun create_rel_groups :: "(string \<times> RelationshipData list) list \<Rightarrow> target_db \<Rightarrow> target_db" where
  "create_rel_groups [] db = db"
| "create_rel_groups ((t, rs) # rest) db = create_rel_groups rest (create_rels t rs db)"

definition node_group_events :: "(string \<times> NodeData list) list \<Rightarrow> event list" where
  "node_group_events gs = map (\<lambda>(k, ns). TargetRun (UnwindCreateNodes (labelClause k) ns)) gs"

definition rel_group_events :: "(string \<times> RelationshipData list) list \<Rightarrow> event list" where
  "rel_group_events gs = map (\<lambda>(t, rs). TargetRun (UnwindCreateRels t rs)) gs"

text \<open>
  The protocol of a run with an observer. Its state is the tag of the last observer call
  (\<open>None\<close> before the first), the number of fixed statements of the stage sent so far,
  and whether a page is waiting for its observer call. The statements of a stage, in
  their order:
  \<^item> before the first tag: the count of the nodes, then the count of the relationships;
  \<^item> clearing: the delete of everything, \<open>SHOW CONSTRAINTS\<close>, any number of constraint
    drops, \<open>SHOW INDEXES\<close>, any number of index drops;
  \<^item> schema: \<open>SHOW CONSTRAINTS\<close> on the source, any number of constraint creations,
    \<open>SHOW INDEXES\<close> on the source, any number of index creations;
  \<^item> nodes: the count of the nodes, then any number of turns, each a page statement, any
    number of node creations and one observer call with the tag of the stage;
  \<^item> relationships: the same with the relationship statements;
  \<^item> cleanup: the removal of the correlation property;
  \<^item> complete: nothing.

  An observer call outside a turn must carry the next tag of the fixed order, and is
  accepted only when the fixed statements of the stage have all been sent.
\<close>

type_synonym phase = "stage option \<times> nat \<times> bool"

fun is_drop_constraint :: "stmt \<Rightarrow> bool" where
  "is_drop_constraint (DropConstraint n) = True"
| "is_drop_constraint s = False"

fun is_drop_index :: "stmt \<Rightarrow> bool" where
  "is_drop_index (DropIndex n) = True"
| "is_drop_index s = False"

fun is_create_constraint :: "stmt \<Rightarrow> bool" where
  "is_create_constraint (CreateConstraint n t) = True"
| "is_create_constraint s = False"

fun is_create_index :: "stmt \<Rightarrow> bool" where
  "is_create_index (CreateIndex n t) = True"
| "is_create_index s = False"

fun is_create_nodes :: "stmt \<Rightarrow> bool" where
  "is_create_nodes (UnwindCreateNodes c ns) = True"
| "is_create_nodes s = False"

fun is_create_rels :: "stmt \<Rightarrow> bool" where
  "is_create_rels (UnwindCreateRels t rs) = True"
| "is_create_rels s = False"

definition source_step :: "stage option \<Rightarrow> nat \<Rightarrow> bool \<Rightarrow> src_query \<Rightarrow> (nat \<times> bool) option" where
  "source_step s k pending q =
     (if pending then None
      else if s = None \<and> k = 0 \<and> q = CountNodes then Some (1, False)
      else if s = None \<and> k = 1 \<and> q = CountRels then Some (2, False)
      else if s = Some Schema \<and> k = 0 \<and> q = SrcShowConstraints then Some (1, False)
      else if s = Some Schema \<and> k = 1 \<and> q = SrcShowIndexes then Some (2, False)
      else if s = Some Nodes \<and> k = 0 \<and> q = CountNodes then Some (1, False)
      else if s = Some Nodes \<and> k = 1 \<and> is_page q \<and> query_stage q = Nodes then Some (1, True)
      else if s = Some Relationships \<and> k = 0 \<and> q = CountRels then Some (1, False)
      else if s = Some Relationships \<and> k = 1 \<and> is_page q \<and> query_stage q = Relationships
        then Some (1, True)
      else None)"

definition target_step :: "stage option \<Rightarrow> nat \<Rightarrow> bool \<Rightarrow> stmt \<Rightarrow> nat option" where
  "target_step s k pending st =
     (if s = Some Clearing \<and> k = 0 \<and> st = DetachDeleteAll then Some 1
      else if s = Some Clearing \<and> k = 1 \<and> st = ShowConstraints then Some 2
      else if s = Some Clearing \<and> k = 2 \<and> is_drop_constraint st then Some 2
      else if s = Some Clearing \<and> k = 2 \<and> st = ShowIndexes then Some 3
      else if s = Some Clearing \<and> k = 3 \<and> is_drop_index st then Some 3
      else if s = Some Schema \<and> k = 1 \<and> is_create_constraint st then Some 1
      else if s = Some Schema \<and> k = 2 \<and> is_create_index st then Some 2
      else if s = Some Nodes \<and> k = 1 \<and> pending \<and> is_create_nodes st then Some 1
      else if s = Some Relationships \<and> k = 1 \<and> pending \<and> is_create_rels st then Some 1
      else if s = Some Cleanup \<and> k = 0 \<and> st = RemoveSourceId then Some 1
      else None)"

fun stage_done :: "stage option \<Rightarrow> nat \<Rightarrow> bool" where
  "stage_done None k = (k = 2)"
| "stage_done (Some Clearing) k = (k = 3)"
| "stage_done (Some Schema) k = (k = 2)"
| "stage_done (Some Nodes) k = (k = 1)"
| "stage_done (Some Relationships) k = (k = 1)"
| "stage_done (Some Cleanup) k = (k = 1)"
| "stage_done (Some Complete) k = False"

fun protocol :: "phase \<Rightarrow> event \<Rightarrow> phase option" where
  "protocol (s, k, pending) (Console lvl msg) = Some (s, k, pending)"
| "protocol (s, k, pending) (ConsoleObj lvl msg error) = Some (s, k, pending)"
| "protocol (s, k, pending) (SourceRun q) =
     (case source_step s k pending q of
        None \<Rightarrow> None
      | Some (k', pending') \<Rightarrow> Some (s, k', pending'))"
| "protocol (s, k, pending) (TargetRun st) =
     (case target_step s k pending st of
        None \<Rightarrow> None
      | Some k' \<Rightarrow> Some (s, k', pending))"
| "protocol (s, k, pending) (Observer p) =
     (if pending then (if s = Some (stage p) then Some (s, k, False) else None)
      else if stage_done s k \<and> follows s (stage p) then Some (Some (stage p), 0, False)
      else None)"

fun protocol_run :: "phase \<Rightarrow> event list \<Rightarrow> phase option" where
  "protocol_run m [] = Some m"
| "protocol_run m (e # evs) =
     (case protocol m e of None \<Rightarrow> None | Some m' \<Rightarrow> protocol_run m' evs)"

text \<open>The fixed statements that have been sent when the protocol is in a state: those
  of the stages before, and the first \<open>k\<close> of the stage itself.\<close>

fun fixed_stmt :: "stmt \<Rightarrow> bool" where
  "fixed_stmt DetachDeleteAll = True"
| "fixed_stmt ShowConstraints = True"
| "fixed_stmt ShowIndexes = True"
| "fixed_stmt RemoveSourceId = True"
| "fixed_stmt s = False"

fun sent_source :: "stage option \<Rightarrow> nat \<Rightarrow> src_query list" where
  "sent_source None k = take k [CountNodes, CountRels]"
| "sent_source (Some Clearing) k = [CountNodes, CountRels]"
| "sent_source (Some Schema) k =
     [CountNodes, CountRels] @ take k [SrcShowConstraints, SrcShowIndexes]"
| "sent_source (Some Nodes) k =
     [CountNodes, CountRels, SrcShowConstraints, SrcShowIndexes] @ take k [CountNodes]"
| "sent_source (Some Relationships) k =
     [CountNodes, CountRels, SrcShowConstraints, SrcShowIndexes, CountNodes] @ take k [CountRels]"
| "sent_source (Some Cleanup) k =
     [CountNodes, CountRels, SrcShowConstraints, SrcShowIndexes, CountNodes, CountRels]"
| "sent_source (Some Complete) k =
     [CountNodes, CountRels, SrcShowConstraints, SrcShowIndexes, CountNodes, CountRels]"

fun sent_target :: "stage option \<Rightarrow> nat \<Rightarrow> stmt list" where
  "sent_target None k = []"
| "sent_target (Some Clearing) k = take k [DetachDeleteAll, ShowConstraints, ShowIndexes]"
| "sent_target (Some Schema) k = [DetachDeleteAll, ShowConstraints, ShowIndexes]"
| "sent_target (Some Nodes) k = [DetachDeleteAll, ShowConstraints, ShowIndexes]"
| "sent_target (Some Relationships) k = [DetachDeleteAll, ShowConstraints, ShowIndexes]"
| "sent_target (Some Cleanup) k =
     [DetachDeleteAll, ShowConstraints, ShowIndexes] @ take k [RemoveSourceId]"
| "sent_target (Some Complete) k =
     [DetachDeleteAll, ShowConstraints, ShowIndexes, RemoveSourceId]"

text \<open>An event that the protocol accepts in a state without leaving the state.\<close>

definition silent :: "phase \<Rightarrow> event \<Rightarrow> bool" where
  "silent m e \<longleftrightarrow> protocol m e = Some m"

text \<open>
  \<open>accepts a b w w'\<close>: the events added to the trace from \<open>w\<close> to \<open>w'\<close> take the protocol
  from state \<open>a\<close> to state \<open>b\<close>. \<open>conforms a b w out\<close>: the events that an operation
  added to the trace of \<open>w\<close> take the protocol from \<open>a\<close> to some state, and to \<open>b\<close> when
  the operation returned normally; \<open>conforms_within\<close> is the same for a bounded run,
  where a run that is still going on has reached some state.
\<close>

definition accepts :: "phase \<Rightarrow> phase \<Rightarrow> world \<Rightarrow> world \<Rightarrow> bool" where
  "accepts a b w w' \<longleftrightarrow> (\<exists>evs. trace w' = trace w @ evs \<and> protocol_run a evs = Some b)"

definition conforms :: "phase \<Rightarrow> phase \<Rightarrow> world \<Rightarrow> 'a result \<Rightarrow> bool" where
  "conforms a b w out \<longleftrightarrow>
     (\<exists>m. accepts a m w (snd out) \<and> (case fst out of Inl e \<Rightarrow> True | Inr x \<Rightarrow> m = b))"

definition conforms_within :: "phase \<Rightarrow> phase \<Rightarrow> world \<Rightarrow> 'a outcome \<Rightarrow> bool" where
  "conforms_within a b w m \<longleftrightarrow>
     (case m of
        Returned out \<Rightarrow> conforms a b w out
      | Running w' \<Rightarrow> (\<exists>c. accepts a c w w'))"

text \<open>
  The failure of an event, given the history before it: the error the source answered
  with, the error with which the target rejected the statement, the error the observer
  threw. The run tolerates the rejection of a drop in the clearing stage and of a
  creation in the schema stage; any other failure is not tolerated.
\<close>

fun answer_error :: "js_error + 'a \<Rightarrow> js_error option" where
  "answer_error (Inl e) = Some e"
| "answer_error (Inr x) = None"

fun source_error :: "source_db \<Rightarrow> event list \<Rightarrow> src_query \<Rightarrow> js_error option" where
  "source_error src history CountNodes = answer_error (countNodes src history)"
| "source_error src history CountRels = answer_error (countRels src history)"
| "source_error src history SrcShowConstraints = answer_error (showConstraints src)"
| "source_error src history SrcShowIndexes = answer_error (showIndexes src)"
| "source_error src history (PageNodes s l) = answer_error (pageNodes src history s l)"
| "source_error src history (PageRels s l) = answer_error (pageRels src history s l)"

fun failure :: "replicator \<Rightarrow> observer option \<Rightarrow> event list \<Rightarrow> event \<Rightarrow> js_error option" where
  "failure r cb history (SourceRun q) = source_error (sourceDriver r) history q"
| "failure r cb history (TargetRun s) = targetFault r history s"
| "failure r cb history (Observer p) = (case cb of None \<Rightarrow> None | Some f \<Rightarrow> f p)"
| "failure r cb history (Console lvl msg) = None"
| "failure r cb history (ConsoleObj lvl msg error) = None"

fun tolerated :: "event \<Rightarrow> bool" where
  "tolerated (TargetRun (DropConstraint n)) = True"
| "tolerated (TargetRun (DropIndex n)) = True"
| "tolerated (TargetRun (CreateConstraint n t)) = True"
| "tolerated (TargetRun (CreateIndex n t)) = True"
| "tolerated e = False"

text \<open>\<open>clean r cb history evs\<close>: no event of \<open>evs\<close>, which follow \<open>history\<close>, failed in a
  way that is not tolerated.\<close>

fun clean :: "replicator \<Rightarrow> observer option \<Rightarrow> event list \<Rightarrow> event list \<Rightarrow> bool" where
  "clean r cb history [] = True"
| "clean r cb history (e # evs) =
     ((failure r cb history e = None \<or> tolerated e) \<and> clean r cb (history @ [e]) evs)"

text \<open>An event that cannot make a run unclean: a line on the console, or a statement
  whose rejection is tolerated.\<close>

fun harmless :: "event \<Rightarrow> bool" where
  "harmless (Console lvl msg) = True"
| "harmless (ConsoleObj lvl msg error) = True"
| "harmless e = tolerated e"

text \<open>
  \<open>calmly r cb w w'\<close>: the events added from \<open>w\<close> to \<open>w'\<close> are clean.
  \<open>faithful r cb w out\<close>: an operation that returned normally added clean events; an
  operation that threw \<open>e\<close> added clean events and then the event that failed with
  \<open>e\<close>, a failure that is not tolerated, and nothing after it.
\<close>

definition calmly :: "replicator \<Rightarrow> observer option \<Rightarrow> world \<Rightarrow> world \<Rightarrow> bool" where
  "calmly r cb w w' \<longleftrightarrow> (\<exists>evs. trace w' = trace w @ evs \<and> clean r cb (trace w) evs)"

definition thrown_by ::
  "replicator \<Rightarrow> observer option \<Rightarrow> event list \<Rightarrow> event list \<Rightarrow> js_error \<Rightarrow> bool" where
  "thrown_by r cb history evs e \<longleftrightarrow>
     (\<exists>pre ev. evs = pre @ [ev] \<and> clean r cb history pre \<and>
        failure r cb (history @ pre) ev = Some e \<and> \<not> tolerated ev)"

definition faithful :: "replicator \<Rightarrow> observer option \<Rightarrow> world \<Rightarrow> 'a result \<Rightarrow> bool" where
  "faithful r cb w out \<longleftrightarrow>
     (case fst out of
        Inr x \<Rightarrow> calmly r cb w (snd out)
      | Inl e \<Rightarrow> (\<exists>evs. trace (snd out) = trace w @ evs \<and> thrown_by r cb (trace w) evs e))"

definition faithful_within :: "replicator \<Rightarrow> observer option \<Rightarrow> world \<Rightarrow> 'a outcome \<Rightarrow> bool" where
  "faithful_within r cb w m \<longleftrightarrow>
     (case m of Returned out \<Rightarrow> faithful r cb w out | Running w' \<Rightarrow> calmly r cb w w')"

text \<open>
  The line that the schema stage writes when the target rejects the creation of a
  constraint or of an index: with a code for "already exists" a line at the
  information level that says so, with any other error a warning with the message of
  the error. No other statement has such a line.
\<close>

fun reaction :: "stmt \<Rightarrow> js_error \<Rightarrow> event option" where
  "reaction (CreateConstraint name text) e =
     Some (if code e = Some ''Neo.ClientError.Schema.ConstraintAlreadyExists'' \<or>
              code e = Some ''Neo.ClientError.Schema.EquivalentSchemaRuleAlreadyExists''
           then Console Info (''Constraint '' @ name @ '' already exists, skipping'')
           else Console Warn (''Failed to create constraint '' @ name @ '': '' @ message e))"
| "reaction (CreateIndex name text) e =
     Some (if code e = Some ''Neo.ClientError.Schema.IndexAlreadyExists'' \<or>
              code e = Some ''Neo.ClientError.Schema.EquivalentSchemaRuleAlreadyExists''
           then Console Info (''Index '' @ name @ '' already exists, skipping'')
           else Console Warn (''Failed to create index '' @ name @ '': '' @ message e))"
| "reaction s e = None"

text \<open>\<open>logged_after r history evs\<close>: in the events \<open>evs\<close>, which follow \<open>history\<close>, every
  rejected statement that has such a line is followed at once by that line.\<close>

fun starts_with :: "event \<Rightarrow> event list \<Rightarrow> bool" where
  "starts_with ev [] = False"
| "starts_with ev (x # xs) = (x = ev)"

fun logged_after :: "replicator \<Rightarrow> event list \<Rightarrow> event list \<Rightarrow> bool" where
  "logged_after r history [] = True"
| "logged_after r history (TargetRun s # evs) =
     ((case targetFault r history s of
         None \<Rightarrow> True
       | Some e \<Rightarrow> (case reaction s e of None \<Rightarrow> True | Some ev \<Rightarrow> starts_with ev evs)) \<and>
      logged_after r (history @ [TargetRun s]) evs)"
| "logged_after r history (e # evs) = logged_after r (history @ [e]) evs"

text \<open>The statements among the events \<open>evs\<close> that the target accepted, and the target
  after a list of accepted statements.\<close>

fun accepted :: "replicator \<Rightarrow> event list \<Rightarrow> event list \<Rightarrow> stmt list" where
  "accepted r history [] = []"
| "accepted r history (TargetRun s # evs) =
     (case targetFault r history s of None \<Rightarrow> [s] | Some e \<Rightarrow> [])
       @ accepted r (history @ [TargetRun s]) evs"
| "accepted r history (e # evs) = accepted r (history @ [e]) evs"

definition replay :: "stmt list \<Rightarrow> target_db \<Rightarrow> target_db" where
  "replay ss db = foldl (\<lambda>db s. apply_stmt s db) db ss"

text \<open>\<open>schema_run r w w'\<close>: from \<open>w\<close> to \<open>w'\<close> every rejected creation was logged, and the
  target is what the accepted statements made of it.\<close>

definition schema_run :: "replicator \<Rightarrow> world \<Rightarrow> world \<Rightarrow> bool" where
  "schema_run r w w' \<longleftrightarrow>
     (\<exists>evs. trace w' = trace w @ evs \<and> logged_after r (trace w) evs \<and>
            target w' = replay (accepted r (trace w) evs) (target w))"

text \<open>\<open>held w w'\<close>: the same sessions are open and the drivers are as they were.\<close>

definition held :: "world \<Rightarrow> world \<Rightarrow> bool" where
  "held w w' \<longleftrightarrow>
     sourceSessions w' = sourceSessions w \<and> targetSessions w' = targetSessions w \<and>
     sourceDriverOpen w' = sourceDriverOpen w \<and> targetDriverOpen w' = targetDriverOpen w"

text \<open>The events of a stage of the copiers: what the stage may send, and the observer
  calls that carry its tag.\<close>

definition in_stage :: "stage \<Rightarrow> event \<Rightarrow> bool" where
  "in_stage s e \<longleftrightarrow>
     (case e of
        Console lvl msg \<Rightarrow> True
      | ConsoleObj lvl msg error \<Rightarrow> True
      | TargetRun st \<Rightarrow> stmt_stage st = s
      | SourceRun q \<Rightarrow> query_stage q = s
      | Observer p \<Rightarrow> stage p = s)"

text \<open>An observer, if there is one, that returns normally on every snapshot.\<close>

definition calm :: "observer option \<Rightarrow> bool" where
  "calm progressCallback \<longleftrightarrow> (case progressCallback of None \<Rightarrow> True | Some f \<Rightarrow> (\<forall>p. f p = None))"

text \<open>The value of the correlation property on a target node, and the number of target
  nodes that \<^verbatim>\<open>MATCH (a {source_id: x})\<close> finds.\<close>

definition has_source_id :: "int \<Rightarrow> props \<Rightarrow> bool" where
  "has_source_id x ps \<longleftrightarrow> map_of ps ''source_id'' = Some (PNum x)"

definition matches :: "int \<Rightarrow> target_db \<Rightarrow> nat" where
  "matches x db = length (match_source_id x db)"

text \<open>Statements that leave the nodes and relationships of the target alone, and the
  relation between two worlds whose targets hold the same nodes and relationships.\<close>

fun schema_only :: "stmt \<Rightarrow> bool" where
  "schema_only ShowConstraints = True"
| "schema_only ShowIndexes = True"
| "schema_only (DropConstraint n) = True"
| "schema_only (DropIndex n) = True"
| "schema_only (CreateConstraint n t) = True"
| "schema_only (CreateIndex n t) = True"
| "schema_only s = False"

definition graph_kept :: "world \<Rightarrow> world \<Rightarrow> bool" where
  "graph_kept w w' \<longleftrightarrow>
     t_nodes (target w') = t_nodes (target w) \<and> t_rels (target w') = t_rels (target w)"

text \<open>The number of records the source returns for a page statement sent after a
  history, and the sizes of the pages that the source returned along the events of a
  run that started after a history.\<close>

fun fetched :: "source_db \<Rightarrow> event list \<Rightarrow> src_query \<Rightarrow> nat" where
  "fetched src history (PageNodes s l) =
     (case pageNodes src history s l of Inl e \<Rightarrow> 0 | Inr ns \<Rightarrow> length ns)"
| "fetched src history (PageRels s l) =
     (case pageRels src history s l of Inl e \<Rightarrow> 0 | Inr rs \<Rightarrow> length rs)"
| "fetched src history q = 0"

fun fetches :: "source_db \<Rightarrow> event list \<Rightarrow> event list \<Rightarrow> nat list" where
  "fetches src history [] = []"
| "fetches src history (SourceRun q # evs) =
     (if is_page q then fetched src history q # fetches src (history @ [SourceRun q]) evs
      else fetches src (history @ [SourceRun q]) evs)"
| "fetches src history (e # evs) = fetches src (history @ [e]) evs"

text \<open>A source whose answer to a page statement does not depend on the moment it is
  asked, and, for such a source, an event that is not a page statement answered with
  no record.\<close>

definition stable_pages :: "source_db \<Rightarrow> bool" where
  "stable_pages src \<longleftrightarrow>
     (\<forall>h h'. pageNodes src h = pageNodes src h' \<and> pageRels src h = pageRels src h')"

fun fetch_nonempty :: "source_db \<Rightarrow> event \<Rightarrow> bool" where
  "fetch_nonempty src (SourceRun q) = (\<not> is_page q \<or> fetched src [] q \<noteq> 0)"
| "fetch_nonempty src e = True"


subsection \<open>Concrete inputs\<close>

text \<open>A target that rejects nothing, an empty target, and the world before a run.\<close>

definition no_fault :: "event list \<Rightarrow> stmt \<Rightarrow> js_error option" where
  "no_fault history s = None"

definition empty_db :: target_db where
  "empty_db = \<lparr> t_nodes = [], t_rels = [], t_next = 0, t_constraints = [], t_indexes = [] \<rparr>"

definition fresh_world :: world where
  "fresh_world =
     \<lparr> target = empty_db, trace = [],
       progress = \<lparr> totalNodes = 0, processedNodes = 0, totalRelationships = 0,
                    processedRelationships = 0, stage = Clearing \<rparr>,
       sourceSessions = 0, targetSessions = 0,
       sourceDriverOpen = True, targetDriverOpen = True \<rparr>"

definition quiet_replicator :: "graph \<Rightarrow> nat \<Rightarrow> replicator" where
  "quiet_replicator g n =
     \<lparr> sourceDriver = static_source g, targetFault = no_fault,
       sourceCloseFault = None, targetCloseFault = None, batchSize = n \<rparr>"

definition node_BA :: NodeData where
  "node_BA = \<lparr> nodeId = 1, labels = [''B'', ''A''], properties = [(''name'', PStr ''x'')] \<rparr>"

definition node_AB :: NodeData where
  "node_AB = \<lparr> nodeId = 2, labels = [''A'', ''B''], properties = [] \<rparr>"

definition node_comma :: NodeData where
  "node_comma = \<lparr> nodeId = 3, labels = [''A,B''], properties = [] \<rparr>"

definition node_plain :: NodeData where
  "node_plain = \<lparr> nodeId = 4, labels = [], properties = [(''k'', PNum 7)] \<rparr>"

text \<open>Schema rows, and a target that rejects every schema statement: a constraint as
  already there, an index for another reason.\<close>

definition unique_person :: constraint_row where
  "unique_person =
     \<lparr> c_name = ''person_id'', c_type = ''UNIQUENESS'', c_entityType = ''NODE'',
       c_labelsOrTypes = [''Person''], c_properties = [''id''] \<rparr>"

definition btree_index :: index_row where
  "btree_index =
     \<lparr> i_name = ''idx_name'', i_type = ''BTREE'', i_labelsOrTypes = [''Person''],
       i_properties = [''name'', ''age''] \<rparr>"

definition range_index :: index_row where
  "range_index =
     \<lparr> i_name = ''idx_range'', i_type = ''RANGE'', i_labelsOrTypes = [''Person''],
       i_properties = [''name''] \<rparr>"

definition btree_no_label :: index_row where
  "btree_no_label =
     \<lparr> i_name = ''idx_bare'', i_type = ''BTREE'', i_labelsOrTypes = [],
       i_properties = [''name''] \<rparr>"

definition schema_graph :: graph where
  "schema_graph =
     \<lparr> g_nodes = [], g_rels = [], g_constraints = [unique_person],
       g_indexes = [range_index, btree_no_label, btree_index] \<rparr>"

definition already_exists :: js_error where
  "already_exists = JsError (Some ''Neo.ClientError.Schema.ConstraintAlreadyExists'') ''exists''"

definition disk_full :: js_error where
  "disk_full = JsError (Some ''Neo.TransientError.General.OutOfMemoryError'') ''no space''"

fun rejecting :: "event list \<Rightarrow> stmt \<Rightarrow> js_error option" where
  "rejecting history (CreateConstraint name text) = Some already_exists"
| "rejecting history (CreateIndex name text) = Some disk_full"
| "rejecting history s = None"

definition rejecting_replicator :: "graph \<Rightarrow> nat \<Rightarrow> replicator" where
  "rejecting_replicator g n =
     \<lparr> sourceDriver = static_source g, targetFault = rejecting,
       sourceCloseFault = None, targetCloseFault = None, batchSize = n \<rparr>"

text \<open>A graph of two nodes and one relationship between them.\<close>

definition knows :: RelationshipData where
  "knows = \<lparr> startId = 2, endId = 4, rel_type = ''KNOWS'', rel_properties = [(''since'', PNum 2020)] \<rparr>"

definition pair_graph :: graph where
  "pair_graph = \<lparr> g_nodes = [node_AB, node_plain], g_rels = [knows],
                   g_constraints = [], g_indexes = [] \<rparr>"

text \<open>A source that counted three nodes and then lost one: every page is cut from the
  two nodes that are left.\<close>

definition shrunk_source :: source_db where
  "shrunk_source =
     \<lparr> countNodes = (\<lambda>history. Inr 3), countRels = (\<lambda>history. Inr 0),
       showConstraints = Inr [], showIndexes = Inr [],
       pageNodes = (\<lambda>history skip limit. Inr (take limit (drop skip [node_AB, node_plain]))),
       pageRels = (\<lambda>history skip limit. Inr []) \<rparr>"

definition shrunk_replicator :: replicator where
  "shrunk_replicator =
     \<lparr> sourceDriver = shrunk_source, targetFault = no_fault,
       sourceCloseFault = None, targetCloseFault = None, batchSize = 2 \<rparr>"

text \<open>A source of two nodes where another client is at work: the first page statement
  of a run finds nothing, every later one finds the nodes.\<close>

definition flicker_source :: source_db where
  "flicker_source =
     \<lparr> countNodes = (\<lambda>history. Inr 2), countRels = (\<lambda>history. Inr 0),
       showConstraints = Inr [], showIndexes = Inr [],
       pageNodes = (\<lambda>history skip limit.
          if filter is_page (source_runs history) = [] then Inr []
          else Inr (take limit (drop skip [node_AB, node_plain]))),
       pageRels = (\<lambda>history skip limit. Inr []) \<rparr>"

definition flicker_replicator :: replicator where
  "flicker_replicator =
     \<lparr> sourceDriver = flicker_source, targetFault = no_fault,
       sourceCloseFault = None, targetCloseFault = None, batchSize = 2 \<rparr>"

text \<open>An observer that never throws.\<close>

definition quiet_observer :: "ReplicationProgress \<Rightarrow> js_error option" where
  "quiet_observer p = None"

text \<open>A target that rejects the statement that empties it.\<close>

definition lost :: js_error where
  "lost = JsError (Some ''Neo.ClientError.Security.Forbidden'') ''not allowed''"

fun read_only :: "event list \<Rightarrow> stmt \<Rightarrow> js_error option" where
  "read_only history DetachDeleteAll = Some lost"
| "read_only history s = None"

definition read_only_replicator :: "graph \<Rightarrow> nat \<Rightarrow> replicator" where
  "read_only_replicator g n =
     \<lparr> sourceDriver = static_source g, targetFault = read_only,
       sourceCloseFault = None, targetCloseFault = None, batchSize = n \<rparr>"

text \<open>A graph of five nodes.\<close>

definition node_five :: NodeData where
  "node_five = \<lparr> nodeId = 5, labels = [''Person''], properties = [(''name'', PStr ''e'')] \<rparr>"

definition five_graph :: graph where
  "five_graph = \<lparr> g_nodes = [node_BA, node_AB, node_comma, node_plain, node_five], g_rels = [],
                   g_constraints = [], g_indexes = [] \<rparr>"

section \<open>Verification\<close>



lemma and_then_simps [simp]:
  "and_then (Inl e, w) k = (Inl e, w)"
  "and_then (Inr x, w) k = k x w"
  by (simp_all add: and_then_def)

lemma try_catch_simps [simp]:
  "try_catch (Inl e, w) h = h e w"
  "try_catch (Inr x, w) h = (Inr x, w)"
  by (simp_all add: try_catch_def)

lemma finally_do_simp [simp]: "finally_do (res, w) f = (res, f w)"
  by (simp add: finally_do_def)

lemma seq_simps [simp]:
  "seq None k = None"
  "seq (Some (Inl e, w)) k = Some (Inl e, w)"
  "seq (Some (Inr x, w)) k = k x w"
  by (simp_all add: seq_def)

lemma call_opt_simps [simp]:
  "call_opt None x w = (Inr (), w)"
  "call_opt (Some f) x w = f x w"
  by (simp_all add: call_opt_def)

lemma seq_within_simps [simp]:
  "seq_within (Running w) k = Running w"
  "seq_within (Returned (Inl e, w)) k = Returned (Inl e, w)"
  "seq_within (Returned (Inr x, w)) k = k x w"
  by (simp_all add: seq_within_def)

lemma after_return_simps [simp]:
  "after_return f (Running w) = Running w"
  "after_return f (Returned res) = Returned (f res)"
  by (simp_all add: after_return_def)

subsection \<open>Grouping\<close>

lemma group_push_new: "\<exists>g. (k, g) \<in> set (group_push k v m) \<and> v \<in> set g"
  by (induction k v m rule: group_push.induct) auto

lemma group_push_keep:
  "(k', g) \<in> set m \<Longrightarrow> x \<in> set g \<Longrightarrow> \<exists>g'. (k', g') \<in> set (group_push k v m) \<and> x \<in> set g'"
proof (induction k v m rule: group_push.induct)
  case (1 k v)
  then show ?case by simp
next
  case (2 k v k0 vs m)
  show ?case
  proof (cases "(k', g) = (k0, vs)")
    case True
    then show ?thesis using 2(3) by (cases "k = k0") auto
  next
    case False
    then have "(k', g) \<in> set m" using 2(2) by auto
    then show ?thesis using 2 by (cases "k = k0") auto
  qed
qed

lemma group_push_keys:
  "map fst (group_push k v m) = (if k \<in> fst ` set m then map fst m else map fst m @ [k])"
  by (induction k v m rule: group_push.induct) (auto simp: image_iff)

lemma group_push_distinct: "distinct (map fst m) \<Longrightarrow> distinct (map fst (group_push k v m))"
  by (simp add: group_push_keys)

lemma nodesByLabels_distinct:
  "distinct (map fst m) \<Longrightarrow> distinct (map fst (nodesByLabels m ns))"
  by (induction ns arbitrary: m) (simp_all add: group_push_distinct)

lemma nodesByLabels_keep:
  "(k, g) \<in> set m \<Longrightarrow> x \<in> set g \<Longrightarrow> \<exists>g'. (k, g') \<in> set (nodesByLabels m ns) \<and> x \<in> set g'"
proof (induction ns arbitrary: m g)
  case Nil
  then show ?case by auto
next
  case (Cons n ns)
  from group_push_keep [OF Cons.prems]
  obtain g' where "(k, g') \<in> set (group_push (labelKey n) (sorted_in_place n) m)" "x \<in> set g'"
    by blast
  then show ?case using Cons.IH by simp
qed

lemma nodesByLabels_member:
  "n \<in> set ns \<Longrightarrow> \<exists>g. (labelKey n, g) \<in> set (nodesByLabels m ns) \<and> sorted_in_place n \<in> set g"
proof (induction ns arbitrary: m)
  case Nil
  then show ?case by simp
next
  case (Cons a ns)
  show ?case
  proof (cases "n = a")
    case True
    obtain g where "(labelKey a, g) \<in> set (group_push (labelKey a) (sorted_in_place a) m)"
      "sorted_in_place a \<in> set g"
      using group_push_new [of "labelKey a" "sorted_in_place a" m] by blast
    then have "\<exists>g'. (labelKey a, g') \<in> set (nodesByLabels (group_push (labelKey a) (sorted_in_place a) m) ns)
        \<and> sorted_in_place a \<in> set g'"
      by (rule nodesByLabels_keep)
    then show ?thesis unfolding True by simp
  next
    case False
    then have "n \<in> set ns" using Cons.prems by simp
    from Cons.IH [OF this] show ?thesis by simp
  qed
qed

lemma sort_set_unique:
  fixes xs ys :: "string list"
  assumes "distinct xs" "distinct ys" "set xs = set ys"
  shows "sort xs = sort ys"
proof (rule sorted_distinct_set_unique)
  show "sorted (sort xs)" by (rule sorted_sort)
  show "sorted (sort ys)" by (rule sorted_sort)
  show "distinct (sort xs)" using assms(1) by (simp only: distinct_sort)
  show "distinct (sort ys)" using assms(2) by (simp only: distinct_sort)
  show "set (sort xs) = set (sort ys)" using assms(3) by (simp only: set_sort)
qed

lemma labelKey_set:
  assumes "distinct (labels a)" "distinct (labels b)" "set (labels a) = set (labels b)"
  shows "labelKey a = labelKey b"
  unfolding labelKey_def using sort_set_unique [OF assms] by (rule arg_cong)


subsection \<open>What every operation leaves unchanged\<close>

lemma steps_refl [simp]: "steps P w w"
  by (simp add: steps_def)

lemma steps_trans: "steps P w w1 \<Longrightarrow> steps P w1 w2 \<Longrightarrow> steps P w w2"
  unfolding steps_def by (elim conjE exE) simp

lemma steps_weaken: "steps P w w' \<Longrightarrow> (\<And>e. P e \<Longrightarrow> Q e) \<Longrightarrow> steps Q w w'"
  unfolding steps_def by (auto simp: list_all_iff)

lemma steps_console: "P (Console lvl msg) \<Longrightarrow> steps P w (console lvl msg w)"
  by (simp add: steps_def console_def)

lemma steps_console_obj: "P (ConsoleObj lvl msg e) \<Longrightarrow> steps P w (console_obj lvl msg e w)"
  by (simp add: steps_def console_obj_def)

lemma steps_sourceRun: "P (SourceRun q) \<Longrightarrow> steps P w (snd (sourceRun q a w))"
  by (simp add: steps_def sourceRun_def)

lemma steps_targetRun: "P (TargetRun s) \<Longrightarrow> steps P w (snd (targetRun r s w))"
  by (simp add: steps_def targetRun_def split: option.split)

lemma steps_and_then:
  assumes "steps P w (snd m)" and "\<And>x w1. steps P w1 (snd (k x w1))"
  shows "steps P w (snd (and_then m k))"
proof (cases m)
  case (Pair res w1)
  show ?thesis
  proof (cases res)
    case (Inl e)
    then show ?thesis using assms(1) Pair by simp
  next
    case (Inr x)
    have "steps P w w1" using assms(1) Pair by simp
    then have "steps P w (snd (k x w1))" using assms(2) by (rule steps_trans)
    then show ?thesis using Pair Inr by simp
  qed
qed

lemma steps_try_catch:
  assumes "steps P w (snd m)" and "\<And>e w1. steps P w1 (snd (h e w1))"
  shows "steps P w (snd (try_catch m h))"
proof (cases m)
  case (Pair res w1)
  show ?thesis
  proof (cases res)
    case (Inl e)
    have "steps P w w1" using assms(1) Pair by simp
    then have "steps P w (snd (h e w1))" using assms(2) by (rule steps_trans)
    then show ?thesis using Pair Inl by simp
  next
    case (Inr x)
    then show ?thesis using assms(1) Pair by simp
  qed
qed

lemma steps_pair: "steps P w w1 \<Longrightarrow> steps P w (snd (res, w1))"
  by simp

lemma steps_in_source_session:
  assumes "\<And>w0. steps P w0 (snd (m w0))"
  shows "steps P w (snd (finally_do (m (openSource w)) closeSource))"
proof -
  have "steps P (openSource w) (snd (m (openSource w)))" by (rule assms)
  then show ?thesis
    by (cases "m (openSource w)") (auto simp: steps_def openSource_def closeSource_def)
qed

lemma steps_in_target_session:
  assumes "\<And>w0. steps P w0 (snd (m w0))"
  shows "steps P w (snd (finally_do (m (openTarget w)) closeTarget))"
proof -
  have "steps P (openTarget w) (snd (m (openTarget w)))" by (rule assms)
  then show ?thesis
    by (cases "m (openTarget w)") (auto simp: steps_def openTarget_def closeTarget_def)
qed

lemma quiet_console [simp]: "quiet s (Console lvl msg)" "quiet s (ConsoleObj lvl msg e)"
  by (simp_all add: quiet_def)

lemma quiet_target [simp]: "quiet s (TargetRun st) \<longleftrightarrow> s = Some (stmt_stage st)"
  by (simp add: quiet_def)

lemma quiet_source [simp]:
  "quiet s (SourceRun q) \<longleftrightarrow> \<not> is_page q \<and> (s = Some (query_stage q) \<or> (s = None \<and> is_count q))"
  by (auto simp: quiet_def)

lemma quiet_observer [simp]: "\<not> quiet s (Observer p)"
  by (auto simp: quiet_def)

lemma steps_getTotalCounts: "steps (quiet None) w (snd (getTotalCounts r w))"
  unfolding getTotalCounts_def
  by (rule steps_in_source_session [where m = "\<lambda>w0. and_then (sourceRun CountNodes (countNodes (sourceDriver r) (trace w)) w0) _"])
     (intro steps_and_then steps_sourceRun steps_pair steps_refl; simp)

lemma steps_dropConstraints_gen:
  assumes "\<And>n. P (TargetRun (DropConstraint n))" and "\<And>l m. P (Console l m)"
    and "\<And>l m e. P (ConsoleObj l m e)"
  shows "steps P w (snd (dropConstraints r names w))"
proof (induction names arbitrary: w)
  case Nil
  show ?case by simp
next
  case (Cons n names)
  show ?case
    unfolding dropConstraints.simps
    by (intro steps_and_then steps_try_catch steps_targetRun steps_pair steps_console
          steps_console_obj Cons.IH assms)
qed

lemma steps_dropIndexes_gen:
  assumes "\<And>n. P (TargetRun (DropIndex n))" and "\<And>l m. P (Console l m)"
    and "\<And>l m e. P (ConsoleObj l m e)"
  shows "steps P w (snd (dropIndexes r names w))"
proof (induction names arbitrary: w)
  case Nil
  show ?case by simp
next
  case (Cons n names)
  show ?case
    unfolding dropIndexes.simps
    by (intro steps_and_then steps_try_catch steps_targetRun steps_pair steps_console
          steps_console_obj Cons.IH assms)
qed

lemma steps_dropConstraints: "steps (quiet (Some Clearing)) w (snd (dropConstraints r names w))"
  by (rule steps_dropConstraints_gen) simp_all

lemma steps_dropIndexes: "steps (quiet (Some Clearing)) w (snd (dropIndexes r names w))"
  by (rule steps_dropIndexes_gen) simp_all

lemma steps_clearTargetDatabase:
  "steps (quiet (Some Clearing)) w (snd (clearTargetDatabase r w))"
proof -
  have a: "steps (quiet (Some Clearing)) w (console Info ''Clearing target database...'' w)"
    by (rule steps_console) simp
  have b: "steps (quiet (Some Clearing)) w0
         (snd (and_then (targetRun r DetachDeleteAll w0)
          (\<lambda>_ w1.
       and_then (targetRun r ShowConstraints (console Info ''All nodes and relationships deleted'' w1))
          (\<lambda>constraints w2.
       and_then (dropConstraints r constraints w2)
          (\<lambda>_ w3.
       and_then (targetRun r ShowIndexes w3)
          (\<lambda>indexes w4. dropIndexes r indexes w4))))))" for w0
    by (intro steps_and_then steps_targetRun steps_dropConstraints steps_dropIndexes
          steps_trans [OF steps_console steps_targetRun]; simp)
  from steps_in_target_session [of "quiet (Some Clearing)", OF b]
  have "steps (quiet (Some Clearing)) (console Info ''Clearing target database...'' w)
          (snd (clearTargetDatabase r w))"
    unfolding clearTargetDatabase_def .
  with a show ?thesis by (rule steps_trans)
qed

lemma steps_copyConstraints_gen:
  assumes "\<And>n t. P (TargetRun (CreateConstraint n t))" and "\<And>l m. P (Console l m)"
  shows "steps P w (snd (copyConstraints r cs w))"
proof (induction cs arbitrary: w)
  case Nil
  show ?case by simp
next
  case (Cons c cs)
  have t: "steps P w0 (snd (tryConstraint r c w0))" for w0
    unfolding tryConstraint_def Let_def
    by (simp, intro conjI impI steps_and_then steps_targetRun steps_pair steps_console assms)
  have h: "steps P w0 (snd (catchConstraint c e w0))" for e w0
    unfolding catchConstraint_def by (simp add: steps_console assms)
  show ?case
    unfolding copyConstraints.simps
    by (intro steps_and_then steps_try_catch t h Cons.IH)
qed

lemma steps_copyIndexes_gen:
  assumes "\<And>n t. P (TargetRun (CreateIndex n t))" and "\<And>l m. P (Console l m)"
  shows "steps P w (snd (copyIndexes r ixs w))"
proof (induction ixs arbitrary: w)
  case Nil
  show ?case by simp
next
  case (Cons ix ixs)
  have t: "steps P w0 (snd (tryIndex r ix w0))" for w0
    unfolding tryIndex_def Let_def
    by (simp, intro conjI impI steps_and_then steps_targetRun steps_pair steps_console assms)
  have h: "steps P w0 (snd (catchIndex ix e w0))" for e w0
    unfolding catchIndex_def by (simp add: steps_console assms)
  show ?case
    unfolding copyIndexes.simps
    by (intro steps_and_then steps_try_catch t h Cons.IH)
qed

lemma steps_copyConstraints: "steps (quiet (Some Schema)) w (snd (copyConstraints r cs w))"
  by (rule steps_copyConstraints_gen) simp_all

lemma steps_copyIndexes: "steps (quiet (Some Schema)) w (snd (copyIndexes r ixs w))"
  by (rule steps_copyIndexes_gen) simp_all

lemma steps_copySchema: "steps (quiet (Some Schema)) w (snd (copySchema r w))"
proof -
  let ?body = "\<lambda>w0. and_then (sourceRun SrcShowConstraints (showConstraints (sourceDriver r)) w0)
          (\<lambda>constraints w1.
       and_then (copyConstraints r constraints w1)
          (\<lambda>_ w2.
       and_then (sourceRun SrcShowIndexes (showIndexes (sourceDriver r)) w2)
          (\<lambda>indexes w3. copyIndexes r indexes w3)))"
  let ?w1 = "openTarget (openSource (console Info ''Copying database schema...'' w))"
  have a: "steps (quiet (Some Schema)) w0 (snd (?body w0))" for w0
    by (intro steps_and_then steps_sourceRun steps_copyConstraints steps_copyIndexes; simp)
  have c: "steps (quiet (Some Schema)) w (console Info ''Copying database schema...'' w)"
    by (rule steps_console) simp
  have "steps (quiet (Some Schema)) ?w1 (snd (?body ?w1))" by (rule a)
  with c have "steps (quiet (Some Schema)) w (closeTarget (closeSource (snd (?body ?w1))))"
    by (auto simp: steps_def openSource_def closeSource_def openTarget_def closeTarget_def
                   console_def)
  then show ?thesis
    unfolding copySchema_def by (cases "?body ?w1") simp
qed

lemma steps_createNodeGroups:
  assumes "\<And>c ns. P (TargetRun (UnwindCreateNodes c ns))"
  shows "steps P w (snd (createNodeGroups r gs w))"
proof (induction gs arbitrary: w)
  case Nil
  show ?case by simp
next
  case (Cons g gs)
  obtain k ns where g: "g = (k, ns)" by (cases g)
  show ?case
    unfolding g createNodeGroups.simps
    by (intro steps_and_then steps_targetRun Cons.IH assms)
qed

lemma steps_createNodesInTarget:
  assumes "\<And>c ns. P (TargetRun (UnwindCreateNodes c ns))"
  shows "steps P w (snd (createNodesInTarget r nodesData w))"
  unfolding createNodesInTarget_def
  by (rule steps_in_target_session [where m = "createNodeGroups r (nodesByLabels [] nodesData)"])
     (rule steps_createNodeGroups [of P], rule assms)

lemma steps_createRelGroups:
  assumes "\<And>t rs. P (TargetRun (UnwindCreateRels t rs))"
  shows "steps P w (snd (createRelGroups r gs w))"
proof (induction gs arbitrary: w)
  case Nil
  show ?case by simp
next
  case (Cons g gs)
  obtain k rs where g: "g = (k, rs)" by (cases g)
  show ?case
    unfolding g createRelGroups.simps
    by (intro steps_and_then steps_targetRun Cons.IH assms)
qed

lemma steps_createRelationshipsInTarget:
  assumes "\<And>t rs. P (TargetRun (UnwindCreateRels t rs))"
  shows "steps P w (snd (createRelationshipsInTarget r relsData w))"
  unfolding createRelationshipsInTarget_def
  by (rule steps_in_target_session [where m = "createRelGroups r (relsByType [] relsData)"])
     (rule steps_createRelGroups [of P], rule assms)

lemma steps_cleanup: "steps (quiet (Some Cleanup)) w (snd (cleanup r w))"
proof -
  have a: "steps (quiet (Some Cleanup)) w (console Info ''Cleaning up temporary properties...'' w)"
    by (rule steps_console) simp
  have b: "steps (quiet (Some Cleanup)) w0
         (snd (and_then (targetRun r RemoveSourceId w0)
                 (\<lambda>_ w1. (Inr (), console Info ''Cleanup completed'' w1))))" for w0
    by (intro steps_and_then steps_targetRun steps_pair steps_console; simp)
  from steps_in_target_session [of "quiet (Some Cleanup)", OF b]
  have "steps (quiet (Some Cleanup)) (console Info ''Cleaning up temporary properties...'' w)
          (snd (cleanup r w))"
    unfolding cleanup_def .
  with a show ?thesis by (rule steps_trans)
qed

subsection \<open>Induction along the paging loops\<close>

lemma copyNodesLoop_induct [consumes 1, case_names stop throw turn]:
  assumes run: "copyNodesLoop r cb tot p w = Some y"
    and stop: "\<And>p w. \<not> p < tot \<Longrightarrow> P p w (Inr (), w)"
    and throw: "\<And>p w e w'. p < tot \<Longrightarrow> copyNodesPage r cb tot p w = (Inl e, w') \<Longrightarrow> P p w (Inl e, w')"
    and turn: "\<And>p w p' w' y. p < tot \<Longrightarrow> copyNodesPage r cb tot p w = (Inr p', w') \<Longrightarrow>
                 copyNodesLoop r cb tot p' w' = Some y \<Longrightarrow> P p' w' y \<Longrightarrow> P p w y"
  shows "P p w y"
proof -
  define Q where "Q = (\<lambda>r' cb' tot' p w y.
      r' = r \<and> cb' = cb \<and> tot' = tot \<longrightarrow> copyNodesLoop r cb tot p w = Some y \<and> P p w y)"
  have "Q r cb tot p w y"
  proof (rule copyNodesLoop.raw_induct [where P = Q, OF _ run], goal_cases)
    case (1 loop r' cb' tot' p w y)
    show ?case
      unfolding Q_def
    proof (intro impI)
      assume eq: "r' = r \<and> cb' = cb \<and> tot' = tot"
      show "copyNodesLoop r cb tot p w = Some y \<and> P p w y"
      proof (cases "p < tot")
        case False
        then have "y = (Inr (), w)" using 1(2) eq by simp
        then show ?thesis using False stop by (simp add: copyNodesLoop.simps)
      next
        case True
        obtain res w' where pg: "copyNodesPage r cb tot p w = (res, w')"
          by (cases "copyNodesPage r cb tot p w")
        show ?thesis
        proof (cases res)
          case (Inl e)
          then have "y = (Inl e, w')" using 1(2) eq True pg by simp
          then show ?thesis using True pg Inl throw by (simp add: copyNodesLoop.simps)
        next
          case (Inr p')
          then have "loop r cb tot p' w' = Some y" using 1(2) eq True pg by simp
          from 1(1) [OF this] have ih: "copyNodesLoop r cb tot p' w' = Some y" "P p' w' y"
            unfolding Q_def by simp_all
          have "copyNodesLoop r cb tot p w = Some y"
            using True pg Inr ih(1) by (subst copyNodesLoop.simps) simp
          moreover have "P p w y" using True pg Inr ih by (intro turn [of p w p' w' y]) simp_all
          ultimately show ?thesis by simp
        qed
      qed
    qed
  qed
  then show ?thesis unfolding Q_def by simp
qed

lemma copyRelationshipsLoop_induct [consumes 1, case_names stop throw turn]:
  assumes run: "copyRelationshipsLoop r cb tot p w = Some y"
    and stop: "\<And>p w. \<not> p < tot \<Longrightarrow> P p w (Inr (), w)"
    and throw: "\<And>p w e w'. p < tot \<Longrightarrow> copyRelationshipsPage r cb tot p w = (Inl e, w') \<Longrightarrow> P p w (Inl e, w')"
    and turn: "\<And>p w p' w' y. p < tot \<Longrightarrow> copyRelationshipsPage r cb tot p w = (Inr p', w') \<Longrightarrow>
                 copyRelationshipsLoop r cb tot p' w' = Some y \<Longrightarrow> P p' w' y \<Longrightarrow> P p w y"
  shows "P p w y"
proof -
  define Q where "Q = (\<lambda>r' cb' tot' p w y.
      r' = r \<and> cb' = cb \<and> tot' = tot \<longrightarrow> copyRelationshipsLoop r cb tot p w = Some y \<and> P p w y)"
  have "Q r cb tot p w y"
  proof (rule copyRelationshipsLoop.raw_induct [where P = Q, OF _ run], goal_cases)
    case (1 loop r' cb' tot' p w y)
    show ?case
      unfolding Q_def
    proof (intro impI)
      assume eq: "r' = r \<and> cb' = cb \<and> tot' = tot"
      show "copyRelationshipsLoop r cb tot p w = Some y \<and> P p w y"
      proof (cases "p < tot")
        case False
        then have "y = (Inr (), w)" using 1(2) eq by simp
        then show ?thesis using False stop by (simp add: copyRelationshipsLoop.simps)
      next
        case True
        obtain res w' where pg: "copyRelationshipsPage r cb tot p w = (res, w')"
          by (cases "copyRelationshipsPage r cb tot p w")
        show ?thesis
        proof (cases res)
          case (Inl e)
          then have "y = (Inl e, w')" using 1(2) eq True pg by simp
          then show ?thesis using True pg Inl throw by (simp add: copyRelationshipsLoop.simps)
        next
          case (Inr p')
          then have "loop r cb tot p' w' = Some y" using 1(2) eq True pg by simp
          from 1(1) [OF this] have ih: "copyRelationshipsLoop r cb tot p' w' = Some y" "P p' w' y"
            unfolding Q_def by simp_all
          have "copyRelationshipsLoop r cb tot p w = Some y"
            using True pg Inr ih(1) by (subst copyRelationshipsLoop.simps) simp
          moreover have "P p w y" using True pg Inr ih by (intro turn [of p w p' w' y]) simp_all
          ultimately show ?thesis by simp
        qed
      qed
    qed
  qed
  then show ?thesis unfolding Q_def by simp
qed



subsection \<open>One turn of a paging loop\<close>

lemma copyNodesPage_Inr:
  assumes "copyNodesPage r cb tot p w = (Inr p', w')"
  shows "\<exists>ns. pageNodes (sourceDriver r) (trace w) p (batchSize r) = Inr ns \<and> p' = p + length ns"
proof (cases "pageNodes (sourceDriver r) (trace w) p (batchSize r)")
  case (Inl e)
  then show ?thesis using assms by (simp add: copyNodesPage_def sourceRun_def)
next
  case (Inr ns)
  then show ?thesis
    using assms
    by (auto simp: copyNodesPage_def sourceRun_def and_then_def split: prod.splits sum.splits)
qed

lemma copyRelationshipsPage_Inr:
  assumes "copyRelationshipsPage r cb tot p w = (Inr p', w')"
  shows "\<exists>rs. pageRels (sourceDriver r) (trace w) p (batchSize r div 2) = Inr rs \<and> p' = p + length rs"
proof (cases "pageRels (sourceDriver r) (trace w) p (batchSize r div 2)")
  case (Inl e)
  then show ?thesis using assms by (simp add: copyRelationshipsPage_def sourceRun_def)
next
  case (Inr rs)
  then show ?thesis
    using assms
    by (auto simp: copyRelationshipsPage_def sourceRun_def and_then_def split: prod.splits sum.splits)
qed

lemma never_throws_call:
  assumes "never_throws cb"
  shows "\<exists>w'. call_opt cb n w = (Inr (), w')"
proof -
  have "fst (call_opt cb n w) = Inr ()" using assms by (simp add: never_throws_def)
  then show ?thesis by (cases "call_opt cb n w") simp
qed

lemma copyNodesPage_empty:
  assumes "pageNodes (sourceDriver r) (trace w) p (batchSize r) = Inr []" and "never_throws cb"
  shows "\<exists>w'. copyNodesPage r cb tot p w = (Inr p, w')"
proof -
  obtain w3 where "call_opt cb p (w\<lparr>trace := trace w @ [SourceRun (PageNodes p (batchSize r))]\<rparr>)
      = (Inr (), w3)"
    using never_throws_call [OF assms(2)] by blast
  then show ?thesis using assms(1) by (simp add: copyNodesPage_def sourceRun_def)
qed

lemma copyRelationshipsPage_empty:
  assumes "pageRels (sourceDriver r) (trace w) p (batchSize r div 2) = Inr []" and "never_throws cb"
  shows "\<exists>w'. copyRelationshipsPage r cb tot p w = (Inr p, w')"
proof -
  obtain w3 where "call_opt cb p (w\<lparr>trace := trace w @ [SourceRun (PageRels p (batchSize r div 2))]\<rparr>)
      = (Inr (), w3)"
    using never_throws_call [OF assms(2)] by blast
  then show ?thesis using assms(1) by (simp add: copyRelationshipsPage_def sourceRun_def)
qed

text \<open>A page below the total that the source answers with no record whenever it is
  asked: the loop is at the same place after each turn, so it cannot return normally,
  and it cannot return at all when the callback does not throw.\<close>

lemma copyNodesLoop_not_normal:
  assumes "copyNodesLoop r cb tot p w = Some y"
    and "p < tot" and "\<forall>h. pageNodes (sourceDriver r) h p (batchSize r) = Inr []"
  shows "\<exists>e w'. y = (Inl e, w')"
proof -
  have "p < tot \<and> (\<forall>h. pageNodes (sourceDriver r) h p (batchSize r) = Inr []) \<longrightarrow> (\<exists>e w'. y = (Inl e, w'))"
    using assms(1)
  proof (induction rule: copyNodesLoop_induct)
    case (stop p w)
    then show ?case by simp
  next
    case (throw p w e w')
    then show ?case by simp
  next
    case (turn p w p' w' y)
    show ?case
    proof (intro impI)
      assume a: "p < tot \<and> (\<forall>h. pageNodes (sourceDriver r) h p (batchSize r) = Inr [])"
      from copyNodesPage_Inr [OF turn(2)] a have "p' = p" by auto
      then show "\<exists>e w'. y = (Inl e, w')" using turn(4) a by simp
    qed
  qed
  then show ?thesis using assms(2,3) by simp
qed

lemma copyNodesLoop_stuck:
  assumes "p < tot" and "\<forall>h. pageNodes (sourceDriver r) h p (batchSize r) = Inr []"
    and "never_throws cb"
  shows "copyNodesLoop r cb tot p w = None"
proof (rule ccontr)
  assume "copyNodesLoop r cb tot p w \<noteq> None"
  then obtain y where y: "copyNodesLoop r cb tot p w = Some y" by auto
  have "p < tot \<and> (\<forall>h. pageNodes (sourceDriver r) h p (batchSize r) = Inr []) \<longrightarrow> False"
    using y
  proof (induction rule: copyNodesLoop_induct)
    case (stop p w)
    then show ?case by simp
  next
    case (throw p w e w')
    show ?case
    proof (intro impI)
      assume a: "p < tot \<and> (\<forall>h. pageNodes (sourceDriver r) h p (batchSize r) = Inr [])"
      then have "pageNodes (sourceDriver r) (trace w) p (batchSize r) = Inr []" by simp
      then obtain w2 where "copyNodesPage r cb tot p w = (Inr p, w2)"
        using copyNodesPage_empty [OF _ assms(3)] by blast
      then show False using throw(2) by simp
    qed
  next
    case (turn p w p' w' y)
    show ?case
    proof (intro impI)
      assume a: "p < tot \<and> (\<forall>h. pageNodes (sourceDriver r) h p (batchSize r) = Inr [])"
      from copyNodesPage_Inr [OF turn(2)] a have "p' = p" by auto
      then show False using turn(4) a by simp
    qed
  qed
  then show False using assms(1,2) by simp
qed

lemma copyRelationshipsLoop_not_normal:
  assumes "copyRelationshipsLoop r cb tot p w = Some y"
    and "p < tot" and "\<forall>h. pageRels (sourceDriver r) h p (batchSize r div 2) = Inr []"
  shows "\<exists>e w'. y = (Inl e, w')"
proof -
  have "p < tot \<and> (\<forall>h. pageRels (sourceDriver r) h p (batchSize r div 2) = Inr []) \<longrightarrow> (\<exists>e w'. y = (Inl e, w'))"
    using assms(1)
  proof (induction rule: copyRelationshipsLoop_induct)
    case (stop p w)
    then show ?case by simp
  next
    case (throw p w e w')
    then show ?case by simp
  next
    case (turn p w p' w' y)
    show ?case
    proof (intro impI)
      assume a: "p < tot \<and> (\<forall>h. pageRels (sourceDriver r) h p (batchSize r div 2) = Inr [])"
      from copyRelationshipsPage_Inr [OF turn(2)] a have "p' = p" by auto
      then show "\<exists>e w'. y = (Inl e, w')" using turn(4) a by simp
    qed
  qed
  then show ?thesis using assms(2,3) by simp
qed

lemma copyRelationshipsLoop_stuck:
  assumes "p < tot" and "\<forall>h. pageRels (sourceDriver r) h p (batchSize r div 2) = Inr []"
    and "never_throws cb"
  shows "copyRelationshipsLoop r cb tot p w = None"
proof (rule ccontr)
  assume "copyRelationshipsLoop r cb tot p w \<noteq> None"
  then obtain y where y: "copyRelationshipsLoop r cb tot p w = Some y" by auto
  have "p < tot \<and> (\<forall>h. pageRels (sourceDriver r) h p (batchSize r div 2) = Inr []) \<longrightarrow> False"
    using y
  proof (induction rule: copyRelationshipsLoop_induct)
    case (stop p w)
    then show ?case by simp
  next
    case (throw p w e w')
    show ?case
    proof (intro impI)
      assume a: "p < tot \<and> (\<forall>h. pageRels (sourceDriver r) h p (batchSize r div 2) = Inr [])"
      then have "pageRels (sourceDriver r) (trace w) p (batchSize r div 2) = Inr []" by simp
      then obtain w2 where "copyRelationshipsPage r cb tot p w = (Inr p, w2)"
        using copyRelationshipsPage_empty [OF _ assms(3)] by blast
      then show False using throw(2) by simp
    qed
  next
    case (turn p w p' w' y)
    show ?case
    proof (intro impI)
      assume a: "p < tot \<and> (\<forall>h. pageRels (sourceDriver r) h p (batchSize r div 2) = Inr [])"
      from copyRelationshipsPage_Inr [OF turn(2)] a have "p' = p" by auto
      then show False using turn(4) a by simp
    qed
  qed
  then show False using assms(1,2) by simp
qed



subsection \<open>Writes that are not rejected\<close>

lemma targetRun_ok:
  "never_rejects r \<Longrightarrow>
   targetRun r s w = (Inr (result_names s (target w)),
                      w\<lparr> trace := trace w @ [TargetRun s], target := apply_stmt s (target w) \<rparr>)"
  by (simp add: never_rejects_def targetRun_def)

lemma createNodeGroups_ok:
  assumes "never_rejects r"
  shows "createNodeGroups r gs w =
           (Inr (), w\<lparr> trace := trace w @ node_group_events gs,
                        target := create_groups gs (target w) \<rparr>)"
proof (induction gs arbitrary: w)
  case Nil
  show ?case by (simp add: node_group_events_def)
next
  case (Cons g gs)
  obtain k ns where g: "g = (k, ns)" by (cases g)
  show ?case
    unfolding g by (simp add: targetRun_ok [OF assms] Cons.IH node_group_events_def)
qed

lemma createNodesInTarget_ok:
  assumes "never_rejects r"
  shows "createNodesInTarget r nodesData w =
           (Inr (), w\<lparr> trace := trace w @ node_group_events (nodesByLabels [] nodesData),
                        target := create_groups (nodesByLabels [] nodesData) (target w) \<rparr>)"
  by (simp add: createNodesInTarget_def createNodeGroups_ok [OF assms] openTarget_def closeTarget_def)

lemma createRelGroups_ok:
  assumes "never_rejects r"
  shows "createRelGroups r gs w =
           (Inr (), w\<lparr> trace := trace w @ rel_group_events gs,
                        target := create_rel_groups gs (target w) \<rparr>)"
proof (induction gs arbitrary: w)
  case Nil
  show ?case by (simp add: rel_group_events_def)
next
  case (Cons g gs)
  obtain k rs where g: "g = (k, rs)" by (cases g)
  show ?case
    unfolding g by (simp add: targetRun_ok [OF assms] Cons.IH rel_group_events_def)
qed

lemma createRelationshipsInTarget_ok:
  assumes "never_rejects r"
  shows "createRelationshipsInTarget r relsData w =
           (Inr (), w\<lparr> trace := trace w @ rel_group_events (relsByType [] relsData),
                        target := create_rel_groups (relsByType [] relsData) (target w) \<rparr>)"
  by (simp add: createRelationshipsInTarget_def createRelGroups_ok [OF assms] openTarget_def
                closeTarget_def)

lemma content_create_nodes:
  "content (create_nodes c ns db) = content db @ map (\<lambda>n. (clause_labels c, node_props n)) ns"
  by (induction ns arbitrary: db) (simp_all add: content_def new_node_def node_props_def)

lemma rels_create_nodes [simp]: "t_rels (create_nodes c ns db) = t_rels db"
  by (induction ns arbitrary: db) simp_all

lemma content_create_groups:
  "content (create_groups gs db) =
     content db @ concat (map (\<lambda>(k, ns). map (\<lambda>n. (clause_labels (labelClause k), node_props n)) ns) gs)"
proof (induction gs arbitrary: db)
  case Nil
  show ?case by simp
next
  case (Cons g gs)
  obtain k ns where g: "g = (k, ns)" by (cases g)
  show ?case unfolding g by (simp add: Cons.IH content_create_nodes)
qed

lemma rels_create_groups [simp]: "t_rels (create_groups gs db) = t_rels db"
proof (induction gs arbitrary: db)
  case Nil
  show ?case by simp
next
  case (Cons g gs)
  obtain k ns where g: "g = (k, ns)" by (cases g)
  show ?case unfolding g by (simp add: Cons.IH)
qed

lemma never_rejects_quiet [simp]: "never_rejects (quiet_replicator g n)"
  by (simp add: never_rejects_def quiet_replicator_def no_fault_def)



subsection \<open>The schema stage: every row is tried\<close>

lemma steps_trace_mono: "steps P w w' \<Longrightarrow> e \<in> set (trace w) \<Longrightarrow> e \<in> set (trace w')"
  by (auto simp: steps_def)

lemma steps_new_mono:
  assumes "steps P w1 w2" and "e \<in> set (drop n (trace w1))"
  shows "e \<in> set (drop n (trace w2))"
proof -
  obtain evs where "trace w2 = trace w1 @ evs" using assms(1) by (auto simp: steps_def)
  then show ?thesis using assms(2) by auto
qed

lemma constraint_item_returns:
  "\<exists>w'. try_catch (tryConstraint r c w) (catchConstraint c) = (Inr (), w')"
proof (cases "tryConstraint r c w")
  case (Pair res w1)
  then show ?thesis by (cases res) (simp_all add: catchConstraint_def)
qed

lemma index_item_returns:
  "\<exists>w'. try_catch (tryIndex r ix w) (catchIndex ix) = (Inr (), w')"
proof (cases "tryIndex r ix w")
  case (Pair res w1)
  then show ?thesis by (cases res) (simp_all add: catchIndex_def)
qed

lemma copyConstraints_returns: "fst (copyConstraints r cs w) = Inr ()"
proof (induction cs arbitrary: w)
  case Nil
  show ?case by simp
next
  case (Cons c cs)
  obtain w1 where "try_catch (tryConstraint r c w) (catchConstraint c) = (Inr (), w1)"
    using constraint_item_returns by blast
  then show ?case using Cons.IH by simp
qed

lemma copyIndexes_returns: "fst (copyIndexes r ixs w) = Inr ()"
proof (induction ixs arbitrary: w)
  case Nil
  show ?case by simp
next
  case (Cons ix ixs)
  obtain w1 where "try_catch (tryIndex r ix w) (catchIndex ix) = (Inr (), w1)"
    using index_item_returns by blast
  then show ?case using Cons.IH by simp
qed

lemma constraint_item_attempted:
  assumes "constraintStatement c \<noteq> []"
  shows "TargetRun (CreateConstraint (c_name c) (constraintStatement c))
           \<in> set (drop (length (trace w)) (trace (snd (try_catch (tryConstraint r c w) (catchConstraint c)))))"
proof (cases "targetFault r (trace w) (CreateConstraint (c_name c) (constraintStatement c))")
  case None
  then show ?thesis
    using assms by (simp add: tryConstraint_def Let_def targetRun_def console_def)
next
  case (Some e)
  then show ?thesis
    using assms
    by (simp add: tryConstraint_def Let_def catchConstraint_def targetRun_def console_def)
qed

lemma index_item_attempted:
  assumes "indexStatement ix \<noteq> []"
  shows "TargetRun (CreateIndex (i_name ix) (indexStatement ix))
           \<in> set (drop (length (trace w)) (trace (snd (try_catch (tryIndex r ix w) (catchIndex ix)))))"
proof (cases "targetFault r (trace w) (CreateIndex (i_name ix) (indexStatement ix))")
  case None
  then show ?thesis
    using assms by (simp add: tryIndex_def Let_def targetRun_def console_def)
next
  case (Some e)
  then show ?thesis
    using assms
    by (simp add: tryIndex_def Let_def catchIndex_def targetRun_def console_def)
qed

lemma steps_constraint_item:
  "steps (quiet (Some Schema)) w (snd (try_catch (tryConstraint r c w) (catchConstraint c)))"
  using steps_copyConstraints [of w r "[c]"]
  by (cases "try_catch (tryConstraint r c w) (catchConstraint c)")
     (auto simp: and_then_def split: sum.splits)

lemma steps_index_item:
  "steps (quiet (Some Schema)) w (snd (try_catch (tryIndex r ix w) (catchIndex ix)))"
  using steps_copyIndexes [of w r "[ix]"]
  by (cases "try_catch (tryIndex r ix w) (catchIndex ix)")
     (auto simp: and_then_def split: sum.splits)

lemma drop_trace_le:
  assumes "steps P w w1" and "e \<in> set (drop (length (trace w1)) (trace w2))"
  shows "e \<in> set (drop (length (trace w)) (trace w2))"
proof -
  have "length (trace w) \<le> length (trace w1)" using assms(1) by (auto simp: steps_def)
  then show ?thesis using assms(2) by (meson set_drop_subset_set_drop subsetD)
qed

lemma copyConstraints_attempts:
  assumes "c \<in> set cs" and "constraintStatement c \<noteq> []"
  shows "TargetRun (CreateConstraint (c_name c) (constraintStatement c))
           \<in> set (drop (length (trace w)) (trace (snd (copyConstraints r cs w))))"
  using assms(1)
proof (induction cs arbitrary: w)
  case Nil
  then show ?case by simp
next
  case (Cons a cs)
  obtain w1 where w1: "try_catch (tryConstraint r a w) (catchConstraint a) = (Inr (), w1)"
    using constraint_item_returns by blast
  have st: "steps (quiet (Some Schema)) w w1"
    using steps_constraint_item [of w r a] w1 by simp
  show ?case
  proof (cases "c = a")
    case True
    have "TargetRun (CreateConstraint (c_name c) (constraintStatement c))
            \<in> set (drop (length (trace w)) (trace w1))"
      using constraint_item_attempted [OF assms(2), of w r] w1 True by simp
    then show ?thesis
      using w1 steps_copyConstraints [of w1 r cs] by (simp add: steps_new_mono)
  next
    case False
    then have "c \<in> set cs" using Cons.prems by simp
    from Cons.IH [OF this, of w1] show ?thesis
      using w1 st by (simp add: drop_trace_le)
  qed
qed

lemma copyIndexes_attempts:
  assumes "ix \<in> set ixs" and "indexStatement ix \<noteq> []"
  shows "TargetRun (CreateIndex (i_name ix) (indexStatement ix))
           \<in> set (drop (length (trace w)) (trace (snd (copyIndexes r ixs w))))"
  using assms(1)
proof (induction ixs arbitrary: w)
  case Nil
  then show ?case by simp
next
  case (Cons a ixs)
  obtain w1 where w1: "try_catch (tryIndex r a w) (catchIndex a) = (Inr (), w1)"
    using index_item_returns by blast
  have st: "steps (quiet (Some Schema)) w w1"
    using steps_index_item [of w r a] w1 by simp
  show ?case
  proof (cases "ix = a")
    case True
    have "TargetRun (CreateIndex (i_name ix) (indexStatement ix))
            \<in> set (drop (length (trace w)) (trace w1))"
      using index_item_attempted [OF assms(2), of w r] w1 True by simp
    then show ?thesis
      using w1 steps_copyIndexes [of w1 r ixs] by (simp add: steps_new_mono)
  next
    case False
    then have "ix \<in> set ixs" using Cons.prems by simp
    from Cons.IH [OF this, of w1] show ?thesis
      using w1 st by (simp add: drop_trace_le)
  qed
qed

lemma copySchema_unfold:
  assumes "showConstraints (sourceDriver r) = Inr cs" and "showIndexes (sourceDriver r) = Inr ixs"
  shows "copySchema r w =
     (fst (copyIndexes r ixs (snd (sourceRun SrcShowIndexes (Inr ixs :: js_error + index_row list) (snd (copyConstraints r cs (snd (sourceRun SrcShowConstraints (Inr cs :: js_error + constraint_row list) (openTarget (openSource (console Info ''Copying database schema...'' w)))))))))),
      closeTarget (closeSource (snd (copyIndexes r ixs (snd (sourceRun SrcShowIndexes (Inr ixs :: js_error + index_row list) (snd (copyConstraints r cs (snd (sourceRun SrcShowConstraints (Inr cs :: js_error + constraint_row list) (openTarget (openSource (console Info ''Copying database schema...'' w)))))))))))))"
proof -
  let ?w0 = "openTarget (openSource (console Info ''Copying database schema...'' w))"
  let ?w1 = "snd (sourceRun SrcShowConstraints (Inr cs :: js_error + constraint_row list) ?w0)"
  obtain w2 where w2: "copyConstraints r cs ?w1 = (Inr (), w2)"
    using copyConstraints_returns [of r cs ?w1] by (cases "copyConstraints r cs ?w1") simp
  let ?w3 = "snd (sourceRun SrcShowIndexes (Inr ixs :: js_error + index_row list) w2)"
  obtain res w4 where w4: "copyIndexes r ixs ?w3 = (res, w4)"
    by (cases "copyIndexes r ixs ?w3")
  show ?thesis
    using assms w2 w4 by (simp add: copySchema_def sourceRun_def)
qed

lemma copySchema_sends:
  assumes "showConstraints (sourceDriver r) = Inr cs" and "showIndexes (sourceDriver r) = Inr ixs"
  shows "c \<in> set cs \<Longrightarrow> constraintStatement c \<noteq> [] \<Longrightarrow>
           TargetRun (CreateConstraint (c_name c) (constraintStatement c))
             \<in> set (drop (length (trace w)) (trace (snd (copySchema r w))))"
    and "ix \<in> set ixs \<Longrightarrow> indexStatement ix \<noteq> [] \<Longrightarrow>
           TargetRun (CreateIndex (i_name ix) (indexStatement ix))
             \<in> set (drop (length (trace w)) (trace (snd (copySchema r w))))"
    and "fst (copySchema r w) = Inr ()"
proof -
  let ?w0 = "openTarget (openSource (console Info ''Copying database schema...'' w))"
  let ?w1 = "snd (sourceRun SrcShowConstraints (Inr cs :: js_error + constraint_row list) ?w0)"
  let ?w2 = "snd (copyConstraints r cs ?w1)"
  let ?w3 = "snd (sourceRun SrcShowIndexes (Inr ixs :: js_error + index_row list) ?w2)"
  let ?w4 = "snd (copyIndexes r ixs ?w3)"
  have u: "copySchema r w = (fst (copyIndexes r ixs ?w3), closeTarget (closeSource ?w4))"
    by (rule copySchema_unfold [OF assms])
  have l0: "length (trace w) \<le> length (trace ?w1)"
    by (simp add: sourceRun_def openTarget_def openSource_def console_def)
  have t3: "trace ?w3 = trace ?w2 @ [SourceRun SrcShowIndexes]"
    by (simp add: sourceRun_def)
  have l2: "length (trace ?w1) \<le> length (trace ?w2)"
    using steps_copyConstraints [of ?w1 r cs] by (auto simp: steps_def)
  have tr: "trace (snd (copySchema r w)) = trace ?w4"
    by (simp add: u closeTarget_def closeSource_def)
  show "fst (copySchema r w) = Inr ()"
    by (simp add: u copyIndexes_returns)
  {
    assume c: "c \<in> set cs" "constraintStatement c \<noteq> []"
    let ?e = "TargetRun (CreateConstraint (c_name c) (constraintStatement c))"
    have "?e \<in> set (drop (length (trace ?w1)) (trace ?w2))"
      by (rule copyConstraints_attempts [OF c])
    then have "?e \<in> set (drop (length (trace ?w1)) (trace ?w3))"
      by (simp add: t3)
    then have "?e \<in> set (drop (length (trace ?w1)) (trace ?w4))"
      using steps_copyIndexes [of ?w3 r ixs] by (rule steps_new_mono [rotated])
    then show "?e \<in> set (drop (length (trace w)) (trace (snd (copySchema r w))))"
      unfolding tr using l0 by (meson set_drop_subset_set_drop subsetD)
  }
  {
    assume ix: "ix \<in> set ixs" "indexStatement ix \<noteq> []"
    let ?e = "TargetRun (CreateIndex (i_name ix) (indexStatement ix))"
    have l3: "length (trace w) \<le> length (trace ?w3)"
      using l0 l2 by (simp add: t3)
    have "?e \<in> set (drop (length (trace ?w3)) (trace ?w4))"
      by (rule copyIndexes_attempts [OF ix])
    then show "?e \<in> set (drop (length (trace w)) (trace (snd (copySchema r w))))"
      unfolding tr using l3 by (meson set_drop_subset_set_drop subsetD)
  }
qed


subsection \<open>The schema stage: every rejection is logged\<close>

lemma logged_after_append:
  "logged_after r h xs \<Longrightarrow> logged_after r (h @ xs) ys \<Longrightarrow> logged_after r h (xs @ ys)"
proof (induction xs arbitrary: h)
  case Nil
  then show ?case by simp
next
  case (Cons e xs)
  show ?case
  proof (cases e)
    case (TargetRun s)
    have t: "starts_with ev xs \<Longrightarrow> starts_with ev (xs @ ys)" for ev
      by (cases xs) simp_all
    show ?thesis
      using Cons.prems Cons.IH [of "h @ [e]"] TargetRun
      by (auto split: option.splits simp: t)
  qed (use Cons.prems Cons.IH [of "h @ [e]"] in simp_all)
qed

lemma accepted_append:
  "accepted r h (xs @ ys) = accepted r h xs @ accepted r (h @ xs) ys"
proof (induction xs arbitrary: h)
  case Nil
  show ?case by simp
next
  case (Cons e xs)
  show ?case by (cases e) (simp_all add: Cons.IH)
qed

lemma replay_append [simp]: "replay (xs @ ys) db = replay ys (replay xs db)"
  by (simp add: replay_def)

lemma replay_simps [simp]: "replay [] db = db" "replay [s] db = apply_stmt s db"
  by (simp_all add: replay_def)

lemma logged_afterD:
  assumes "logged_after r h evs" and "evs = pre @ TargetRun s # post"
    and "targetFault r (h @ pre) s = Some e" and "reaction s e = Some ev"
  shows "\<exists>post'. post = ev # post'"
  using assms(1,2,3)
proof (induction pre arbitrary: h evs)
  case Nil
  then have "starts_with ev post" using assms(4) by simp
  then show ?case by (cases post) simp_all
next
  case (Cons a pre)
  have "logged_after r (h @ [a]) (pre @ TargetRun s # post)"
    using Cons.prems(1,2) by (cases a) simp_all
  from Cons.IH [OF this refl] Cons.prems(3) show ?case by simp
qed

lemma schema_run_refl [simp]: "schema_run r w w"
  by (simp add: schema_run_def)

lemma schema_run_trans:
  assumes "schema_run r w w1" and "schema_run r w1 w2"
  shows "schema_run r w w2"
proof -
  obtain xs where xs: "trace w1 = trace w @ xs" "logged_after r (trace w) xs"
      "target w1 = replay (accepted r (trace w) xs) (target w)"
    using assms(1) unfolding schema_run_def by blast
  obtain ys where ys: "trace w2 = trace w1 @ ys" "logged_after r (trace w1) ys"
      "target w2 = replay (accepted r (trace w1) ys) (target w1)"
    using assms(2) unfolding schema_run_def by blast
  have "trace w2 = trace w @ (xs @ ys)" using xs(1) ys(1) by simp
  moreover have "logged_after r (trace w) (xs @ ys)"
    using xs(1,2) ys(2) by (intro logged_after_append) simp_all
  moreover have "target w2 = replay (accepted r (trace w) (xs @ ys)) (target w)"
    using xs(1,3) ys(3) by (simp add: accepted_append)
  ultimately show ?thesis unfolding schema_run_def by blast
qed

declare schema_run_trans [trans]

lemma schema_run_quiet:
  assumes "trace w' = trace w @ [e]" and "target w' = target w" and "\<And>s. e \<noteq> TargetRun s"
  shows "schema_run r w w'"
  unfolding schema_run_def using assms
  by (intro exI [of _ "[e]"]) (cases e; auto)

lemma schema_run_same:
  "trace w' = trace w \<Longrightarrow> target w' = target w \<Longrightarrow> schema_run r w w'"
  unfolding schema_run_def by (intro exI [of _ "[]"]) simp

lemma schema_run_constraint_item:
  "schema_run r w (snd (try_catch (tryConstraint r c w) (catchConstraint c)))"
proof (cases "constraintStatement c = []")
  case True
  then show ?thesis
    by (simp add: tryConstraint_def schema_run_quiet console_def)
next
  case False
  let ?s = "CreateConstraint (c_name c) (constraintStatement c)"
  show ?thesis
  proof (cases "targetFault r (trace w) ?s")
    case None
    then show ?thesis
      using False unfolding schema_run_def
      by (intro exI [of _ "[TargetRun ?s, Console Info (''Created constraint: '' @ c_name c
                               @ '' ('' @ c_type c @ '')'')]"])
         (simp add: tryConstraint_def Let_def targetRun_def console_def)
  next
    case (Some e)
    then show ?thesis
      using False unfolding schema_run_def
      by (intro exI [of _ "[TargetRun ?s, the (reaction ?s e)]"])
         (simp add: tryConstraint_def Let_def targetRun_def catchConstraint_def console_def)
  qed
qed

lemma schema_run_index_item:
  "schema_run r w (snd (try_catch (tryIndex r ix w) (catchIndex ix)))"
proof (cases "indexStatement ix = []")
  case True
  then show ?thesis
    by (simp add: tryIndex_def schema_run_quiet console_def)
next
  case False
  let ?s = "CreateIndex (i_name ix) (indexStatement ix)"
  show ?thesis
  proof (cases "targetFault r (trace w) ?s")
    case None
    then show ?thesis
      using False unfolding schema_run_def
      by (intro exI [of _ "[TargetRun ?s, Console Info (''Created index: '' @ i_name ix
                               @ '' ('' @ i_type ix @ '')'')]"])
         (simp add: tryIndex_def Let_def targetRun_def console_def)
  next
    case (Some e)
    then show ?thesis
      using False unfolding schema_run_def
      by (intro exI [of _ "[TargetRun ?s, the (reaction ?s e)]"])
         (simp add: tryIndex_def Let_def targetRun_def catchIndex_def console_def)
  qed
qed

lemma schema_run_copyConstraints: "schema_run r w (snd (copyConstraints r cs w))"
proof (induction cs arbitrary: w)
  case Nil
  show ?case by simp
next
  case (Cons c cs)
  obtain w1 where w1: "try_catch (tryConstraint r c w) (catchConstraint c) = (Inr (), w1)"
    using constraint_item_returns by blast
  have "schema_run r w w1" using schema_run_constraint_item [of r w c] w1 by simp
  then have "schema_run r w (snd (copyConstraints r cs w1))"
    using Cons.IH by (rule schema_run_trans)
  then show ?case using w1 by simp
qed

lemma schema_run_copyIndexes: "schema_run r w (snd (copyIndexes r ixs w))"
proof (induction ixs arbitrary: w)
  case Nil
  show ?case by simp
next
  case (Cons ix ixs)
  obtain w1 where w1: "try_catch (tryIndex r ix w) (catchIndex ix) = (Inr (), w1)"
    using index_item_returns by blast
  have "schema_run r w w1" using schema_run_index_item [of r w ix] w1 by simp
  then have "schema_run r w (snd (copyIndexes r ixs w1))"
    using Cons.IH by (rule schema_run_trans)
  then show ?case using w1 by simp
qed

lemma schema_run_copySchema:
  assumes "showConstraints (sourceDriver r) = Inr cs" and "showIndexes (sourceDriver r) = Inr ixs"
  shows "schema_run r w (snd (copySchema r w))"
proof -
  let ?w0 = "openTarget (openSource (console Info ''Copying database schema...'' w))"
  let ?w1 = "snd (sourceRun SrcShowConstraints (Inr cs :: js_error + constraint_row list) ?w0)"
  let ?w2 = "snd (copyConstraints r cs ?w1)"
  let ?w3 = "snd (sourceRun SrcShowIndexes (Inr ixs :: js_error + index_row list) ?w2)"
  let ?w4 = "snd (copyIndexes r ixs ?w3)"
  have u: "snd (copySchema r w) = closeTarget (closeSource ?w4)"
    by (simp add: copySchema_unfold [OF assms])
  have "schema_run r w ?w0"
    by (rule schema_run_quiet [of _ _ "Console Info ''Copying database schema...''"])
       (simp_all add: openTarget_def openSource_def console_def)
  also have "schema_run r ?w0 ?w1"
    by (rule schema_run_quiet [of _ _ "SourceRun SrcShowConstraints"]) (simp_all add: sourceRun_def)
  also have "schema_run r ?w1 ?w2" by (rule schema_run_copyConstraints)
  also have "schema_run r ?w2 ?w3"
    by (rule schema_run_quiet [of _ _ "SourceRun SrcShowIndexes"]) (simp_all add: sourceRun_def)
  also have "schema_run r ?w3 ?w4" by (rule schema_run_copyIndexes)
  also have "schema_run r ?w4 (closeTarget (closeSource ?w4))"
    by (rule schema_run_same) (simp_all add: closeTarget_def closeSource_def)
  finally show ?thesis unfolding u .
qed

lemma schema_stmt_reaction:
  assumes "stmt_stage s = Schema"
  shows "\<exists>ev. reaction s e = Some ev"
  using assms by (cases s) simp_all

lemma example_statements:
  "constraintStatement unique_person
     = ''CREATE CONSTRAINT person_id FOR (n:Person) REQUIRE (n.id) IS UNIQUE''"
  "indexStatement btree_index = ''CREATE INDEX idx_name FOR (n:Person) ON (n.name, n.age)''"
  "indexStatement range_index = []"
  "indexStatement btree_no_label = []"
  by (simp_all add: constraintStatement_def indexStatement_def unique_person_def btree_index_def
        range_index_def btree_no_label_def)


subsection \<open>The copiers: what they leave unchanged\<close>

lemma steps_notify:
  assumes "\<And>p. stage p = stage (progress w) \<Longrightarrow> P (Observer p)"
  shows "steps P w (snd (notify cb w))"
  using assms by (auto simp: notify_def steps_def split: option.splits)

lemma steps_nodesCallback:
  assumes "\<And>p. stage p = stage (progress w) \<Longrightarrow> P (Observer p)"
  shows "steps P w (snd (nodesCallback cb n w))"
  using assms by (auto simp: nodesCallback_def notify_def steps_def split: option.splits)

lemma steps_relsCallback:
  assumes "\<And>p. stage p = stage (progress w) \<Longrightarrow> P (Observer p)"
  shows "steps P w (snd (relsCallback cb n w))"
  using assms by (auto simp: relsCallback_def notify_def steps_def split: option.splits)

lemma in_stage_simps [simp]:
  "in_stage s (Console lvl msg)"
  "in_stage s (ConsoleObj lvl msg e)"
  "in_stage s (TargetRun st) \<longleftrightarrow> stmt_stage st = s"
  "in_stage s (SourceRun q) \<longleftrightarrow> query_stage q = s"
  "in_stage s (Observer p) \<longleftrightarrow> stage p = s"
  by (simp_all add: in_stage_def)

lemma steps_stage: "steps P w w' \<Longrightarrow> stage (progress w') = stage (progress w)"
  by (simp add: steps_def)

lemma steps_copyNodesPage:
  assumes "stage (progress w) = Nodes"
  shows "steps (in_stage Nodes) w (snd (copyNodesPage r (Some (nodesCallback cb)) tot p w))"
proof -
  have cb: "steps (in_stage Nodes) w1 (snd (nodesCallback cb n w1))"
    if "stage (progress w1) = Nodes" for n w1
    using that by (intro steps_nodesCallback) simp
  have wr: "steps (in_stage Nodes) w1
      (snd (if 0 < length ns then createNodesInTarget r ns w1 else (Inr (), w1)))" for ns w1
    by (simp add: steps_createNodesInTarget)
  let ?m1 = "sourceRun (PageNodes p (batchSize r)) (pageNodes (sourceDriver r) (trace w) p (batchSize r)) w"
  have s1: "steps (in_stage Nodes) w (snd ?m1)" by (rule steps_sourceRun) simp
  show ?thesis
  proof (cases ?m1)
    case (Pair res1 w1)
    then have w1: "steps (in_stage Nodes) w w1" using s1 by simp
    show ?thesis
    proof (cases res1)
      case (Inl e)
      then show ?thesis using Pair w1 by (simp add: copyNodesPage_def)
    next
      case (Inr ns)
      let ?m2 = "if 0 < length ns then createNodesInTarget r ns w1 else (Inr (), w1)"
      obtain res2 w2 where m2: "?m2 = (res2, w2)" by (cases ?m2)
      have w2: "steps (in_stage Nodes) w w2"
        using steps_trans [OF w1 wr [of w1 ns]] m2 by simp
      show ?thesis
      proof (cases res2)
        case (Inl e)
        then show ?thesis using Pair Inr m2 w2 by (simp add: copyNodesPage_def)
      next
        case u: (Inr u)
        let ?m3 = "nodesCallback cb (p + length ns) w2"
        obtain res3 w3 where m3: "?m3 = (res3, w3)" by (cases ?m3)
        have "stage (progress w2) = Nodes" using steps_stage [OF w2] assms by simp
        from cb [OF this, of "p + length ns"] have "steps (in_stage Nodes) w2 w3"
          using m3 by simp
        with w2 have w3: "steps (in_stage Nodes) w w3" by (rule steps_trans)
        show ?thesis
        proof (cases res3)
          case (Inl e)
          then show ?thesis using Pair Inr m2 u m3 w3 by (simp add: copyNodesPage_def)
        next
          case v: (Inr v)
          have "steps (in_stage Nodes) w3 (console Info msg w3)" for msg
            by (rule steps_console) simp
          with w3 have "steps (in_stage Nodes) w (console Info msg w3)" for msg
            by (rule steps_trans)
          then show ?thesis using Pair Inr m2 u m3 v by (simp add: copyNodesPage_def)
        qed
      qed
    qed
  qed
qed

lemma steps_copyRelationshipsPage:
  assumes "stage (progress w) = Relationships"
  shows "steps (in_stage Relationships) w
           (snd (copyRelationshipsPage r (Some (relsCallback cb)) tot p w))"
proof -
  have cb: "steps (in_stage Relationships) w1 (snd (relsCallback cb n w1))"
    if "stage (progress w1) = Relationships" for n w1
    using that by (intro steps_relsCallback) simp
  have wr: "steps (in_stage Relationships) w1
      (snd (if 0 < length rs then createRelationshipsInTarget r rs w1 else (Inr (), w1)))" for rs w1
    by (simp add: steps_createRelationshipsInTarget)
  let ?m1 = "sourceRun (PageRels p (batchSize r div 2))
               (pageRels (sourceDriver r) (trace w) p (batchSize r div 2)) w"
  have s1: "steps (in_stage Relationships) w (snd ?m1)" by (rule steps_sourceRun) simp
  show ?thesis
  proof (cases ?m1)
    case (Pair res1 w1)
    then have w1: "steps (in_stage Relationships) w w1" using s1 by simp
    show ?thesis
    proof (cases res1)
      case (Inl e)
      then show ?thesis using Pair w1 by (simp add: copyRelationshipsPage_def)
    next
      case (Inr rs)
      let ?m2 = "if 0 < length rs then createRelationshipsInTarget r rs w1 else (Inr (), w1)"
      obtain res2 w2 where m2: "?m2 = (res2, w2)" by (cases ?m2)
      have w2: "steps (in_stage Relationships) w w2"
        using steps_trans [OF w1 wr [of w1 rs]] m2 by simp
      show ?thesis
      proof (cases res2)
        case (Inl e)
        then show ?thesis using Pair Inr m2 w2 by (simp add: copyRelationshipsPage_def)
      next
        case u: (Inr u)
        let ?m3 = "relsCallback cb (p + length rs) w2"
        obtain res3 w3 where m3: "?m3 = (res3, w3)" by (cases ?m3)
        have "stage (progress w2) = Relationships" using steps_stage [OF w2] assms by simp
        from cb [OF this, of "p + length rs"] have "steps (in_stage Relationships) w2 w3"
          using m3 by simp
        with w2 have w3: "steps (in_stage Relationships) w w3" by (rule steps_trans)
        show ?thesis
        proof (cases res3)
          case (Inl e)
          then show ?thesis using Pair Inr m2 u m3 w3 by (simp add: copyRelationshipsPage_def)
        next
          case v: (Inr v)
          have "steps (in_stage Relationships) w3 (console Info msg w3)" for msg
            by (rule steps_console) simp
          with w3 have "steps (in_stage Relationships) w (console Info msg w3)" for msg
            by (rule steps_trans)
          then show ?thesis using Pair Inr m2 u m3 v by (simp add: copyRelationshipsPage_def)
        qed
      qed
    qed
  qed
qed

lemma steps_copyNodesLoop:
  assumes "copyNodesLoop r (Some (nodesCallback cb)) tot p w = Some y"
    and "stage (progress w) = Nodes"
  shows "steps (in_stage Nodes) w (snd y)"
proof -
  have "stage (progress w) = Nodes \<longrightarrow> steps (in_stage Nodes) w (snd y)"
    using assms(1)
  proof (induction rule: copyNodesLoop_induct)
    case (stop p w)
    show ?case by simp
  next
    case (throw p w e w')
    show ?case
      using steps_copyNodesPage [of w r cb tot p] throw(2) by simp
  next
    case (turn p w p' w' y)
    show ?case
    proof
      assume s: "stage (progress w) = Nodes"
      have a: "steps (in_stage Nodes) w w'"
        using steps_copyNodesPage [OF s, of r cb tot p] turn(2) by simp
      then have "stage (progress w') = Nodes" using s by (simp add: steps_def)
      with turn(4) have "steps (in_stage Nodes) w' (snd y)" by simp
      with a show "steps (in_stage Nodes) w (snd y)" by (rule steps_trans)
    qed
  qed
  then show ?thesis using assms(2) by simp
qed

lemma steps_copyRelationshipsLoop:
  assumes "copyRelationshipsLoop r (Some (relsCallback cb)) tot p w = Some y"
    and "stage (progress w) = Relationships"
  shows "steps (in_stage Relationships) w (snd y)"
proof -
  have "stage (progress w) = Relationships \<longrightarrow> steps (in_stage Relationships) w (snd y)"
    using assms(1)
  proof (induction rule: copyRelationshipsLoop_induct)
    case (stop p w)
    show ?case by simp
  next
    case (throw p w e w')
    show ?case
      using steps_copyRelationshipsPage [of w r cb tot p] throw(2) by simp
  next
    case (turn p w p' w' y)
    show ?case
    proof
      assume s: "stage (progress w) = Relationships"
      have a: "steps (in_stage Relationships) w w'"
        using steps_copyRelationshipsPage [OF s, of r cb tot p] turn(2) by simp
      then have "stage (progress w') = Relationships" using s by (simp add: steps_def)
      with turn(4) have "steps (in_stage Relationships) w' (snd y)" by simp
      with a show "steps (in_stage Relationships) w (snd y)" by (rule steps_trans)
    qed
  qed
  then show ?thesis using assms(2) by simp
qed

text \<open>\<open>copyNodes\<close> and \<open>copyRelationships\<close> in terms of their loop.\<close>

lemma copyNodes_cases:
  assumes "copyNodes r cb w = Some out"
  obtains (count_failed) e where "countNodes (sourceDriver r) (trace (console Info ''Copying nodes...'' w)) = Inl e"
      and "out = (Inl e, closeSource (snd (sourceRun CountNodes (countNodes (sourceDriver r) (trace (console Info ''Copying nodes...'' w)))
                    (openSource (console Info ''Copying nodes...'' w)))))"
  | (looped) tot y where "countNodes (sourceDriver r) (trace (console Info ''Copying nodes...'' w)) = Inr tot"
      and "copyNodesLoop r cb tot 0 (snd (sourceRun CountNodes (countNodes (sourceDriver r) (trace (console Info ''Copying nodes...'' w)))
              (openSource (console Info ''Copying nodes...'' w)))) = Some y"
      and "out = (fst y, closeSource (snd y))"
proof (cases "countNodes (sourceDriver r) (trace (console Info ''Copying nodes...'' w))")
  case (Inl e)
  then show ?thesis
    using assms count_failed by (auto simp: copyNodes_def sourceRun_def)
next
  case (Inr tot)
  then show ?thesis
    using assms looped [of tot]
    by (auto simp: copyNodes_def sourceRun_def finally_do_def)
qed

lemma copyRelationships_cases:
  assumes "copyRelationships r cb w = Some out"
  obtains (count_failed) e where "countRels (sourceDriver r) (trace (console Info ''Copying relationships...'' w)) = Inl e"
      and "out = (Inl e, closeSource (snd (sourceRun CountRels (countRels (sourceDriver r) (trace (console Info ''Copying relationships...'' w)))
                    (openSource (console Info ''Copying relationships...'' w)))))"
  | (looped) tot y where "countRels (sourceDriver r) (trace (console Info ''Copying relationships...'' w)) = Inr tot"
      and "copyRelationshipsLoop r cb tot 0 (snd (sourceRun CountRels (countRels (sourceDriver r) (trace (console Info ''Copying relationships...'' w)))
              (openSource (console Info ''Copying relationships...'' w)))) = Some y"
      and "out = (fst y, closeSource (snd y))"
proof (cases "countRels (sourceDriver r) (trace (console Info ''Copying relationships...'' w))")
  case (Inl e)
  then show ?thesis
    using assms count_failed by (auto simp: copyRelationships_def sourceRun_def)
next
  case (Inr tot)
  then show ?thesis
    using assms looped [of tot]
    by (auto simp: copyRelationships_def sourceRun_def finally_do_def)
qed

lemma steps_copyNodes:
  assumes "copyNodes r (Some (nodesCallback cb)) w = Some out"
    and "stage (progress w) = Nodes"
  shows "steps (in_stage Nodes) w (snd out)"
  using assms(1)
proof (cases rule: copyNodes_cases)
  case (count_failed e)
  then show ?thesis
    by (simp add: steps_def sourceRun_def openSource_def closeSource_def console_def)
next
  case (looped tot y)
  let ?w1 = "snd (sourceRun CountNodes (countNodes (sourceDriver r) (trace (console Info ''Copying nodes...'' w)))
                (openSource (console Info ''Copying nodes...'' w)))"
  have "stage (progress ?w1) = Nodes"
    using assms(2) by (simp add: sourceRun_def openSource_def console_def)
  from steps_copyNodesLoop [OF looped(2) this]
  show ?thesis
    using looped(3)
    by (auto simp: steps_def sourceRun_def openSource_def closeSource_def console_def)
qed

lemma steps_copyRelationships:
  assumes "copyRelationships r (Some (relsCallback cb)) w = Some out"
    and "stage (progress w) = Relationships"
  shows "steps (in_stage Relationships) w (snd out)"
  using assms(1)
proof (cases rule: copyRelationships_cases)
  case (count_failed e)
  then show ?thesis
    by (simp add: steps_def sourceRun_def openSource_def closeSource_def console_def)
next
  case (looped tot y)
  let ?w1 = "snd (sourceRun CountRels (countRels (sourceDriver r) (trace (console Info ''Copying relationships...'' w)))
                (openSource (console Info ''Copying relationships...'' w)))"
  have "stage (progress ?w1) = Relationships"
    using assms(2) by (simp add: sourceRun_def openSource_def console_def)
  from steps_copyRelationshipsLoop [OF looped(2) this]
  show ?thesis
    using looped(3)
    by (auto simp: steps_def sourceRun_def openSource_def closeSource_def console_def)
qed

lemma stage_after_notify:
  "notify cb w0 = (res, w1) \<Longrightarrow> stage (progress w1) = stage (progress w0)"
  by (auto simp: notify_def split: option.splits)

lemma stage_setStage [simp]: "stage (progress (setStage s w)) = s"
  by (simp add: setStage_def)


subsection \<open>The protocol along a run\<close>

lemma monitor_run_append:
  "monitor_run m (xs @ ys) = (case monitor_run m xs of None \<Rightarrow> None | Some m' \<Rightarrow> monitor_run m' ys)"
  by (induction xs arbitrary: m) (simp_all split: option.split)

lemma protocol_run_append:
  "protocol_run m (xs @ ys)
     = (case protocol_run m xs of None \<Rightarrow> None | Some m' \<Rightarrow> protocol_run m' ys)"
  by (induction xs arbitrary: m) (simp_all split: option.split)

lemma protocol_run_silent: "list_all (silent m) evs \<Longrightarrow> protocol_run m evs = Some m"
  by (induction evs) (simp_all add: silent_def)

lemma silent_console [simp]: "silent m (Console lvl msg)" "silent m (ConsoleObj lvl msg e)"
  by (cases m; simp add: silent_def)+

lemma accepts_refl [simp]: "accepts a a w w"
  by (simp add: accepts_def)

lemma accepts_trans: "accepts a b w w1 \<Longrightarrow> accepts b c w1 w2 \<Longrightarrow> accepts a c w w2"
  unfolding accepts_def by (elim exE conjE) (simp add: protocol_run_append)

lemma accepts_silent: "steps (silent m) w w' \<Longrightarrow> accepts m m w w'"
  unfolding steps_def accepts_def by (auto simp: protocol_run_silent)

lemma accepts_event:
  "protocol a e = Some b \<Longrightarrow> trace w' = trace w @ [e] \<Longrightarrow> accepts a b w w'"
  by (simp add: accepts_def)

lemma accepts_from: "trace w0 = trace w \<Longrightarrow> accepts a b w0 w' \<Longrightarrow> accepts a b w w'"
  by (simp add: accepts_def)

lemma accepts_to: "trace w' = trace w0 \<Longrightarrow> accepts a b w w0 \<Longrightarrow> accepts a b w w'"
  by (simp add: accepts_def)

lemma conforms_Inr [simp]: "conforms a b w (Inr x, w') \<longleftrightarrow> accepts a b w w'"
  unfolding conforms_def by (simp del: split_paired_Ex)

lemma conforms_Inl [simp]: "conforms a b w (Inl e, w') \<longleftrightarrow> (\<exists>m. accepts a m w w')"
  unfolding conforms_def by (simp del: split_paired_Ex)

lemma conforms_InlI: "accepts a m w w' \<Longrightarrow> conforms a b w (Inl e, w')"
  unfolding conforms_Inl by (rule exI)

lemma conforms_cases:
  obtains (normal) x w' where "out = (Inr x, w')" | (thrown) e w' where "out = (Inl e, w')"
  by (cases out; cases "fst out") auto

lemma conforms_silent:
  assumes "steps (silent m) w (snd out)"
  shows "conforms m m w out"
proof -
  have a: "accepts m m w (snd out)" using assms by (rule accepts_silent)
  show ?thesis
  proof (cases out rule: conforms_cases)
    case (normal x w')
    then show ?thesis using a by simp
  next
    case (thrown e w')
    then show ?thesis using a by (auto simp del: split_paired_Ex)
  qed
qed

lemma conforms_after:
  assumes "accepts a b w w1" and "conforms b c w1 out"
  shows "conforms a c w out"
proof (cases out rule: conforms_cases)
  case (normal x w')
  then have "accepts b c w1 w'" using assms(2) by simp
  with assms(1) have "accepts a c w w'" by (rule accepts_trans)
  then show ?thesis using normal by simp
next
  case (thrown e w')
  then obtain m where "accepts b m w1 w'" using assms(2) by (auto simp del: split_paired_Ex)
  with assms(1) have "accepts a m w w'" by (rule accepts_trans)
  then show ?thesis unfolding thrown by (rule conforms_InlI)
qed

lemma conforms_from: "trace w0 = trace w \<Longrightarrow> conforms a b w0 out \<Longrightarrow> conforms a b w out"
  by (simp add: conforms_def accepts_def)

lemma conforms_then:
  assumes "conforms a b w m"
    and "\<And>x w1. m = (Inr x, w1) \<Longrightarrow> conforms b c w1 (k x w1)"
  shows "conforms a c w (and_then m k)"
proof (cases m rule: conforms_cases)
  case (normal x w1)
  have 1: "accepts a b w w1" using assms(1) normal by simp
  have "conforms b c w1 (k x w1)" using assms(2) normal by simp
  with 1 have "conforms a c w (k x w1)" by (rule conforms_after)
  then show ?thesis using normal by simp
next
  case (thrown e w1)
  then show ?thesis using assms(1) by (simp del: split_paired_Ex)
qed

lemma conforms_finally:
  assumes "conforms a b w m" and "\<And>w1. trace (f w1) = trace w1"
  shows "conforms a b w (finally_do m f)"
  using assms by (cases m rule: conforms_cases) (simp_all add: finally_do_def accepts_def)

lemma conforms_sourceRun:
  "protocol a (SourceRun q) = Some b \<Longrightarrow> conforms a b w (sourceRun q ans w)"
  by (cases ans) (auto simp: sourceRun_def accepts_def simp del: split_paired_Ex)

lemma conforms_targetRun:
  "protocol a (TargetRun s) = Some b \<Longrightarrow> conforms a b w (targetRun r s w)"
  by (cases "targetFault r (trace w) s") (auto simp: targetRun_def accepts_def simp del: split_paired_Ex)

lemma conforms_console: "conforms a a w (Inr x, console lvl msg w)"
  by (cases a) (simp add: accepts_def console_def)

lemma conforms_within_simps [simp]:
  "conforms_within a b w (Returned out) \<longleftrightarrow> conforms a b w out"
  "conforms_within a b w (Running w') \<longleftrightarrow> (\<exists>c. accepts a c w w')"
  by (simp_all add: conforms_within_def del: split_paired_Ex)

lemma conforms_reached:
  assumes "conforms a b w out"
  shows "\<exists>c. accepts a c w (snd out)"
  using assms by (cases out rule: conforms_cases) (auto simp del: split_paired_Ex)

lemma conforms_within_after:
  assumes "accepts a b w w1" and "conforms_within b c w1 m"
  shows "conforms_within a c w m"
proof (cases m)
  case (Returned out)
  then show ?thesis using assms conforms_after by simp
next
  case (Running w')
  then obtain d where "accepts b d w1 w'" using assms(2) by (auto simp del: split_paired_Ex)
  with assms(1) have "accepts a d w w'" by (rule accepts_trans)
  then show ?thesis unfolding Running conforms_within_simps by (rule exI)
qed

lemma conforms_seq_within:
  assumes "conforms_within a b w m"
    and "\<And>x w1. m = Returned (Inr x, w1) \<Longrightarrow> conforms_within b c w1 (k x w1)"
  shows "conforms_within a c w (seq_within m k)"
proof (cases m)
  case (Running w')
  then show ?thesis using assms(1) by (simp del: split_paired_Ex)
next
  case (Returned out)
  show ?thesis
  proof (cases out rule: conforms_cases)
    case (normal x w1)
    have 1: "accepts a b w w1" using assms(1) Returned normal by simp
    have "conforms_within b c w1 (k x w1)" using assms(2) Returned normal by simp
    with 1 have "conforms_within a c w (k x w1)" by (rule conforms_within_after)
    then show ?thesis using Returned normal by simp
  next
    case (thrown e w1)
    then show ?thesis using assms(1) Returned by (simp del: split_paired_Ex)
  qed
qed

lemma conforms_after_return:
  assumes "conforms_within a b w m" and "\<And>out. conforms a b w out \<Longrightarrow> conforms a b w (f out)"
  shows "conforms_within a b w (after_return f m)"
  using assms by (cases m) (simp_all del: split_paired_Ex)

subsection \<open>The operations follow the protocol\<close>

lemma accepts_console: "trace w' = trace w @ [Console lvl msg] \<Longrightarrow> accepts a a w w'"
  by (cases a) (simp add: accepts_def)

lemma conforms_skip_console: "conforms a b (console lvl msg w) out \<Longrightarrow> conforms a b w out"
  by (rule conforms_after [of a a w "console lvl msg w"])
     (rule accepts_console, simp add: console_def)

lemma conforms_getTotalCounts:
  "conforms (None, 0, False) (None, 2, False) w (getTotalCounts r w)"
  unfolding getTotalCounts_def
  apply (rule conforms_finally)
   apply (rule conforms_from [of "openSource w"], simp add: openSource_def)
   apply (rule conforms_then [where b = "(None, 1, False)"])
    apply (rule conforms_sourceRun, simp add: source_step_def)
   apply (rule conforms_then [where b = "(None, 2, False)"])
    apply (rule conforms_sourceRun, simp add: source_step_def)
   apply simp
  apply (simp add: closeSource_def)
  done

lemma conforms_clearTargetDatabase:
  "conforms (Some Clearing, 0, False) (Some Clearing, 3, False) w (clearTargetDatabase r w)"
  unfolding clearTargetDatabase_def
  apply (rule conforms_finally)
   apply (rule conforms_skip_console [where lvl = Info and msg = "''Clearing target database...''"])
   apply (rule conforms_from [of "openTarget (console Info ''Clearing target database...'' w)"],
          simp add: openTarget_def)
   apply (rule conforms_then [where b = "(Some Clearing, 1, False)"])
    apply (rule conforms_targetRun, simp add: target_step_def)
   apply (rule conforms_skip_console [where lvl = Info
            and msg = "''All nodes and relationships deleted''"])
   apply (rule conforms_then [where b = "(Some Clearing, 2, False)"])
    apply (rule conforms_targetRun, simp add: target_step_def)
   apply (rule conforms_then [where b = "(Some Clearing, 2, False)"])
    apply (rule conforms_silent, rule steps_dropConstraints_gen;
           simp add: silent_def target_step_def)
   apply (rule conforms_then [where b = "(Some Clearing, 3, False)"])
    apply (rule conforms_targetRun, simp add: target_step_def)
   apply (rule conforms_silent, rule steps_dropIndexes_gen;
          simp add: silent_def target_step_def)
  apply (simp add: closeTarget_def)
  done

lemma conforms_copySchema:
  "conforms (Some Schema, 0, False) (Some Schema, 2, False) w (copySchema r w)"
  unfolding copySchema_def
  apply (rule conforms_finally)
   apply (rule conforms_skip_console [where lvl = Info and msg = "''Copying database schema...''"])
   apply (rule conforms_from
            [of "openTarget (openSource (console Info ''Copying database schema...'' w))"],
          simp add: openTarget_def openSource_def)
   apply (rule conforms_then [where b = "(Some Schema, 1, False)"])
    apply (rule conforms_sourceRun, simp add: source_step_def)
   apply (rule conforms_then [where b = "(Some Schema, 1, False)"])
    apply (rule conforms_silent, rule steps_copyConstraints_gen;
           simp add: silent_def target_step_def)
   apply (rule conforms_then [where b = "(Some Schema, 2, False)"])
    apply (rule conforms_sourceRun, simp add: source_step_def)
   apply (rule conforms_silent, rule steps_copyIndexes_gen;
          simp add: silent_def target_step_def)
  apply (simp add: closeTarget_def closeSource_def)
  done

lemma conforms_cleanup:
  "conforms (Some Cleanup, 0, False) (Some Cleanup, 1, False) w (cleanup r w)"
  unfolding cleanup_def
  apply (rule conforms_finally)
   apply (rule conforms_skip_console
            [where lvl = Info and msg = "''Cleaning up temporary properties...''"])
   apply (rule conforms_from
            [of "openTarget (console Info ''Cleaning up temporary properties...'' w)"],
          simp add: openTarget_def)
   apply (rule conforms_then [where b = "(Some Cleanup, 1, False)"])
    apply (rule conforms_targetRun, simp add: target_step_def)
   apply (simp add: accepts_console console_def)
  apply (simp add: closeTarget_def)
  done

lemma conforms_notify:
  assumes "follows s (stage (progress w))" and "stage_done s k"
  shows "conforms (s, k, False) (Some (stage (progress w)), 0, False) w (notify (Some f) w)"
  using assms
  by (cases "f (progress w)") (auto simp: notify_def accepts_def simp del: split_paired_Ex)

lemma conforms_transition:
  assumes "follows s s'" and "stage_done s k"
  shows "conforms (s, k, False) (Some s', 0, False) w (notify (Some f) (setStage s' w))"
proof -
  have "conforms (s, k, False) (Some (stage (progress (setStage s' w))), 0, False) (setStage s' w)
          (notify (Some f) (setStage s' w))"
    by (rule conforms_notify) (simp_all add: assms)
  then have "conforms (s, k, False) (Some (stage (progress (setStage s' w))), 0, False) w
          (notify (Some f) (setStage s' w))"
    by (rule conforms_from [rotated]) (simp add: setStage_def)
  then show ?thesis by simp
qed

lemma conforms_first_call:
  assumes "stage p = Clearing"
  shows "conforms (None, 2, False) (Some Clearing, 0, False) w (notify (Some f) (w\<lparr>progress := p\<rparr>))"
proof -
  have "conforms (None, 2, False) (Some (stage (progress (w\<lparr>progress := p\<rparr>))), 0, False)
          (w\<lparr>progress := p\<rparr>) (notify (Some f) (w\<lparr>progress := p\<rparr>))"
    by (rule conforms_notify) (simp_all add: assms)
  then have "conforms (None, 2, False) (Some (stage (progress (w\<lparr>progress := p\<rparr>))), 0, False) w
          (notify (Some f) (w\<lparr>progress := p\<rparr>))"
    by (rule conforms_from [rotated]) simp
  then show ?thesis by (simp add: assms)
qed

lemma conforms_totals:
  "conforms (None, 0, False) (None, 2, False) w
     (getTotalCounts r (console Info ''Starting database replication...'' w))"
  by (rule conforms_after [OF accepts_console conforms_getTotalCounts]) (simp add: console_def)

lemma conforms_nodesCallback:
  assumes "stage (progress w) = s"
  shows "conforms (Some s, k, True) (Some s, k, False) w (nodesCallback (Some f) n w)"
  using assms
  by (cases "f ((progress w)\<lparr>processedNodes := n\<rparr>)")
     (auto simp: nodesCallback_def notify_def accepts_def simp del: split_paired_Ex)

lemma conforms_relsCallback:
  assumes "stage (progress w) = s"
  shows "conforms (Some s, k, True) (Some s, k, False) w (relsCallback (Some f) n w)"
  using assms
  by (cases "f ((progress w)\<lparr>processedRelationships := n\<rparr>)")
     (auto simp: relsCallback_def notify_def accepts_def simp del: split_paired_Ex)

lemma silent_write_nodes:
  "steps (silent (Some Nodes, 1, True)) w
     (snd (if 0 < length ns then createNodesInTarget r ns w else (Inr (), w)))"
  by (simp add: steps_createNodesInTarget silent_def target_step_def)

lemma silent_write_rels:
  "steps (silent (Some Relationships, 1, True)) w
     (snd (if 0 < length rs then createRelationshipsInTarget r rs w else (Inr (), w)))"
  by (simp add: steps_createRelationshipsInTarget silent_def target_step_def)

lemma stage_after_sourceRun:
  "sourceRun q ans w = (res, w1) \<Longrightarrow> stage (progress w1) = stage (progress w)"
  by (auto simp: sourceRun_def)

lemma stage_after_write_nodes:
  "(if 0 < length ns then createNodesInTarget r ns w1 else (Inr (), w1)) = (res, w2)
   \<Longrightarrow> stage (progress w2) = stage (progress w1)"
  using silent_write_nodes [of w1 ns r] by (simp add: steps_def)

lemma stage_after_write_rels:
  "(if 0 < length rs then createRelationshipsInTarget r rs w1 else (Inr (), w1)) = (res, w2)
   \<Longrightarrow> stage (progress w2) = stage (progress w1)"
  using silent_write_rels [of w1 rs r] by (simp add: steps_def)

lemma conforms_copyNodesPage:
  assumes "stage (progress w) = Nodes"
  shows "conforms (Some Nodes, 1, False) (Some Nodes, 1, False) w
           (copyNodesPage r (Some (nodesCallback (Some f))) tot p w)"
  unfolding copyNodesPage_def
  apply (rule conforms_then [where b = "(Some Nodes, 1, True)"])
   apply (rule conforms_sourceRun, simp add: source_step_def)
  apply (rule conforms_then [where b = "(Some Nodes, 1, True)"])
   apply (rule conforms_silent, rule silent_write_nodes)
  apply (rule conforms_then [where b = "(Some Nodes, 1, False)"])
  subgoal for ns w1 u w2
    using assms stage_after_sourceRun [of _ _ w "Inr ns" w1]
      stage_after_write_nodes [of ns r w1 "Inr u" w2]
    by (simp add: conforms_nodesCallback)
  apply (simp add: accepts_console console_def)
  done

lemma conforms_copyRelationshipsPage:
  assumes "stage (progress w) = Relationships"
  shows "conforms (Some Relationships, 1, False) (Some Relationships, 1, False) w
           (copyRelationshipsPage r (Some (relsCallback (Some f))) tot p w)"
  unfolding copyRelationshipsPage_def
  apply (rule conforms_then [where b = "(Some Relationships, 1, True)"])
   apply (rule conforms_sourceRun, simp add: source_step_def)
  apply (rule conforms_then [where b = "(Some Relationships, 1, True)"])
   apply (rule conforms_silent, rule silent_write_rels)
  apply (rule conforms_then [where b = "(Some Relationships, 1, False)"])
  subgoal for rs w1 u w2
    using assms stage_after_sourceRun [of _ _ w "Inr rs" w1]
      stage_after_write_rels [of rs r w1 "Inr u" w2]
    by (simp add: conforms_relsCallback)
  apply (simp add: accepts_console console_def)
  done

lemma conforms_copyNodesLoop_within:
  assumes "stage (progress w) = Nodes"
  shows "conforms_within (Some Nodes, 1, False) (Some Nodes, 1, False) w
           (copyNodesLoop_within n r (Some (nodesCallback (Some f))) tot p w)"
  using assms
proof (induction n arbitrary: p w)
  case 0
  have "\<exists>c. accepts a c w w" for a by (rule exI, rule accepts_refl)
  then show ?case by (simp del: split_paired_Ex)
next
  case (Suc n)
  let ?cb = "Some (nodesCallback (Some f))"
  show ?case
  proof (cases "p < tot")
    case False
    then show ?thesis by simp
  next
    case True
    have pg: "conforms (Some Nodes, 1, False) (Some Nodes, 1, False) w (copyNodesPage r ?cb tot p w)"
      using Suc.prems by (rule conforms_copyNodesPage)
    show ?thesis
    proof (cases "copyNodesPage r ?cb tot p w" rule: conforms_cases)
      case (thrown e w')
      then show ?thesis using True pg by (simp del: split_paired_Ex)
    next
      case (normal p' w')
      have a: "accepts (Some Nodes, 1, False) (Some Nodes, 1, False) w w'"
        using pg normal by simp
      have "stage (progress w') = Nodes"
        using steps_copyNodesPage [OF Suc.prems, of r "Some f" tot p] normal Suc.prems
        by (simp add: steps_def)
      from Suc.IH [OF this]
      have "conforms_within (Some Nodes, 1, False) (Some Nodes, 1, False) w'
              (copyNodesLoop_within n r ?cb tot p' w')" .
      with a have "conforms_within (Some Nodes, 1, False) (Some Nodes, 1, False) w
              (copyNodesLoop_within n r ?cb tot p' w')"
        by (rule conforms_within_after)
      then show ?thesis using True normal by simp
    qed
  qed
qed

lemma conforms_copyRelationshipsLoop_within:
  assumes "stage (progress w) = Relationships"
  shows "conforms_within (Some Relationships, 1, False) (Some Relationships, 1, False) w
           (copyRelationshipsLoop_within n r (Some (relsCallback (Some f))) tot p w)"
  using assms
proof (induction n arbitrary: p w)
  case 0
  have "\<exists>c. accepts a c w w" for a by (rule exI, rule accepts_refl)
  then show ?case by (simp del: split_paired_Ex)
next
  case (Suc n)
  let ?cb = "Some (relsCallback (Some f))"
  show ?case
  proof (cases "p < tot")
    case False
    then show ?thesis by simp
  next
    case True
    have pg: "conforms (Some Relationships, 1, False) (Some Relationships, 1, False) w
                (copyRelationshipsPage r ?cb tot p w)"
      using Suc.prems by (rule conforms_copyRelationshipsPage)
    show ?thesis
    proof (cases "copyRelationshipsPage r ?cb tot p w" rule: conforms_cases)
      case (thrown e w')
      then show ?thesis using True pg by (simp del: split_paired_Ex)
    next
      case (normal p' w')
      have a: "accepts (Some Relationships, 1, False) (Some Relationships, 1, False) w w'"
        using pg normal by simp
      have "stage (progress w') = Relationships"
        using steps_copyRelationshipsPage [OF Suc.prems, of r "Some f" tot p] normal Suc.prems
        by (simp add: steps_def)
      from Suc.IH [OF this]
      have "conforms_within (Some Relationships, 1, False) (Some Relationships, 1, False) w'
              (copyRelationshipsLoop_within n r ?cb tot p' w')" .
      with a have "conforms_within (Some Relationships, 1, False) (Some Relationships, 1, False) w
              (copyRelationshipsLoop_within n r ?cb tot p' w')"
        by (rule conforms_within_after)
      then show ?thesis using True normal by simp
    qed
  qed
qed

lemma conforms_finally_within:
  assumes "conforms_within a b w m" and "\<And>w1. trace (g w1) = trace w1"
  shows "conforms_within a b w (after_return (\<lambda>res. finally_do res g) m)"
proof (cases m)
  case (Returned out)
  then have "conforms a b w out" using assms(1) by simp
  then have "conforms a b w (finally_do out g)" using assms(2) by (rule conforms_finally)
  then show ?thesis using Returned by simp
next
  case (Running w')
  then show ?thesis using assms(1) by (simp del: split_paired_Ex)
qed

lemma conforms_copyNodes_within:
  assumes "stage (progress w) = Nodes"
  shows "conforms_within (Some Nodes, 0, False) (Some Nodes, 1, False) w
           (copyNodes_within n r (Some (nodesCallback (Some f))) w)"
  unfolding copyNodes_within_def
  apply (rule conforms_finally_within)
   apply (rule conforms_within_after [where b = "(Some Nodes, 0, False)"
            and ?w1.0 = "openSource (console Info ''Copying nodes...'' w)"])
    apply (rule accepts_console, simp add: openSource_def console_def)
   apply (rule conforms_seq_within [where b = "(Some Nodes, 1, False)"])
    apply (simp only: conforms_within_simps, rule conforms_sourceRun, simp add: source_step_def)
   apply (rule conforms_copyNodesLoop_within)
   apply (simp only: outcome.inject, drule stage_after_sourceRun)
   apply (simp add: assms openSource_def console_def)
  apply (simp add: closeSource_def)
  done

lemma conforms_copyRelationships_within:
  assumes "stage (progress w) = Relationships"
  shows "conforms_within (Some Relationships, 0, False) (Some Relationships, 1, False) w
           (copyRelationships_within n r (Some (relsCallback (Some f))) w)"
  unfolding copyRelationships_within_def
  apply (rule conforms_finally_within)
   apply (rule conforms_within_after [where b = "(Some Relationships, 0, False)"
            and ?w1.0 = "openSource (console Info ''Copying relationships...'' w)"])
    apply (rule accepts_console, simp add: openSource_def console_def)
   apply (rule conforms_seq_within [where b = "(Some Relationships, 1, False)"])
    apply (simp only: conforms_within_simps, rule conforms_sourceRun, simp add: source_step_def)
   apply (rule conforms_copyRelationshipsLoop_within)
   apply (simp only: outcome.inject, drule stage_after_sourceRun)
   apply (simp add: assms openSource_def console_def)
  apply (simp add: closeSource_def)
  done

lemma conforms_replicateStages_within:
  "conforms_within (None, 0, False) (Some Complete, 0, False) w
     (replicateStages_within n r (Some f) w)"
  unfolding replicateStages_within_def
  apply (rule conforms_seq_within [where b = "(None, 2, False)"])
   apply (simp only: conforms_within_simps, rule conforms_totals)
  apply (rule conforms_seq_within [where b = "(Some Clearing, 0, False)"])
   apply (simp only: conforms_within_simps, rule conforms_first_call, simp)
  apply (rule conforms_seq_within [where b = "(Some Clearing, 3, False)"])
   apply (simp only: conforms_within_simps, rule conforms_clearTargetDatabase)
  apply (rule conforms_seq_within [where b = "(Some Schema, 0, False)"])
   apply (simp only: conforms_within_simps, rule conforms_transition; simp)
  apply (rule conforms_seq_within [where b = "(Some Schema, 2, False)"])
   apply (simp only: conforms_within_simps, rule conforms_copySchema)
  apply (rule conforms_seq_within [where b = "(Some Nodes, 0, False)"])
   apply (simp only: conforms_within_simps, rule conforms_transition; simp)
  apply (rule conforms_seq_within [where b = "(Some Nodes, 1, False)"])
   apply (rule conforms_copyNodes_within)
   apply (simp only: outcome.inject)
   apply (drule stage_after_notify [of "Some f" "setStage Nodes _"], simp)
  apply (rule conforms_seq_within [where b = "(Some Relationships, 0, False)"])
   apply (simp only: conforms_within_simps, rule conforms_transition; simp)
  apply (rule conforms_seq_within [where b = "(Some Relationships, 1, False)"])
   apply (rule conforms_copyRelationships_within)
   apply (simp only: outcome.inject)
   apply (drule stage_after_notify [of "Some f" "setStage Relationships _"], simp)
  apply (rule conforms_seq_within [where b = "(Some Cleanup, 0, False)"])
   apply (simp only: conforms_within_simps, rule conforms_transition; simp)
  apply (rule conforms_seq_within [where b = "(Some Cleanup, 1, False)"])
   apply (simp only: conforms_within_simps, rule conforms_cleanup)
  apply (rule conforms_seq_within [where b = "(Some Complete, 0, False)"])
   apply (simp only: conforms_within_simps, rule conforms_transition; simp)
  apply (simp add: accepts_console console_def)
  done

lemma conforms_replicateDatabase_within:
  "conforms_within (None, 0, False) (Some Complete, 0, False) w
     (replicateDatabase_within n r (Some f) w)"
proof -
  let ?m = "replicateStages_within n r (Some f) w"
  have c: "conforms_within (None, 0, False) (Some Complete, 0, False) w ?m"
    by (rule conforms_replicateStages_within)
  show ?thesis
  proof (cases ?m)
    case (Running w')
    then show ?thesis using c by (simp add: replicateDatabase_within_def del: split_paired_Ex)
  next
    case (Returned out)
    show ?thesis
    proof (cases out rule: conforms_cases)
      case (normal x w')
      then show ?thesis using c Returned by (simp add: replicateDatabase_within_def)
    next
      case (thrown e w')
      then obtain m where m: "accepts (None, 0, False) m w w'"
        using c Returned by (auto simp del: split_paired_Ex)
      have "accepts m m w' (console_obj Err ''Database replication failed:'' e w')"
        by (cases m) (simp add: accepts_def console_obj_def)
      with m have "accepts (None, 0, False) m w
                     (console_obj Err ''Database replication failed:'' e w')"
        by (rule accepts_trans)
      then have "conforms (None, 0, False) (Some Complete, 0, False) w
                   (Inl e, console_obj Err ''Database replication failed:'' e w')"
        by (rule conforms_InlI)
      then show ?thesis using Returned thrown by (simp add: replicateDatabase_within_def)
    qed
  qed
qed

lemma conforms_withinD:
  assumes "conforms_within a b w m"
  shows "\<exists>evs c. trace (world_of m) = trace w @ evs \<and> protocol_run a evs = Some c \<and>
           (\<forall>x w'. m = Returned (Inr x, w') \<longrightarrow> c = b)"
proof (cases m)
  case (Running w')
  then show ?thesis using assms by (auto simp: accepts_def simp del: split_paired_Ex)
next
  case (Returned out)
  show ?thesis
  proof (cases out rule: conforms_cases)
    case (normal x w')
    then have "accepts a b w w'" using assms Returned by simp
    then show ?thesis using Returned normal by (auto simp: accepts_def simp del: split_paired_Ex)
  next
    case (thrown e w')
    then obtain c where "accepts a c w w'" using assms Returned by (auto simp del: split_paired_Ex)
    then show ?thesis using Returned thrown by (auto simp: accepts_def simp del: split_paired_Ex)
  qed
qed


subsection \<open>A run in which nothing fails: the nodes\<close>

lemma notify_calm:
  assumes "calm cb"
  shows "\<exists>w'. notify cb w = (Inr (), w') \<and> target w' = target w \<and> progress w' = progress w"
  using assms by (auto simp: calm_def notify_def split: option.splits)

lemma nodesCallback_calm:
  assumes "calm cb"
  shows "\<exists>w'. nodesCallback cb n w = (Inr (), w') \<and> target w' = target w"
  using notify_calm [OF assms, of "w\<lparr>progress := (progress w)\<lparr>processedNodes := n\<rparr>\<rparr>"]
  by (auto simp: nodesCallback_def)

lemma relsCallback_calm:
  assumes "calm cb"
  shows "\<exists>w'. relsCallback cb n w = (Inr (), w') \<and> target w' = target w"
  using notify_calm [OF assms, of "w\<lparr>progress := (progress w)\<lparr>processedRelationships := n\<rparr>\<rparr>"]
  by (auto simp: relsCallback_def)

lemma static_source_simps [simp]:
  "countNodes (static_source g) h = Inr (length (g_nodes g))"
  "countRels (static_source g) h = Inr (length (g_rels g))"
  "showConstraints (static_source g) = Inr (g_constraints g)"
  "showIndexes (static_source g) = Inr (g_indexes g)"
  "pageNodes (static_source g) h s l = Inr (take l (drop s (g_nodes g)))"
  "pageRels (static_source g) h s l = Inr (take l (drop s (g_rels g)))"
  by (simp_all add: static_source_def)

lemma mset_group_push:
  "mset (concat (map snd (group_push k v m))) = mset (concat (map snd m)) + {#v#}"
  by (induction k v m rule: group_push.induct) simp_all

lemma mset_nodesByLabels:
  "mset (concat (map snd (nodesByLabels m ns)))
     = mset (concat (map snd m)) + mset (map sorted_in_place ns)"
  by (induction ns arbitrary: m) (simp_all add: mset_group_push)

lemma mset_relsByType:
  "mset (concat (map snd (relsByType m rs))) = mset (concat (map snd m)) + mset rs"
  by (induction rs arbitrary: m) (simp_all add: mset_group_push)

lemma node_props_sorted [simp]: "node_props (sorted_in_place n) = node_props n"
  by (simp add: node_props_def sorted_in_place_def)

lemma props_of_groups:
  "map snd (concat (map (\<lambda>(k, ns). map (\<lambda>n. (clause_labels (labelClause k), node_props n)) ns) gs))
     = map node_props (concat (map snd gs))"
  by (induction gs) (auto simp: comp_def)

lemma props_create_groups:
  "mset (map snd (content (create_groups (nodesByLabels [] ns) db)))
     = mset (map snd (content db)) + mset (map node_props ns)"
proof -
  have "mset (map node_props (concat (map snd (nodesByLabels [] ns))))
          = image_mset node_props (mset (concat (map snd (nodesByLabels [] ns))))"
    by simp
  also have "\<dots> = image_mset node_props (mset (map sorted_in_place ns))"
    by (simp only: mset_nodesByLabels) simp
  also have "\<dots> = mset (map node_props ns)"
    by (simp add: image_mset.compositionality comp_def)
  finally show ?thesis
    by (simp add: content_create_groups props_of_groups)
qed

lemma take_drop_length: "take b ys @ drop (length (take b ys)) ys = ys"
  by (cases "b \<le> length ys") (simp_all add: min_def)

lemma page_split: "drop p xs = take b (drop p xs) @ drop (p + length (take b (drop p xs))) xs"
proof -
  have "drop (p + length (take b (drop p xs))) xs
          = drop (length (take b (drop p xs))) (drop p xs)"
    by (simp only: drop_drop add.commute)
  then show ?thesis by (simp only: take_drop_length)
qed

lemma copyNodesPage_ok:
  assumes "sourceDriver r = static_source g" and "never_rejects r" and "calm cb"
  shows "\<exists>w'. copyNodesPage r (Some (nodesCallback cb)) tot p w
                 = (Inr (p + length (take (batchSize r) (drop p (g_nodes g)))), w') \<and>
              t_rels (target w') = t_rels (target w) \<and>
              mset (map snd (content (target w')))
                = mset (map snd (content (target w)))
                  + mset (map node_props (take (batchSize r) (drop p (g_nodes g))))"
proof -
  let ?page = "take (batchSize r) (drop p (g_nodes g))"
  let ?w1 = "w\<lparr>trace := trace w @ [SourceRun (PageNodes p (batchSize r))]\<rparr>"
  let ?w2 = "if 0 < length ?page
             then ?w1\<lparr>trace := trace ?w1 @ node_group_events (nodesByLabels [] ?page),
                       target := create_groups (nodesByLabels [] ?page) (target ?w1)\<rparr>
             else ?w1"
  have wr: "(if 0 < length ?page then createNodesInTarget r ?page ?w1 else (Inr (), ?w1))
              = (Inr (), ?w2)"
    by (simp add: createNodesInTarget_ok [OF assms(2)])
  obtain w3 where w3: "nodesCallback cb (p + length ?page) ?w2 = (Inr (), w3)"
      "target w3 = target ?w2"
    using nodesCallback_calm [OF assms(3)] by blast
  have t1: "t_rels (target ?w2) = t_rels (target w)" by simp
  have t2: "mset (map snd (content (target ?w2)))
       = mset (map snd (content (target w))) + mset (map node_props ?page)"
  proof (cases "0 < length ?page")
    case True
    then have "target ?w2 = create_groups (nodesByLabels [] ?page) (target w)"
      by (simp del: length_take length_drop length_greater_0_conv)
    then show ?thesis by (simp only: props_create_groups)
  next
    case False
    then have e: "?page = []" by blast
    have "target ?w2 = target w" using False by (simp del: length_take length_drop)
    then show ?thesis by (simp only: e) simp
  qed
  note t = t1 t2
  have "copyNodesPage r (Some (nodesCallback cb)) tot p w
          = (Inr (p + length ?page),
             console Info (''Processed '' @ show_nat (p + length ?page) @ ''/'' @ show_nat tot
                           @ '' nodes'') w3)"
    unfolding copyNodesPage_def using wr w3(1)
    by (simp add: assms(1) sourceRun_def del: length_take length_drop length_greater_0_conv)
  moreover have "target (console Info msg w3) = target w3" for msg
    by (simp add: console_def)
  ultimately show ?thesis using t w3(2) by (intro exI [of _ "console Info _ w3"]) simp
qed

lemma copyNodesLoop_ok:
  assumes "sourceDriver r = static_source g" and "never_rejects r" and "calm cb"
    and "1 \<le> batchSize r"
  shows "\<exists>w'. copyNodesLoop r (Some (nodesCallback cb)) (length (g_nodes g)) p w = Some (Inr (), w') \<and>
              t_rels (target w') = t_rels (target w) \<and>
              mset (map snd (content (target w')))
                = mset (map snd (content (target w))) + mset (map node_props (drop p (g_nodes g)))"
proof (induction "length (g_nodes g) - p" arbitrary: p w rule: less_induct)
  case less
  let ?N = "length (g_nodes g)"
  show ?case
  proof (cases "p < ?N")
    case False
    then show ?thesis by (subst copyNodesLoop.simps) simp
  next
    case True
    let ?page = "take (batchSize r) (drop p (g_nodes g))"
    have pos: "0 < length ?page" using True assms(4) by simp
    obtain w1 where w1: "copyNodesPage r (Some (nodesCallback cb)) ?N p w
                           = (Inr (p + length ?page), w1)"
        "t_rels (target w1) = t_rels (target w)"
        "mset (map snd (content (target w1)))
           = mset (map snd (content (target w))) + mset (map node_props ?page)"
      using copyNodesPage_ok [OF assms(1-3), of ?N p w] by blast
    have "?N - (p + length ?page) < ?N - p" using True pos by linarith
    from less [OF this, of w1]
    obtain w' where w': "copyNodesLoop r (Some (nodesCallback cb)) ?N (p + length ?page) w1
                           = Some (Inr (), w')"
        "t_rels (target w') = t_rels (target w1)"
        "mset (map snd (content (target w')))
           = mset (map snd (content (target w1)))
             + mset (map node_props (drop (p + length ?page) (g_nodes g)))"
      by blast
    have d: "drop p (g_nodes g) = ?page @ drop (p + length ?page) (g_nodes g)"
      by (rule page_split)
    have "copyNodesLoop r (Some (nodesCallback cb)) ?N p w = Some (Inr (), w')"
      by (subst copyNodesLoop.simps) (simp only: True w1(1) w'(1) if_True prod.case sum.case)
    moreover have "mset (map snd (content (target w')))
        = mset (map snd (content (target w))) + mset (map node_props (drop p (g_nodes g)))"
      by (subst d) (simp only: w'(3) w1(3) map_append mset_append add.assoc)
    ultimately show ?thesis using w'(2) w1(2) by simp
  qed
qed

lemma copyNodes_ok:
  assumes "sourceDriver r = static_source g" and "never_rejects r" and "calm cb"
    and "1 \<le> batchSize r"
  shows "\<exists>w'. copyNodes r (Some (nodesCallback cb)) w = Some (Inr (), w') \<and>
              t_rels (target w') = t_rels (target w) \<and>
              mset (map snd (content (target w')))
                = mset (map snd (content (target w))) + mset (map node_props (g_nodes g))"
proof -
  let ?w1 = "(openSource (console Info ''Copying nodes...'' w))
               \<lparr>trace := trace (openSource (console Info ''Copying nodes...'' w))
                           @ [SourceRun CountNodes]\<rparr>"
  obtain w' where w': "copyNodesLoop r (Some (nodesCallback cb)) (length (g_nodes g)) 0 ?w1
                         = Some (Inr (), w')"
      "t_rels (target w') = t_rels (target ?w1)"
      "mset (map snd (content (target w')))
         = mset (map snd (content (target ?w1))) + mset (map node_props (drop 0 (g_nodes g)))"
    using copyNodesLoop_ok [OF assms, of 0 ?w1] by blast
  have "copyNodes r (Some (nodesCallback cb)) w = Some (Inr (), closeSource w')"
    by (simp add: copyNodes_def assms(1) sourceRun_def w'(1))
  moreover have "target ?w1 = target w" by (simp add: openSource_def console_def)
  ultimately show ?thesis
    using w'(2,3) by (intro exI [of _ "closeSource w'"]) (simp add: closeSource_def)
qed



subsection \<open>A run in which nothing fails: relationships, clearing, schema, cleanup\<close>

lemma nodes_create_rels [simp]: "t_nodes (create_rels t rs db) = t_nodes db"
  by (induction rs arbitrary: db) simp_all

lemma matches_nodes: "t_nodes db' = t_nodes db \<Longrightarrow> matches x db' = matches x db"
  by (simp add: matches_def match_source_id_def)

lemma length_new_rels:
  "length (new_rels t rel db) = matches (startId rel) db * matches (endId rel) db"
  by (simp add: new_rels_def matches_def length_concat comp_def sum_list_triv)

lemma length_create_rels:
  assumes "\<And>rel. rel \<in> set rs \<Longrightarrow> matches (startId rel) db = 1 \<and> matches (endId rel) db = 1"
  shows "length (t_rels (create_rels t rs db)) = length (t_rels db) + length rs"
  using assms
proof (induction rs arbitrary: db)
  case Nil
  show ?case by simp
next
  case (Cons rel rs)
  let ?db = "db\<lparr>t_rels := t_rels db @ new_rels t rel db\<rparr>"
  have m: "matches x ?db = matches x db" for x by (rule matches_nodes) simp
  have "length (t_rels (create_rels t rs ?db)) = length (t_rels ?db) + length rs"
    by (rule Cons.IH) (simp add: m Cons.prems)
  moreover have "length (new_rels t rel db) = 1"
    using Cons.prems [of rel] by (simp add: length_new_rels)
  ultimately show ?case by simp
qed

lemma nodes_create_rel_groups [simp]: "t_nodes (create_rel_groups gs db) = t_nodes db"
proof (induction gs arbitrary: db)
  case Nil
  show ?case by simp
next
  case (Cons g gs)
  obtain t rs where g: "g = (t, rs)" by (cases g)
  show ?case unfolding g by (simp add: Cons.IH)
qed

lemma length_create_rel_groups:
  assumes "\<And>rel. rel \<in> set (concat (map snd gs))
             \<Longrightarrow> matches (startId rel) db = 1 \<and> matches (endId rel) db = 1"
  shows "length (t_rels (create_rel_groups gs db)) = length (t_rels db) + length (concat (map snd gs))"
  using assms
proof (induction gs arbitrary: db)
  case Nil
  show ?case by simp
next
  case (Cons g gs)
  obtain t rs where g: "g = (t, rs)" by (cases g)
  have m: "matches x (create_rels t rs db) = matches x db" for x by (rule matches_nodes) simp
  have 1: "length (t_rels (create_rels t rs db)) = length (t_rels db) + length rs"
    by (rule length_create_rels) (simp add: Cons.prems g)
  have "length (t_rels (create_rel_groups gs (create_rels t rs db)))
          = length (t_rels (create_rels t rs db)) + length (concat (map snd gs))"
    by (rule Cons.IH) (simp add: m Cons.prems)
  then show ?case unfolding g using 1 by simp
qed

lemma length_relsByType:
  "length (concat (map snd (relsByType [] rs))) = length rs"
  "set (concat (map snd (relsByType [] rs))) = set rs"
proof -
  have m: "mset (concat (map snd (relsByType [] rs))) = mset rs"
    by (simp add: mset_relsByType)
  show "length (concat (map snd (relsByType [] rs))) = length rs"
    using m by (rule mset_eq_length)
  show "set (concat (map snd (relsByType [] rs))) = set rs"
    using m by (rule mset_eq_setD)
qed

lemma copyRelationshipsPage_ok:
  assumes "sourceDriver r = static_source g" and "never_rejects r" and "calm cb"
    and "\<And>rel. rel \<in> set (g_rels g)
           \<Longrightarrow> matches (startId rel) (target w) = 1 \<and> matches (endId rel) (target w) = 1"
  shows "\<exists>w'. copyRelationshipsPage r (Some (relsCallback cb)) tot p w
                 = (Inr (p + length (take (batchSize r div 2) (drop p (g_rels g)))), w') \<and>
              t_nodes (target w') = t_nodes (target w) \<and>
              length (t_rels (target w'))
                = length (t_rels (target w)) + length (take (batchSize r div 2) (drop p (g_rels g)))"
proof -
  let ?page = "take (batchSize r div 2) (drop p (g_rels g))"
  let ?w1 = "w\<lparr>trace := trace w @ [SourceRun (PageRels p (batchSize r div 2))]\<rparr>"
  let ?w2 = "if 0 < length ?page
             then ?w1\<lparr>trace := trace ?w1 @ rel_group_events (relsByType [] ?page),
                       target := create_rel_groups (relsByType [] ?page) (target ?w1)\<rparr>
             else ?w1"
  have wr: "(if 0 < length ?page then createRelationshipsInTarget r ?page ?w1 else (Inr (), ?w1))
              = (Inr (), ?w2)"
    by (simp add: createRelationshipsInTarget_ok [OF assms(2)])
  obtain w3 where w3: "relsCallback cb (p + length ?page) ?w2 = (Inr (), w3)"
      "target w3 = target ?w2"
    using relsCallback_calm [OF assms(3)] by blast
  have sub: "set ?page \<subseteq> set (g_rels g)"
    by (meson set_take_subset set_drop_subset subset_trans)
  have t1: "t_nodes (target ?w2) = t_nodes (target w)" by simp
  have t2: "length (t_rels (target ?w2)) = length (t_rels (target w)) + length ?page"
  proof (cases "0 < length ?page")
    case True
    then have e: "target ?w2 = create_rel_groups (relsByType [] ?page) (target w)"
      by (simp del: length_take length_drop length_greater_0_conv)
    have "length (t_rels (create_rel_groups (relsByType [] ?page) (target w)))
            = length (t_rels (target w)) + length (concat (map snd (relsByType [] ?page)))"
      by (rule length_create_rel_groups) (use sub assms(4) in \<open>auto simp only: length_relsByType(2)\<close>)
    then show ?thesis by (simp only: e length_relsByType(1))
  next
    case False
    then have e: "?page = []" by blast
    have "target ?w2 = target w" using False by (simp del: length_take length_drop)
    then show ?thesis by (simp only: e) simp
  qed
  have "copyRelationshipsPage r (Some (relsCallback cb)) tot p w
          = (Inr (p + length ?page),
             console Info (''Processed '' @ show_nat (p + length ?page) @ ''/'' @ show_nat tot
                           @ '' relationships'') w3)"
    unfolding copyRelationshipsPage_def using wr w3(1)
    by (simp add: assms(1) sourceRun_def del: length_take length_drop length_greater_0_conv)
  moreover have "target (console Info msg w3) = target w3" for msg
    by (simp add: console_def)
  ultimately show ?thesis using t1 t2 w3(2) by (intro exI [of _ "console Info _ w3"]) simp
qed

lemma copyRelationshipsLoop_ok:
  assumes "sourceDriver r = static_source g" and "never_rejects r" and "calm cb"
    and "1 \<le> batchSize r div 2"
    and "\<And>rel. rel \<in> set (g_rels g)
           \<Longrightarrow> matches (startId rel) (target w) = 1 \<and> matches (endId rel) (target w) = 1"
  shows "\<exists>w'. copyRelationshipsLoop r (Some (relsCallback cb)) (length (g_rels g)) p w
                 = Some (Inr (), w') \<and>
              t_nodes (target w') = t_nodes (target w) \<and>
              length (t_rels (target w'))
                = length (t_rels (target w)) + length (drop p (g_rels g))"
  using assms(5)
proof (induction "length (g_rels g) - p" arbitrary: p w rule: less_induct)
  case less
  let ?M = "length (g_rels g)"
  show ?case
  proof (cases "p < ?M")
    case False
    then show ?thesis by (subst copyRelationshipsLoop.simps) simp
  next
    case True
    let ?page = "take (batchSize r div 2) (drop p (g_rels g))"
    have pos: "0 < length ?page" using True assms(4) by simp
    obtain w1 where w1: "copyRelationshipsPage r (Some (relsCallback cb)) ?M p w
                           = (Inr (p + length ?page), w1)"
        "t_nodes (target w1) = t_nodes (target w)"
        "length (t_rels (target w1)) = length (t_rels (target w)) + length ?page"
      using copyRelationshipsPage_ok [where tot = ?M and p = p, OF assms(1-3) less(2)] by blast
    have m1: "matches (startId rel) (target w1) = 1 \<and> matches (endId rel) (target w1) = 1"
      if "rel \<in> set (g_rels g)" for rel
      using less(2) [OF that] matches_nodes [OF w1(2)] by simp
    have "?M - (p + length ?page) < ?M - p" using True pos by linarith
    from less(1) [OF this m1]
    obtain w' where w': "copyRelationshipsLoop r (Some (relsCallback cb)) ?M (p + length ?page) w1
                           = Some (Inr (), w')"
        "t_nodes (target w') = t_nodes (target w1)"
        "length (t_rels (target w'))
           = length (t_rels (target w1)) + length (drop (p + length ?page) (g_rels g))"
      by blast
    have d: "drop p (g_rels g) = ?page @ drop (p + length ?page) (g_rels g)"
      by (rule page_split)
    have "copyRelationshipsLoop r (Some (relsCallback cb)) ?M p w = Some (Inr (), w')"
      by (subst copyRelationshipsLoop.simps)
         (simp only: True w1(1) w'(1) if_True prod.case sum.case)
    moreover have "length (t_rels (target w'))
        = length (t_rels (target w)) + length (drop p (g_rels g))"
      by (subst d) (simp only: w'(3) w1(3) length_append add.assoc)
    ultimately show ?thesis using w'(2) w1(2) by simp
  qed
qed

lemma copyRelationships_ok:
  assumes "sourceDriver r = static_source g" and "never_rejects r" and "calm cb"
    and "2 \<le> batchSize r"
    and "\<And>rel. rel \<in> set (g_rels g)
           \<Longrightarrow> matches (startId rel) (target w) = 1 \<and> matches (endId rel) (target w) = 1"
  shows "\<exists>w'. copyRelationships r (Some (relsCallback cb)) w = Some (Inr (), w') \<and>
              t_nodes (target w') = t_nodes (target w) \<and>
              length (t_rels (target w')) = length (t_rels (target w)) + length (g_rels g)"
proof -
  let ?w1 = "(openSource (console Info ''Copying relationships...'' w))
               \<lparr>trace := trace (openSource (console Info ''Copying relationships...'' w))
                           @ [SourceRun CountRels]\<rparr>"
  have t: "target ?w1 = target w" by (simp add: openSource_def console_def)
  have b: "1 \<le> batchSize r div 2" using assms(4) by simp
  obtain w' where w': "copyRelationshipsLoop r (Some (relsCallback cb)) (length (g_rels g)) 0 ?w1
                         = Some (Inr (), w')"
      "t_nodes (target w') = t_nodes (target ?w1)"
      "length (t_rels (target w'))
         = length (t_rels (target ?w1)) + length (drop 0 (g_rels g))"
    using copyRelationshipsLoop_ok [where w = ?w1 and p = 0, OF assms(1-3) b] assms(5) unfolding t by blast
  have "copyRelationships r (Some (relsCallback cb)) w = Some (Inr (), closeSource w')"
    by (simp add: copyRelationships_def assms(1) sourceRun_def w'(1))
  then show ?thesis
    using w'(2,3) t by (intro exI [of _ "closeSource w'"]) (simp add: closeSource_def)
qed



subsection \<open>Stages that do not touch nodes and relationships\<close>

lemma graph_kept_refl [simp]: "graph_kept w w"
  by (simp add: graph_kept_def)

lemma graph_kept_trans: "graph_kept w w1 \<Longrightarrow> graph_kept w1 w2 \<Longrightarrow> graph_kept w w2"
  by (simp add: graph_kept_def)

lemma graph_kept_console_obj [simp]: "graph_kept w (console_obj lvl msg e w)"
  by (simp add: graph_kept_def console_obj_def)

lemma graph_kept_console [simp]: "graph_kept w (console lvl msg w)"
  by (simp add: graph_kept_def console_def)

lemma graph_kept_sourceRun [simp]: "graph_kept w (snd (sourceRun q a w))"
  by (simp add: graph_kept_def sourceRun_def)

lemma graph_kept_targetRun: "schema_only s \<Longrightarrow> graph_kept w (snd (targetRun r s w))"
  by (cases s) (simp_all add: graph_kept_def targetRun_def split: option.split)

lemma graph_kept_and_then:
  assumes "graph_kept w (snd m)" and "\<And>x w1. graph_kept w1 (snd (k x w1))"
  shows "graph_kept w (snd (and_then m k))"
proof (cases m)
  case (Pair res w1)
  show ?thesis
  proof (cases res)
    case (Inl e)
    then show ?thesis using assms(1) Pair by simp
  next
    case (Inr x)
    have "graph_kept w w1" using assms(1) Pair by simp
    then have "graph_kept w (snd (k x w1))" using assms(2) by (rule graph_kept_trans)
    then show ?thesis using Pair Inr by simp
  qed
qed

lemma graph_kept_try_catch:
  assumes "graph_kept w (snd m)" and "\<And>e w1. graph_kept w1 (snd (h e w1))"
  shows "graph_kept w (snd (try_catch m h))"
proof (cases m)
  case (Pair res w1)
  show ?thesis
  proof (cases res)
    case (Inl e)
    have "graph_kept w w1" using assms(1) Pair by simp
    then have "graph_kept w (snd (h e w1))" using assms(2) by (rule graph_kept_trans)
    then show ?thesis using Pair Inl by simp
  next
    case (Inr x)
    then show ?thesis using assms(1) Pair by simp
  qed
qed

lemma graph_kept_pair: "graph_kept w w1 \<Longrightarrow> graph_kept w (snd (res, w1))"
  by simp

lemma graph_kept_dropConstraints: "graph_kept w (snd (dropConstraints r names w))"
proof (induction names arbitrary: w)
  case Nil
  show ?case by simp
next
  case (Cons n names)
  show ?case
    unfolding dropConstraints.simps
    by (intro graph_kept_and_then graph_kept_try_catch graph_kept_targetRun graph_kept_pair
          graph_kept_console graph_kept_console_obj Cons.IH) simp
qed

lemma graph_kept_dropIndexes: "graph_kept w (snd (dropIndexes r names w))"
proof (induction names arbitrary: w)
  case Nil
  show ?case by simp
next
  case (Cons n names)
  show ?case
    unfolding dropIndexes.simps
    by (intro graph_kept_and_then graph_kept_try_catch graph_kept_targetRun graph_kept_pair
          graph_kept_console graph_kept_console_obj Cons.IH) simp
qed

lemma graph_kept_copyConstraints: "graph_kept w (snd (copyConstraints r cs w))"
proof (induction cs arbitrary: w)
  case Nil
  show ?case by simp
next
  case (Cons c cs)
  have t: "graph_kept w0 (snd (tryConstraint r c w0))" for w0
    unfolding tryConstraint_def Let_def
    by (simp, intro conjI impI graph_kept_and_then graph_kept_targetRun graph_kept_pair
          graph_kept_console; simp)
  have h: "graph_kept w0 (snd (catchConstraint c e w0))" for e w0
    unfolding catchConstraint_def by simp
  show ?case
    unfolding copyConstraints.simps
    by (intro graph_kept_and_then graph_kept_try_catch t h Cons.IH)
qed

lemma graph_kept_copyIndexes: "graph_kept w (snd (copyIndexes r ixs w))"
proof (induction ixs arbitrary: w)
  case Nil
  show ?case by simp
next
  case (Cons ix ixs)
  have t: "graph_kept w0 (snd (tryIndex r ix w0))" for w0
    unfolding tryIndex_def Let_def
    by (simp, intro conjI impI graph_kept_and_then graph_kept_targetRun graph_kept_pair
          graph_kept_console; simp)
  have h: "graph_kept w0 (snd (catchIndex ix e w0))" for e w0
    unfolding catchIndex_def by simp
  show ?case
    unfolding copyIndexes.simps
    by (intro graph_kept_and_then graph_kept_try_catch t h Cons.IH)
qed

lemma graph_kept_copySchema: "graph_kept w (snd (copySchema r w))"
proof -
  let ?body = "\<lambda>w0. and_then (sourceRun SrcShowConstraints (showConstraints (sourceDriver r)) w0)
          (\<lambda>constraints w1.
       and_then (copyConstraints r constraints w1)
          (\<lambda>_ w2.
       and_then (sourceRun SrcShowIndexes (showIndexes (sourceDriver r)) w2)
          (\<lambda>indexes w3. copyIndexes r indexes w3)))"
  let ?w1 = "openTarget (openSource (console Info ''Copying database schema...'' w))"
  have "graph_kept w0 (snd (?body w0))" for w0
    by (intro graph_kept_and_then graph_kept_sourceRun graph_kept_copyConstraints
          graph_kept_copyIndexes)
  then have "graph_kept ?w1 (snd (?body ?w1))" .
  then have "graph_kept w (closeTarget (closeSource (snd (?body ?w1))))"
    by (simp add: graph_kept_def openSource_def closeSource_def openTarget_def closeTarget_def
          console_def)
  then show ?thesis
    unfolding copySchema_def by (cases "?body ?w1") simp
qed

lemma dropConstraints_returns: "fst (dropConstraints r names w) = Inr ()"
proof (induction names arbitrary: w)
  case Nil
  show ?case by simp
next
  case (Cons n names)
  show ?case
    by (cases "targetRun r (DropConstraint n) w"; cases "fst (targetRun r (DropConstraint n) w)")
       (simp_all add: Cons.IH)
qed

lemma dropIndexes_returns: "fst (dropIndexes r names w) = Inr ()"
proof (induction names arbitrary: w)
  case Nil
  show ?case by simp
next
  case (Cons n names)
  show ?case
    by (cases "targetRun r (DropIndex n) w"; cases "fst (targetRun r (DropIndex n) w)")
       (simp_all add: Cons.IH)
qed


declare graph_kept_trans [trans]

lemma clearTargetDatabase_ok:
  assumes "never_rejects r"
  shows "\<exists>w'. clearTargetDatabase r w = (Inr (), w') \<and>
              t_nodes (target w') = [] \<and> t_rels (target w') = []"
proof -
  let ?w1 = "snd (targetRun r DetachDeleteAll
                    (openTarget (console Info ''Clearing target database...'' w)))"
  let ?w2 = "snd (targetRun r ShowConstraints
                    (console Info ''All nodes and relationships deleted'' ?w1))"
  let ?cs = "t_constraints (target (console Info ''All nodes and relationships deleted'' ?w1))"
  let ?w3 = "snd (dropConstraints r ?cs ?w2)"
  let ?w4 = "snd (targetRun r ShowIndexes ?w3)"
  let ?w5 = "snd (dropIndexes r (t_indexes (target ?w3)) ?w4)"
  have e: "t_nodes (target ?w1) = []" "t_rels (target ?w1) = []"
    by (simp_all add: targetRun_ok [OF assms])
  have "graph_kept ?w1 (console Info ''All nodes and relationships deleted'' ?w1)"
    by (rule graph_kept_console)
  also have "graph_kept (console Info ''All nodes and relationships deleted'' ?w1) ?w2"
    by (rule graph_kept_targetRun) simp
  also have "graph_kept ?w2 ?w3" by (rule graph_kept_dropConstraints)
  also have "graph_kept ?w3 ?w4" by (rule graph_kept_targetRun) simp
  also have "graph_kept ?w4 ?w5" by (rule graph_kept_dropIndexes)
  finally have k: "graph_kept ?w1 ?w5" .
  obtain w3 where w3: "dropConstraints r ?cs ?w2 = (Inr (), w3)"
    using dropConstraints_returns [of r ?cs ?w2] by (cases "dropConstraints r ?cs ?w2") simp
  obtain w5 where w5: "dropIndexes r (t_indexes (target w3))
                         (snd (targetRun r ShowIndexes w3)) = (Inr (), w5)"
    using dropIndexes_returns [of r "t_indexes (target w3)" "snd (targetRun r ShowIndexes w3)"]
    by (cases "dropIndexes r (t_indexes (target w3)) (snd (targetRun r ShowIndexes w3))") simp
  have "clearTargetDatabase r w = (Inr (), closeTarget ?w5)"
    unfolding clearTargetDatabase_def using w3 w5
    by (simp add: targetRun_ok [OF assms])
  moreover have "t_nodes (target (closeTarget ?w5)) = []" "t_rels (target (closeTarget ?w5)) = []"
    using k e by (simp_all add: graph_kept_def closeTarget_def)
  ultimately show ?thesis by blast
qed

lemma copySchema_ok:
  assumes "sourceDriver r = static_source g"
  shows "\<exists>w'. copySchema r w = (Inr (), w') \<and> graph_kept w w'"
proof -
  have "fst (copySchema r w) = Inr ()"
    by (rule copySchema_sends(3) [of r "g_constraints g" "g_indexes g"]) (simp_all add: assms)
  then show ?thesis
    using graph_kept_copySchema [of w r] by (cases "copySchema r w") simp
qed

lemma cleanup_ok:
  assumes "never_rejects r"
  shows "\<exists>w'. cleanup r w = (Inr (), w') \<and> target w' = apply_stmt RemoveSourceId (target w)"
  by (simp add: cleanup_def targetRun_ok [OF assms] openTarget_def closeTarget_def console_def)

lemma getTotalCounts_ok:
  assumes "sourceDriver r = static_source g"
  shows "\<exists>w'. getTotalCounts r w = (Inr (length (g_nodes g), length (g_rels g)), w') \<and>
              target w' = target w"
  by (simp add: getTotalCounts_def assms sourceRun_def openSource_def closeSource_def)

lemma notify_stage_calm:
  assumes "calm cb"
  shows "\<exists>w'. notify cb (setStage s w) = (Inr (), w') \<and> target w' = target w"
  using notify_calm [OF assms, of "setStage s w"] by (auto simp: setStage_def)



subsection \<open>The whole run when nothing fails\<close>

lemma one_node_per_id:
  "distinct (map f ns) \<Longrightarrow> x \<in> f ` set ns \<Longrightarrow> length (filter (\<lambda>n. f n = x) ns) = 1"
proof (induction ns)
  case Nil
  then show ?case by simp
next
  case (Cons a ns)
  show ?case
  proof (cases "f a = x")
    case True
    then have "x \<notin> f ` set ns" using Cons.prems(1) by auto
    then have "filter (\<lambda>n. f n = x) ns = []" by (auto simp: filter_empty_conv)
    then show ?thesis using True by simp
  next
    case False
    then show ?thesis using Cons by auto
  qed
qed

lemma has_source_id_node_props [simp]: "has_source_id x (node_props n) \<longleftrightarrow> nodeId n = x"
  by (simp add: has_source_id_def node_props_def update_conv)

lemma matches_after_copy:
  assumes "mset (map snd (content db)) = mset (map node_props ns)"
    and "distinct (map nodeId ns)" and "x \<in> nodeId ` set ns"
  shows "matches x db = 1"
proof -
  have "matches x db = length (filter (has_source_id x) (map snd (content db)))"
    by (simp add: matches_def match_source_id_def content_def has_source_id_def comp_def
          filter_map)
  also have "\<dots> = size (filter_mset (has_source_id x) (mset (map snd (content db))))"
    by (simp only: mset_filter [symmetric] size_mset)
  also have "\<dots> = size (filter_mset (has_source_id x) (mset (map node_props ns)))"
    by (simp only: assms(1))
  also have "\<dots> = length (filter (has_source_id x) (map node_props ns))"
    by (simp only: mset_filter [symmetric] size_mset)
  also have "\<dots> = length (filter (\<lambda>n. nodeId n = x) ns)"
    by (simp add: filter_map comp_def)
  also have "\<dots> = 1" using assms(2,3) by (rule one_node_per_id)
  finally show ?thesis .
qed

lemma props_after_cleanup:
  assumes "mset (map snd (content db)) = mset (map node_props ns)"
  shows "mset (map t_props (t_nodes (apply_stmt RemoveSourceId db)))
           = mset (map (\<lambda>n. AList.delete ''source_id'' (properties n)) ns)"
proof -
  have e: "map t_props (t_nodes (apply_stmt RemoveSourceId db))
          = map (AList.delete ''source_id'') (map snd (content db))"
    by (simp add: content_def comp_def)
  have "mset (map t_props (t_nodes (apply_stmt RemoveSourceId db)))
          = image_mset (AList.delete ''source_id'') (mset (map snd (content db)))"
    by (simp only: e mset_map)
  also have "\<dots> = image_mset (AList.delete ''source_id'') (mset (map node_props ns))"
    by (simp only: assms)
  also have "\<dots> = mset (map (\<lambda>n. AList.delete ''source_id'' (properties n)) ns)"
    by (simp add: node_props_def comp_def delete_update_same image_mset.compositionality)
  finally show ?thesis .
qed

lemma replicateStages_ok:
  assumes "sourceDriver r = static_source g" and "wf_graph g" and "never_rejects r"
    and "calm cb" and "2 \<le> batchSize r"
  shows "\<exists>w'. replicateStages r cb w = Some (Inr (), w') \<and>
           mset (map t_props (t_nodes (target w')))
             = mset (map (\<lambda>n. AList.delete ''source_id'' (properties n)) (g_nodes g)) \<and>
           length (t_rels (target w')) = length (g_rels g)"
proof -
  let ?N = "length (g_nodes g)" and ?M = "length (g_rels g)"
  let ?w0 = "console Info ''Starting database replication...'' w"
  obtain w1 where w1: "getTotalCounts r ?w0 = (Inr (?N, ?M), w1)"
    using getTotalCounts_ok [OF assms(1)] by blast
  let ?p0 = "\<lparr> totalNodes = ?N, processedNodes = 0, totalRelationships = ?M,
               processedRelationships = 0, stage = Clearing \<rparr>"
  obtain w2 where w2: "notify cb (w1\<lparr>progress := ?p0\<rparr>) = (Inr (), w2)"
    using notify_calm [OF assms(4)] by blast
  obtain w3 where w3: "clearTargetDatabase r w2 = (Inr (), w3)"
      "t_nodes (target w3) = []" "t_rels (target w3) = []"
    using clearTargetDatabase_ok [OF assms(3)] by blast
  obtain w4 where w4: "notify cb (setStage Schema w3) = (Inr (), w4)" "target w4 = target w3"
    using notify_stage_calm [OF assms(4)] by blast
  obtain w5 where w5: "copySchema r w4 = (Inr (), w5)" "graph_kept w4 w5"
    using copySchema_ok [OF assms(1)] by blast
  obtain w6 where w6: "notify cb (setStage Nodes w5) = (Inr (), w6)" "target w6 = target w5"
    using notify_stage_calm [OF assms(4)] by blast
  have e6: "t_nodes (target w6) = []" "t_rels (target w6) = []"
    using w3(2,3) w4(2) w5(2) w6(2) by (simp_all add: graph_kept_def)
  have b1: "1 \<le> batchSize r" using assms(5) by simp
  obtain w7 where w7: "copyNodes r (Some (nodesCallback cb)) w6 = Some (Inr (), w7)"
      "t_rels (target w7) = t_rels (target w6)"
      "mset (map snd (content (target w7)))
         = mset (map snd (content (target w6))) + mset (map node_props (g_nodes g))"
    using copyNodes_ok [OF assms(1,3,4) b1] by blast
  have c7: "mset (map snd (content (target w7))) = mset (map node_props (g_nodes g))"
    using w7(3) e6(1) by (simp add: content_def)
  obtain w8 where w8: "notify cb (setStage Relationships w7) = (Inr (), w8)"
      "target w8 = target w7"
    using notify_stage_calm [OF assms(4)] by blast
  have d: "distinct (map nodeId (g_nodes g))"
    and ends: "\<And>rel. rel \<in> set (g_rels g)
                \<Longrightarrow> startId rel \<in> nodeId ` set (g_nodes g) \<and> endId rel \<in> nodeId ` set (g_nodes g)"
    using assms(2) by (auto simp: wf_graph_def list_all_iff)
  have m8: "matches (startId rel) (target w8) = 1 \<and> matches (endId rel) (target w8) = 1"
    if "rel \<in> set (g_rels g)" for rel
    using ends [OF that] c7 d unfolding w8(2) by (simp add: matches_after_copy)
  obtain w9 where w9: "copyRelationships r (Some (relsCallback cb)) w8 = Some (Inr (), w9)"
      "t_nodes (target w9) = t_nodes (target w8)"
      "length (t_rels (target w9)) = length (t_rels (target w8)) + ?M"
    using copyRelationships_ok [OF assms(1,3,4,5) m8] by blast
  obtain w10 where w10: "notify cb (setStage Cleanup w9) = (Inr (), w10)"
      "target w10 = target w9"
    using notify_stage_calm [OF assms(4)] by blast
  obtain w11 where w11: "cleanup r w10 = (Inr (), w11)"
      "target w11 = apply_stmt RemoveSourceId (target w10)"
    using cleanup_ok [OF assms(3)] by blast
  obtain w12 where w12: "notify cb (setStage Complete w11) = (Inr (), w12)"
      "target w12 = target w11"
    using notify_stage_calm [OF assms(4)] by blast
  let ?w' = "console Info ''Database replication completed successfully!'' w12"
  have run: "replicateStages r cb w = Some (Inr (), ?w')"
    unfolding replicateStages_def
    by (simp add: w1 w2 w3(1) w4(1) w5(1) w6(1) w7(1) w8(1) w9(1) w10(1) w11(1) w12(1))
  have t: "target ?w' = apply_stmt RemoveSourceId (target w9)"
    using w12(2) w11(2) w10(2) by (simp add: console_def)
  have c9: "mset (map snd (content (target w9))) = mset (map node_props (g_nodes g))"
    using c7 w9(2) w8(2) by (simp add: content_def)
  have "mset (map t_props (t_nodes (target ?w')))
          = mset (map (\<lambda>n. AList.delete ''source_id'' (properties n)) (g_nodes g))"
    unfolding t using c9 by (rule props_after_cleanup)
  moreover have "length (t_rels (target ?w')) = ?M"
    unfolding t using w9(3) w8(2) w7(2) e6(2) by simp
  ultimately show ?thesis using run by blast
qed

lemma calm_simps [simp]: "calm None" "calm (Some (\<lambda>p. None))"
  by (simp_all add: calm_def)



subsection \<open>The events of one turn, in general\<close>

lemma steps_page_nodes_general:
  assumes "P (SourceRun (PageNodes p (batchSize r)))"
    and "\<And>c ns. P (TargetRun (UnwindCreateNodes c ns))"
    and "\<And>q. P (Observer q)" and "\<And>l m. P (Console l m)"
  shows "steps P w (snd (copyNodesPage r (Some (nodesCallback cb)) tot p w))"
proof -
  have wr: "steps P w1 (snd (if 0 < length ns then createNodesInTarget r ns w1 else (Inr (), w1)))"
    for ns w1
    by (simp add: steps_createNodesInTarget [of P] assms(2))
  show ?thesis
    unfolding copyNodesPage_def call_opt_simps
    by (intro steps_and_then steps_sourceRun wr steps_nodesCallback steps_pair steps_console assms)
qed

lemma steps_page_rels_general:
  assumes "P (SourceRun (PageRels p (batchSize r div 2)))"
    and "\<And>t rs. P (TargetRun (UnwindCreateRels t rs))"
    and "\<And>q. P (Observer q)" and "\<And>l m. P (Console l m)"
  shows "steps P w (snd (copyRelationshipsPage r (Some (relsCallback cb)) tot p w))"
proof -
  have wr: "steps P w1
      (snd (if 0 < length rs then createRelationshipsInTarget r rs w1 else (Inr (), w1)))"
    for rs w1
    by (simp add: steps_createRelationshipsInTarget [of P] assms(2))
  show ?thesis
    unfolding copyRelationshipsPage_def call_opt_simps
    by (intro steps_and_then steps_sourceRun wr steps_relsCallback steps_pair steps_console assms)
qed

lemma calm_never_throws:
  assumes "calm cb"
  shows "never_throws (Some (nodesCallback cb))" "never_throws (Some (relsCallback cb))"
  using nodesCallback_calm [OF assms] relsCallback_calm [OF assms]
  by (simp_all add: never_throws_def) (metis fst_conv)+


subsection \<open>A source with stable pages\<close>

lemma fetched_stable:
  assumes "stable_pages src"
  shows "fetched src h q = fetched src [] q"
proof -
  have "pageNodes src h = pageNodes src []" "pageRels src h = pageRels src []"
    using assms unfolding stable_pages_def by blast+
  then show ?thesis by (cases q) simp_all
qed

lemma fetches_stable:
  assumes "stable_pages src"
  shows "fetches src h evs = map (fetched src []) (filter is_page (source_runs evs))"
proof (induction evs arbitrary: h)
  case Nil
  show ?case by simp
next
  case (Cons e evs)
  show ?case
  proof (cases e)
    case (SourceRun q)
    then show ?thesis using Cons.IH fetched_stable [OF assms, of h q] by simp
  qed (simp_all add: Cons.IH)
qed

lemma fetch_nonempty_fetches:
  assumes "stable_pages src" and "list_all (fetch_nonempty src) evs"
  shows "0 \<notin> set (fetches src h evs)"
proof -
  have "0 \<notin> set (map (fetched src []) (filter is_page (source_runs evs)))"
    using assms(2)
  proof (induction evs)
    case Nil
    show ?case by simp
  next
    case (Cons e evs)
    then show ?case by (cases e) auto
  qed
  then show ?thesis by (simp add: fetches_stable [OF assms(1)])
qed

lemma normal_loop_nodes_fetches:
  assumes "copyNodesLoop r (Some (nodesCallback cb)) tot p w = Some (Inr u, w')"
    and "stable_pages (sourceDriver r)"
  shows "steps (fetch_nonempty (sourceDriver r)) w w'"
proof -
  let ?src = "sourceDriver r"
  have "(\<exists>u w'. y = (Inr u, w')) \<longrightarrow> steps (fetch_nonempty ?src) w (snd y)"
    if "copyNodesLoop r (Some (nodesCallback cb)) tot p w = Some y" for y
    using that
  proof (induction rule: copyNodesLoop_induct)
    case (stop p w)
    show ?case by simp
  next
    case (throw p w e w')
    show ?case by simp
  next
    case (turn p w p' w' y)
    show ?case
    proof
      assume n: "\<exists>u w'. y = (Inr u, w')"
      have run: "copyNodesLoop r (Some (nodesCallback cb)) tot p w = Some y"
        using turn(1,2,3) by (subst copyNodesLoop.simps) simp
      obtain ns where ns: "pageNodes ?src (trace w) p (batchSize r) = Inr ns"
        using copyNodesPage_Inr [OF turn(2)] by blast
      have "ns \<noteq> []"
      proof
        assume "ns = []"
        then have "\<forall>h. pageNodes ?src h p (batchSize r) = Inr []"
          using ns assms(2) unfolding stable_pages_def by metis
        from copyNodesLoop_not_normal [OF run turn(1) this] n show False by auto
      qed
      moreover have "fetched ?src [] (PageNodes p (batchSize r)) = length ns"
        using fetched_stable [OF assms(2), of "trace w" "PageNodes p (batchSize r)"] ns by simp
      ultimately have ne: "fetch_nonempty ?src (SourceRun (PageNodes p (batchSize r)))"
        by (simp del: fetched.simps)
      have "steps (fetch_nonempty ?src) w
              (snd (copyNodesPage r (Some (nodesCallback cb)) tot p w))"
        by (rule steps_page_nodes_general) (rule ne, simp_all)
      then have "steps (fetch_nonempty ?src) w w'" using turn(2) by simp
      moreover have "steps (fetch_nonempty ?src) w' (snd y)" using turn(4) n by simp
      ultimately show "steps (fetch_nonempty ?src) w (snd y)" by (rule steps_trans)
    qed
  qed
  from this [OF assms(1)] show ?thesis by simp
qed

lemma normal_loop_rels_fetches:
  assumes "copyRelationshipsLoop r (Some (relsCallback cb)) tot p w = Some (Inr u, w')"
    and "stable_pages (sourceDriver r)"
  shows "steps (fetch_nonempty (sourceDriver r)) w w'"
proof -
  let ?src = "sourceDriver r"
  have "(\<exists>u w'. y = (Inr u, w')) \<longrightarrow> steps (fetch_nonempty ?src) w (snd y)"
    if "copyRelationshipsLoop r (Some (relsCallback cb)) tot p w = Some y" for y
    using that
  proof (induction rule: copyRelationshipsLoop_induct)
    case (stop p w)
    show ?case by simp
  next
    case (throw p w e w')
    show ?case by simp
  next
    case (turn p w p' w' y)
    show ?case
    proof
      assume n: "\<exists>u w'. y = (Inr u, w')"
      have run: "copyRelationshipsLoop r (Some (relsCallback cb)) tot p w = Some y"
        using turn(1,2,3) by (subst copyRelationshipsLoop.simps) simp
      obtain rs where rs: "pageRels ?src (trace w) p (batchSize r div 2) = Inr rs"
        using copyRelationshipsPage_Inr [OF turn(2)] by blast
      have "rs \<noteq> []"
      proof
        assume "rs = []"
        then have "\<forall>h. pageRels ?src h p (batchSize r div 2) = Inr []"
          using rs assms(2) unfolding stable_pages_def by metis
        from copyRelationshipsLoop_not_normal [OF run turn(1) this] n show False by auto
      qed
      moreover have "fetched ?src [] (PageRels p (batchSize r div 2)) = length rs"
        using fetched_stable [OF assms(2), of "trace w" "PageRels p (batchSize r div 2)"] rs
        by simp
      ultimately have ne: "fetch_nonempty ?src (SourceRun (PageRels p (batchSize r div 2)))"
        by (simp del: fetched.simps)
      have "steps (fetch_nonempty ?src) w
              (snd (copyRelationshipsPage r (Some (relsCallback cb)) tot p w))"
        by (rule steps_page_rels_general) (rule ne, simp_all)
      then have "steps (fetch_nonempty ?src) w w'" using turn(2) by simp
      moreover have "steps (fetch_nonempty ?src) w' (snd y)" using turn(4) n by simp
      ultimately show "steps (fetch_nonempty ?src) w (snd y)" by (rule steps_trans)
    qed
  qed
  from this [OF assms(1)] show ?thesis by simp
qed

lemma stable_static [simp]: "stable_pages (static_source g)"
  by (simp add: stable_pages_def static_source_def)


subsection \<open>Batch sizes below two\<close>

lemma copyNodes_hangs:
  assumes "sourceDriver r = static_source g" and "calm cb"
    and "batchSize r = 0" and "g_nodes g \<noteq> []"
  shows "copyNodes r (Some (nodesCallback cb)) w = None"
proof -
  have "copyNodesLoop r (Some (nodesCallback cb)) (length (g_nodes g)) 0 w1 = None" for w1
    by (rule copyNodesLoop_stuck) (simp_all add: assms calm_never_throws)
  then show ?thesis by (simp add: copyNodes_def assms(1) sourceRun_def)
qed

lemma copyRelationships_hangs:
  assumes "sourceDriver r = static_source g" and "calm cb"
    and "batchSize r = 1" and "g_rels g \<noteq> []"
  shows "copyRelationships r (Some (relsCallback cb)) w = None"
proof -
  have "copyRelationshipsLoop r (Some (relsCallback cb)) (length (g_rels g)) 0 w1 = None" for w1
    by (rule copyRelationshipsLoop_stuck) (simp_all add: assms calm_never_throws)
  then show ?thesis by (simp add: copyRelationships_def assms(1) sourceRun_def)
qed

lemma replicateStages_hangs_nodes:
  assumes "sourceDriver r = static_source g" and "never_rejects r" and "calm cb"
    and "batchSize r = 0" and "g_nodes g \<noteq> []"
  shows "replicateStages r cb w = None"
proof -
  let ?w0 = "console Info ''Starting database replication...'' w"
  obtain w1 where w1: "getTotalCounts r ?w0 = (Inr (length (g_nodes g), length (g_rels g)), w1)"
    using getTotalCounts_ok [OF assms(1)] by blast
  let ?p0 = "\<lparr> totalNodes = length (g_nodes g), processedNodes = 0,
               totalRelationships = length (g_rels g), processedRelationships = 0,
               stage = Clearing \<rparr>"
  obtain w2 where w2: "notify cb (w1\<lparr>progress := ?p0\<rparr>) = (Inr (), w2)"
    using notify_calm [OF assms(3)] by blast
  obtain w3 where w3: "clearTargetDatabase r w2 = (Inr (), w3)"
    using clearTargetDatabase_ok [OF assms(2)] by blast
  obtain w4 where w4: "notify cb (setStage Schema w3) = (Inr (), w4)"
    using notify_stage_calm [OF assms(3)] by blast
  obtain w5 where w5: "copySchema r w4 = (Inr (), w5)"
    using copySchema_ok [OF assms(1)] by blast
  obtain w6 where w6: "notify cb (setStage Nodes w5) = (Inr (), w6)"
    using notify_stage_calm [OF assms(3)] by blast
  have w7: "copyNodes r (Some (nodesCallback cb)) w6 = None"
    by (rule copyNodes_hangs [OF assms(1,3,4,5)])
  show ?thesis
    unfolding replicateStages_def by (simp add: w1 w2 w3 w4 w5 w6 w7)
qed

lemma replicateStages_hangs_rels:
  assumes "sourceDriver r = static_source g" and "never_rejects r" and "calm cb"
    and "batchSize r = 1" and "g_rels g \<noteq> []"
  shows "replicateStages r cb w = None"
proof -
  let ?w0 = "console Info ''Starting database replication...'' w"
  obtain w1 where w1: "getTotalCounts r ?w0 = (Inr (length (g_nodes g), length (g_rels g)), w1)"
    using getTotalCounts_ok [OF assms(1)] by blast
  let ?p0 = "\<lparr> totalNodes = length (g_nodes g), processedNodes = 0,
               totalRelationships = length (g_rels g), processedRelationships = 0,
               stage = Clearing \<rparr>"
  obtain w2 where w2: "notify cb (w1\<lparr>progress := ?p0\<rparr>) = (Inr (), w2)"
    using notify_calm [OF assms(3)] by blast
  obtain w3 where w3: "clearTargetDatabase r w2 = (Inr (), w3)"
    using clearTargetDatabase_ok [OF assms(2)] by blast
  obtain w4 where w4: "notify cb (setStage Schema w3) = (Inr (), w4)"
    using notify_stage_calm [OF assms(3)] by blast
  obtain w5 where w5: "copySchema r w4 = (Inr (), w5)"
    using copySchema_ok [OF assms(1)] by blast
  obtain w6 where w6: "notify cb (setStage Nodes w5) = (Inr (), w6)"
    using notify_stage_calm [OF assms(3)] by blast
  have b1: "1 \<le> batchSize r" using assms(4) by simp
  obtain w7 where w7: "copyNodes r (Some (nodesCallback cb)) w6 = Some (Inr (), w7)"
    using copyNodes_ok [OF assms(1,2,3) b1] by blast
  obtain w8 where w8: "notify cb (setStage Relationships w7) = (Inr (), w8)"
    using notify_stage_calm [OF assms(3)] by blast
  have w9: "copyRelationships r (Some (relsCallback cb)) w8 = None"
    by (rule copyRelationships_hangs [OF assms(1,3,4,5)])
  show ?thesis
    unfolding replicateStages_def by (simp add: w1 w2 w3 w4 w5 w6 w7 w8 w9)
qed

lemma wf_pair_graph [simp]: "wf_graph pair_graph"
  by (simp add: wf_graph_def pair_graph_def node_AB_def node_plain_def knows_def)

lemma quiet_replicator_simps [simp]:
  "sourceDriver (quiet_replicator g n) = static_source g"
  "batchSize (quiet_replicator g n) = n"
  "targetFault (quiet_replicator g n) = no_fault"
  by (simp_all add: quiet_replicator_def)



subsection \<open>The trace of a page when nothing fails\<close>

lemma source_runs_append [simp]: "source_runs (xs @ ys) = source_runs xs @ source_runs ys"
  by (induction xs rule: source_runs.induct) simp_all

lemma observed_append [simp]: "observed (xs @ ys) = observed xs @ observed ys"
  by (induction xs rule: observed.induct) simp_all

lemma target_runs_append [simp]: "target_runs (xs @ ys) = target_runs xs @ target_runs ys"
  by (induction xs rule: target_runs.induct) simp_all

lemma fetched_static [simp]:
  "fetched (static_source g) h (PageNodes s l) = length (take l (drop s (g_nodes g)))"
  "fetched (static_source g) h (PageRels s l) = length (take l (drop s (g_rels g)))"
  by (simp_all add: static_source_def)

lemma fetches_static:
  "fetches (static_source g) h evs
     = map (fetched (static_source g) []) (filter is_page (source_runs evs))"
proof (induction evs arbitrary: h)
  case Nil
  show ?case by simp
next
  case (Cons e evs)
  show ?case
  proof (cases e)
    case (SourceRun q)
    then show ?thesis using Cons.IH by (cases q) simp_all
  qed (simp_all add: Cons.IH)
qed

lemma node_group_events_reads [simp]:
  "source_runs (node_group_events gs) = []" "observed (node_group_events gs) = []"
  by (induction gs) (auto simp: node_group_events_def)

lemma fetches_append:
  "fetches src h (xs @ ys) = fetches src h xs @ fetches src (h @ xs) ys"
proof (induction xs arbitrary: h)
  case Nil
  show ?case by simp
next
  case (Cons e xs)
  show ?case
  proof (cases e)
    case (SourceRun q)
    then show ?thesis by (simp add: Cons.IH)
  qed (simp_all add: Cons.IH)
qed

lemma fetches_no_source: "source_runs evs = [] \<Longrightarrow> fetches src h evs = []"
proof (induction evs arbitrary: h)
  case Nil
  show ?case by simp
next
  case (Cons e evs)
  then show ?case by (cases e) simp_all
qed

lemma copyNodesPage_trace_gen:
  assumes "pageNodes (sourceDriver r) (trace w) p (batchSize r) = Inr page"
    and "never_rejects r" and "\<forall>p. f p = None"
  shows "\<exists>w' rest. copyNodesPage r (Some (nodesCallback (Some f))) tot p w
                      = (Inr (p + length page), w') \<and>
           trace w' = trace w @ SourceRun (PageNodes p (batchSize r)) # rest \<and>
           source_runs rest = [] \<and>
           map processedNodes (observed rest) = [p + length page]"
proof -
  let ?n = "length page"
  let ?w1 = "w\<lparr>trace := trace w @ [SourceRun (PageNodes p (batchSize r))]\<rparr>"
  let ?wr = "if 0 < length page then node_group_events (nodesByLabels [] page) else []"
  let ?w2 = "if 0 < length page
             then ?w1\<lparr>trace := trace ?w1 @ node_group_events (nodesByLabels [] page),
                       target := create_groups (nodesByLabels [] page) (target ?w1)\<rparr>
             else ?w1"
  let ?obs = "Observer ((progress w)\<lparr>processedNodes := p + ?n\<rparr>)"
  let ?w3 = "?w2\<lparr>progress := (progress w)\<lparr>processedNodes := p + ?n\<rparr>,
                  trace := trace ?w2 @ [?obs]\<rparr>"
  let ?w4 = "console Info (''Processed '' @ show_nat (p + ?n) @ ''/'' @ show_nat tot @ '' nodes'') ?w3"
  have wr: "(if 0 < length page then createNodesInTarget r page ?w1 else (Inr (), ?w1))
              = (Inr (), ?w2)"
    by (simp add: createNodesInTarget_ok [OF assms(2)])
  have p2: "progress ?w2 = progress w" by simp
  have cb: "nodesCallback (Some f) (p + ?n) ?w2 = (Inr (), ?w3)"
    unfolding nodesCallback_def notify_def using assms(3) p2
    by (simp del: length_greater_0_conv)
  have run: "copyNodesPage r (Some (nodesCallback (Some f))) tot p w = (Inr (p + ?n), ?w4)"
    unfolding copyNodesPage_def using wr cb
    by (simp add: assms(1) sourceRun_def del: length_greater_0_conv)
  have t2: "trace ?w2 = trace w @ SourceRun (PageNodes p (batchSize r)) # ?wr"
    by (simp del: length_greater_0_conv)
  have t4: "trace ?w4 = trace w @ SourceRun (PageNodes p (batchSize r)) # (?wr
              @ [?obs, Console Info (''Processed '' @ show_nat (p + ?n) @ ''/'' @ show_nat tot
                                       @ '' nodes'')])"
    unfolding console_def using t2
    by (simp del: length_greater_0_conv)
  have r: "source_runs ?wr = []" "observed ?wr = []"
    by (simp_all del: length_greater_0_conv)
  show ?thesis
    by (intro exI conjI, rule run, rule t4)
       (simp_all add: r del: length_greater_0_conv)
qed

lemma copyNodesPage_trace:
  assumes "sourceDriver r = static_source g" and "never_rejects r" and "\<forall>p. f p = None"
    and "length (take (batchSize r) (drop p (g_nodes g))) = n"
  shows "\<exists>w' evs. copyNodesPage r (Some (nodesCallback (Some f))) tot p w = (Inr (p + n), w') \<and>
           trace w' = trace w @ evs \<and>
           source_runs evs = [PageNodes p (batchSize r)] \<and>
           map processedNodes (observed evs) = [p + n]"
proof -
  have "pageNodes (sourceDriver r) (trace w) p (batchSize r)
          = Inr (take (batchSize r) (drop p (g_nodes g)))"
    by (simp add: assms(1))
  from copyNodesPage_trace_gen [OF this assms(2,3), of tot]
  obtain w' rest where "copyNodesPage r (Some (nodesCallback (Some f))) tot p w
                      = (Inr (p + length (take (batchSize r) (drop p (g_nodes g)))), w')"
      "trace w' = trace w @ SourceRun (PageNodes p (batchSize r)) # rest"
      "source_runs rest = []"
      "map processedNodes (observed rest)
         = [p + length (take (batchSize r) (drop p (g_nodes g)))]"
    by (elim exE conjE) (rule that)
  then show ?thesis
    unfolding assms(4)
    by (intro exI [of _ w'] exI [of _ "SourceRun (PageNodes p (batchSize r)) # rest"]) simp
qed


subsection \<open>What an accepted trace looks like\<close>

lemma visited_follows: "follows s t \<Longrightarrow> visited (Some t) = visited s @ [t]"
proof (cases s)
  case None
  then show "follows s t \<Longrightarrow> ?thesis" by simp
next
  case (Some u)
  then show "follows s t \<Longrightarrow> ?thesis" by (cases u) simp_all
qed

lemma visited_last: "remdups_adj (visited (Some t) @ t # xs) = remdups_adj (visited (Some t) @ xs)"
  by (cases t) simp_all

lemma visited_distinct [simp]: "remdups_adj (visited s) = visited s"
proof (cases s)
  case None
  then show ?thesis by simp
next
  case (Some t)
  then show ?thesis by (cases t) simp_all
qed

lemma visited_prefix:
  "prefix (visited s) [Clearing, Schema, Nodes, Relationships, Cleanup, Complete]"
proof (cases s)
  case None
  then show ?thesis by simp
next
  case (Some t)
  then show ?thesis by (cases t) simp_all
qed

lemma monitor_run_tags:
  "monitor_run (s, b) evs = Some (s', b')
   \<Longrightarrow> remdups_adj (visited s @ map stage (observed evs)) = visited s'"
proof (induction evs arbitrary: s b)
  case Nil
  then show ?case by simp
next
  case (Cons e evs)
  obtain s1 b1 where m: "monitor (s, b) e = Some (s1, b1)"
      and r: "monitor_run (s1, b1) evs = Some (s', b')"
    using Cons.prems by (auto split: option.splits)
  note ih = Cons.IH [OF r]
  show ?case
  proof (cases e)
    case (Observer p)
    show ?thesis
    proof (cases b)
      case True
      then have "s = Some (stage p)" "s1 = s" using m Observer by (auto split: if_splits)
      then show ?thesis using ih Observer by (simp add: visited_last)
    next
      case False
      then have "follows s (stage p)" "s1 = Some (stage p)"
        using m Observer by (auto split: if_splits)
      then show ?thesis using ih Observer by (simp add: visited_follows)
    qed
  next
    case (SourceRun q)
    then have "s1 = s" using m by (auto split: if_splits)
    then show ?thesis using ih SourceRun by simp
  next
    case (TargetRun st)
    then have "s1 = s" using m by (auto split: if_splits)
    then show ?thesis using ih TargetRun by simp
  next
    case (Console lvl msg)
    then have "s1 = s" using m by auto
    then show ?thesis using ih Console by simp
  next
    case (ConsoleObj lvl msg err)
    then have "s1 = s" using m by auto
    then show ?thesis using ih ConsoleObj by simp
  qed
qed

lemma monitor_run_count:
  "monitor_run (s, b) evs = Some (s', b')
   \<Longrightarrow> length (observed evs) + length (visited s) + (if b' then 1 else 0)
       = length (visited s') + length (filter is_page (source_runs evs)) + (if b then 1 else 0)"
proof (induction evs arbitrary: s b)
  case Nil
  then show ?case by simp
next
  case (Cons e evs)
  obtain s1 b1 where m: "monitor (s, b) e = Some (s1, b1)"
      and r: "monitor_run (s1, b1) evs = Some (s', b')"
    using Cons.prems by (auto split: option.splits)
  note ih = Cons.IH [OF r]
  show ?case
  proof (cases e)
    case (Observer p)
    show ?thesis
    proof (cases b)
      case True
      then have "s1 = s" "b1 = False" using m Observer by (auto split: if_splits)
      then show ?thesis using ih Observer True by simp
    next
      case False
      then have "follows s (stage p)" "s1 = Some (stage p)" "b1 = False"
        using m Observer by (auto split: if_splits)
      then show ?thesis using ih Observer False by (simp add: visited_follows)
    qed
  next
    case (SourceRun q)
    show ?thesis
    proof (cases "is_page q")
      case True
      then have "s1 = s" "b1 = True" "b = False" using m SourceRun by (auto split: if_splits)
      then show ?thesis using ih SourceRun True by simp
    next
      case False
      then have "s1 = s" "b1 = b" using m SourceRun by (auto split: if_splits)
      then show ?thesis using ih SourceRun False by simp
    qed
  next
    case (TargetRun st)
    then have "s1 = s" "b1 = b" using m by (auto split: if_splits)
    then show ?thesis using ih TargetRun by simp
  next
    case (Console lvl msg)
    then have "s1 = s" "b1 = b" using m by auto
    then show ?thesis using ih Console by simp
  next
    case (ConsoleObj lvl msg err)
    then have "s1 = s" "b1 = b" using m by auto
    then show ?thesis using ih ConsoleObj by simp
  qed
qed

subsection \<open>Sessions and drivers across the run\<close>

lemma held_refl [simp]: "held w w"
  by (simp add: held_def)

lemma held_trans: "held w w1 \<Longrightarrow> held w1 w2 \<Longrightarrow> held w w2"
  by (simp add: held_def)

lemma steps_held: "steps P w w' \<Longrightarrow> held w w'"
  by (simp add: steps_def held_def)

lemma held_notify: "held w (snd (notify cb w0))" if "held w w0"
  using that by (auto simp: held_def notify_def split: option.splits)

lemma held_setStage [simp]: "held w (setStage s w)"
  by (simp add: held_def setStage_def)

lemma held_seq:
  assumes "seq m k = Some out"
    and "\<And>out1. m = Some out1 \<Longrightarrow> held w (snd out1)"
    and "\<And>x w1. m = Some (Inr x, w1) \<Longrightarrow> k x w1 = Some out \<Longrightarrow> held w1 (snd out)"
  shows "held w (snd out)"
proof (cases m)
  case None
  then show ?thesis using assms(1) by simp
next
  case (Some out1)
  obtain res w1 where o: "out1 = (res, w1)" by (cases out1)
  show ?thesis
  proof (cases res)
    case (Inl e)
    then have "out = (Inl e, w1)" using assms(1) Some o by simp
    then show ?thesis using assms(2) [OF Some] o by simp
  next
    case (Inr x)
    then have k: "k x w1 = Some out" using assms(1) Some o by simp
    have "held w w1" using assms(2) [OF Some] o by simp
    moreover have "held w1 (snd out)" using assms(3) Some o Inr k by simp
    ultimately show ?thesis by (rule held_trans)
  qed
qed

lemma held_replicateStages:
  assumes "replicateStages r cb w = Some out"
  shows "held w (snd out)"
  using assms unfolding replicateStages_def
  apply -
  apply (erule held_seq)
   apply (simp only: option.inject, erule subst)
   apply (rule held_trans [OF steps_held [OF steps_console] steps_held [OF steps_getTotalCounts]])
   apply (rule TrueI)
  apply (erule held_seq)
   apply (simp only: option.inject, erule subst, rule held_notify, simp add: held_def)
  apply (erule held_seq)
   apply (simp only: option.inject, erule subst, rule steps_held, rule steps_clearTargetDatabase)
  apply (erule held_seq)
   apply (simp only: option.inject, erule subst, rule held_notify, rule held_setStage)
  apply (erule held_seq)
   apply (simp only: option.inject, erule subst, rule steps_held, rule steps_copySchema)
  apply (erule held_seq)
   apply (simp only: option.inject, erule subst, rule held_notify, rule held_setStage)
  apply (erule held_seq)
   apply (rule steps_held, erule steps_copyNodes)
   apply (simp only: option.inject)
   apply (drule stage_after_notify [of cb "setStage Nodes _"], simp)
  apply (erule held_seq)
   apply (simp only: option.inject, erule subst, rule held_notify, rule held_setStage)
  apply (erule held_seq)
   apply (rule steps_held, erule steps_copyRelationships)
   apply (simp only: option.inject)
   apply (drule stage_after_notify [of cb "setStage Relationships _"], simp)
  apply (erule held_seq)
   apply (simp only: option.inject, erule subst, rule held_notify, rule held_setStage)
  apply (erule held_seq)
   apply (simp only: option.inject, erule subst, rule steps_held, rule steps_cleanup)
  apply (erule held_seq)
   apply (simp only: option.inject, erule subst, rule held_notify, rule held_setStage)
  apply (clarsimp simp: held_def console_def)
  done


subsection \<open>Bounded runs and runs\<close>


lemma copyNodesLoop_within_stop:
  "\<not> p < tot \<Longrightarrow> copyNodesLoop_within n r cb tot p w = Returned (Inr (), w)"
  by (cases n) simp_all

lemma copyNodesLoop_within_sound:
  "copyNodesLoop_within n r cb tot p w = Returned y \<Longrightarrow> copyNodesLoop r cb tot p w = Some y"
proof (induction n arbitrary: p w)
  case 0
  then show ?case by (subst copyNodesLoop.simps) (simp split: if_splits)
next
  case (Suc n)
  show ?case
  proof (cases "p < tot")
    case False
    then show ?thesis using Suc.prems by (subst copyNodesLoop.simps) simp
  next
    case True
    obtain res w' where pg: "copyNodesPage r cb tot p w = (res, w')"
      by (cases "copyNodesPage r cb tot p w")
    show ?thesis
    proof (cases res)
      case (Inl e)
      then show ?thesis using Suc.prems True pg by (subst copyNodesLoop.simps) simp
    next
      case (Inr p')
      then have "copyNodesLoop_within n r cb tot p' w' = Returned y"
        using Suc.prems True pg by simp
      from Suc.IH [OF this] show ?thesis
        using True pg Inr by (subst copyNodesLoop.simps) simp
    qed
  qed
qed

lemma copyNodesLoop_within_mono:
  "copyNodesLoop_within n r cb tot p w = Returned y \<Longrightarrow> n \<le> j
   \<Longrightarrow> copyNodesLoop_within j r cb tot p w = Returned y"
proof (induction n arbitrary: p w j)
  case 0
  then have "\<not> p < tot" "y = (Inr (), w)" by (simp_all split: if_splits)
  then show ?case by (simp add: copyNodesLoop_within_stop)
next
  case (Suc n)
  then obtain i where j: "j = Suc i" "n \<le> i" by (cases j) simp_all
  show ?case
  proof (cases "p < tot")
    case False
    then show ?thesis using Suc.prems(1) by (simp add: copyNodesLoop_within_stop)
  next
    case True
    obtain res w' where pg: "copyNodesPage r cb tot p w = (res, w')"
      by (cases "copyNodesPage r cb tot p w")
    show ?thesis
    proof (cases res)
      case (Inl e)
      then show ?thesis using Suc.prems(1) True pg j by simp
    next
      case (Inr p')
      then have "copyNodesLoop_within n r cb tot p' w' = Returned y"
        using Suc.prems(1) True pg by simp
      from Suc.IH [OF this j(2)] show ?thesis using True pg Inr j by simp
    qed
  qed
qed

lemma copyNodesLoop_within_complete:
  assumes "copyNodesLoop r cb tot p w = Some y"
  shows "\<exists>n. copyNodesLoop_within n r cb tot p w = Returned y"
  using assms
proof (induction rule: copyNodesLoop_induct)
  case (stop p w)
  then show ?case by (intro exI [of _ 0]) simp
next
  case (throw p w e w')
  then show ?case by (intro exI [of _ "Suc 0"]) simp
next
  case (turn p w p' w' y)
  then obtain n where "copyNodesLoop_within n r cb tot p' w' = Returned y" by blast
  then show ?case using turn(1,2) by (intro exI [of _ "Suc n"]) simp
qed

lemma copyNodesLoop_within_running:
  assumes "copyNodesLoop r cb tot p w = None"
  shows "\<exists>w'. copyNodesLoop_within n r cb tot p w = Running w'"
proof (cases "copyNodesLoop_within n r cb tot p w")
  case (Returned y)
  from copyNodesLoop_within_sound [OF this] show ?thesis using assms by simp
next
  case (Running w')
  then show ?thesis by simp
qed

lemma copyRelationshipsLoop_within_stop:
  "\<not> p < tot \<Longrightarrow> copyRelationshipsLoop_within n r cb tot p w = Returned (Inr (), w)"
  by (cases n) simp_all

lemma copyRelationshipsLoop_within_sound:
  "copyRelationshipsLoop_within n r cb tot p w = Returned y \<Longrightarrow> copyRelationshipsLoop r cb tot p w = Some y"
proof (induction n arbitrary: p w)
  case 0
  then show ?case by (subst copyRelationshipsLoop.simps) (simp split: if_splits)
next
  case (Suc n)
  show ?case
  proof (cases "p < tot")
    case False
    then show ?thesis using Suc.prems by (subst copyRelationshipsLoop.simps) simp
  next
    case True
    obtain res w' where pg: "copyRelationshipsPage r cb tot p w = (res, w')"
      by (cases "copyRelationshipsPage r cb tot p w")
    show ?thesis
    proof (cases res)
      case (Inl e)
      then show ?thesis using Suc.prems True pg by (subst copyRelationshipsLoop.simps) simp
    next
      case (Inr p')
      then have "copyRelationshipsLoop_within n r cb tot p' w' = Returned y"
        using Suc.prems True pg by simp
      from Suc.IH [OF this] show ?thesis
        using True pg Inr by (subst copyRelationshipsLoop.simps) simp
    qed
  qed
qed

lemma copyRelationshipsLoop_within_mono:
  "copyRelationshipsLoop_within n r cb tot p w = Returned y \<Longrightarrow> n \<le> j
   \<Longrightarrow> copyRelationshipsLoop_within j r cb tot p w = Returned y"
proof (induction n arbitrary: p w j)
  case 0
  then have "\<not> p < tot" "y = (Inr (), w)" by (simp_all split: if_splits)
  then show ?case by (simp add: copyRelationshipsLoop_within_stop)
next
  case (Suc n)
  then obtain i where j: "j = Suc i" "n \<le> i" by (cases j) simp_all
  show ?case
  proof (cases "p < tot")
    case False
    then show ?thesis using Suc.prems(1) by (simp add: copyRelationshipsLoop_within_stop)
  next
    case True
    obtain res w' where pg: "copyRelationshipsPage r cb tot p w = (res, w')"
      by (cases "copyRelationshipsPage r cb tot p w")
    show ?thesis
    proof (cases res)
      case (Inl e)
      then show ?thesis using Suc.prems(1) True pg j by simp
    next
      case (Inr p')
      then have "copyRelationshipsLoop_within n r cb tot p' w' = Returned y"
        using Suc.prems(1) True pg by simp
      from Suc.IH [OF this j(2)] show ?thesis using True pg Inr j by simp
    qed
  qed
qed

lemma copyRelationshipsLoop_within_complete:
  assumes "copyRelationshipsLoop r cb tot p w = Some y"
  shows "\<exists>n. copyRelationshipsLoop_within n r cb tot p w = Returned y"
  using assms
proof (induction rule: copyRelationshipsLoop_induct)
  case (stop p w)
  then show ?case by (intro exI [of _ 0]) simp
next
  case (throw p w e w')
  then show ?case by (intro exI [of _ "Suc 0"]) simp
next
  case (turn p w p' w' y)
  then obtain n where "copyRelationshipsLoop_within n r cb tot p' w' = Returned y" by blast
  then show ?case using turn(1,2) by (intro exI [of _ "Suc n"]) simp
qed

lemma copyRelationshipsLoop_within_running:
  assumes "copyRelationshipsLoop r cb tot p w = None"
  shows "\<exists>w'. copyRelationshipsLoop_within n r cb tot p w = Running w'"
proof (cases "copyRelationshipsLoop_within n r cb tot p w")
  case (Returned y)
  from copyRelationshipsLoop_within_sound [OF this] show ?thesis using assms by simp
next
  case (Running w')
  then show ?thesis by simp
qed

lemma copyNodes_within_sound:
  assumes "copyNodes_within n r cb w = Returned y"
  shows "copyNodes r cb w = Some y"
proof -
  let ?w0 = "console Info ''Copying nodes...'' w"
  let ?m = "sourceRun CountNodes (countNodes (sourceDriver r) (trace ?w0)) (openSource ?w0)"
  obtain res w1 where m: "?m = (res, w1)" by (cases ?m)
  show ?thesis
  proof (cases res)
    case (Inl e)
    then show ?thesis using assms m by (simp add: copyNodes_within_def copyNodes_def)
  next
    case (Inr tot)
    then obtain z where z: "copyNodesLoop_within n r cb tot 0 w1 = Returned z"
        and y: "y = finally_do z closeSource"
      using assms m
      by (cases "copyNodesLoop_within n r cb tot 0 w1") (simp_all add: copyNodes_within_def)
    from copyNodesLoop_within_sound [OF z] show ?thesis
      using m Inr y by (simp add: copyNodes_def)
  qed
qed

lemma copyNodes_within_complete:
  assumes "copyNodes r cb w = Some y"
  shows "\<exists>n. \<forall>j\<ge>n. copyNodes_within j r cb w = Returned y"
proof -
  let ?w0 = "console Info ''Copying nodes...'' w"
  let ?m = "sourceRun CountNodes (countNodes (sourceDriver r) (trace ?w0)) (openSource ?w0)"
  obtain res w1 where m: "?m = (res, w1)" by (cases ?m)
  show ?thesis
  proof (cases res)
    case (Inl e)
    then show ?thesis using assms m by (simp add: copyNodes_within_def copyNodes_def)
  next
    case (Inr tot)
    then obtain z where z: "copyNodesLoop r cb tot 0 w1 = Some z"
        and y: "y = finally_do z closeSource"
      using assms m by (cases "copyNodesLoop r cb tot 0 w1") (simp_all add: copyNodes_def)
    from copyNodesLoop_within_complete [OF z]
    obtain n where n: "copyNodesLoop_within n r cb tot 0 w1 = Returned z" by blast
    have "copyNodes_within j r cb w = Returned y" if "n \<le> j" for j
      using copyNodesLoop_within_mono [OF n that] m Inr y by (simp add: copyNodes_within_def)
    then show ?thesis by blast
  qed
qed

lemma copyRelationships_within_sound:
  assumes "copyRelationships_within n r cb w = Returned y"
  shows "copyRelationships r cb w = Some y"
proof -
  let ?w0 = "console Info ''Copying relationships...'' w"
  let ?m = "sourceRun CountRels (countRels (sourceDriver r) (trace ?w0)) (openSource ?w0)"
  obtain res w1 where m: "?m = (res, w1)" by (cases ?m)
  show ?thesis
  proof (cases res)
    case (Inl e)
    then show ?thesis using assms m by (simp add: copyRelationships_within_def copyRelationships_def)
  next
    case (Inr tot)
    then obtain z where z: "copyRelationshipsLoop_within n r cb tot 0 w1 = Returned z"
        and y: "y = finally_do z closeSource"
      using assms m
      by (cases "copyRelationshipsLoop_within n r cb tot 0 w1") (simp_all add: copyRelationships_within_def)
    from copyRelationshipsLoop_within_sound [OF z] show ?thesis
      using m Inr y by (simp add: copyRelationships_def)
  qed
qed

lemma copyRelationships_within_complete:
  assumes "copyRelationships r cb w = Some y"
  shows "\<exists>n. \<forall>j\<ge>n. copyRelationships_within j r cb w = Returned y"
proof -
  let ?w0 = "console Info ''Copying relationships...'' w"
  let ?m = "sourceRun CountRels (countRels (sourceDriver r) (trace ?w0)) (openSource ?w0)"
  obtain res w1 where m: "?m = (res, w1)" by (cases ?m)
  show ?thesis
  proof (cases res)
    case (Inl e)
    then show ?thesis using assms m by (simp add: copyRelationships_within_def copyRelationships_def)
  next
    case (Inr tot)
    then obtain z where z: "copyRelationshipsLoop r cb tot 0 w1 = Some z"
        and y: "y = finally_do z closeSource"
      using assms m by (cases "copyRelationshipsLoop r cb tot 0 w1") (simp_all add: copyRelationships_def)
    from copyRelationshipsLoop_within_complete [OF z]
    obtain n where n: "copyRelationshipsLoop_within n r cb tot 0 w1 = Returned z" by blast
    have "copyRelationships_within j r cb w = Returned y" if "n \<le> j" for j
      using copyRelationshipsLoop_within_mono [OF n that] m Inr y by (simp add: copyRelationships_within_def)
    then show ?thesis by blast
  qed
qed

lemma seq_within_sound:
  assumes "seq_within m k = Returned y"
    and "\<And>z. m = Returned z \<Longrightarrow> m' = Some z"
    and "\<And>x w1. m = Returned (Inr x, w1) \<Longrightarrow> k x w1 = Returned y \<Longrightarrow> k' x w1 = Some y"
  shows "seq m' k' = Some y"
proof (cases m)
  case (Running w)
  then show ?thesis using assms(1) by simp
next
  case (Returned z)
  obtain res w1 where z: "z = (res, w1)" by (cases z)
  have m': "m' = Some (res, w1)" using assms(2) Returned z by simp
  show ?thesis
  proof (cases res)
    case (Inl e)
    then show ?thesis using assms(1) Returned z m' by simp
  next
    case (Inr x)
    then have "k x w1 = Returned y" using assms(1) Returned z by simp
    then have "k' x w1 = Some y" using assms(3) Returned z Inr by simp
    then show ?thesis using m' Inr by simp
  qed
qed

lemma seq_within_complete:
  assumes "seq m' k' = Some y"
    and "\<And>z. m' = Some z \<Longrightarrow> \<exists>n::nat. \<forall>j\<ge>n. M j = Returned z"
    and "\<And>x w1. m' = Some (Inr x, w1) \<Longrightarrow> k' x w1 = Some y
           \<Longrightarrow> \<exists>n. \<forall>j\<ge>n. K j x w1 = Returned y"
  shows "\<exists>n. \<forall>j\<ge>n. seq_within (M j) (K j) = Returned y"
proof (cases m')
  case None
  then show ?thesis using assms(1) by simp
next
  case (Some z)
  obtain res w1 where z: "z = (res, w1)" by (cases z)
  obtain n1 where n1: "\<forall>j\<ge>n1. M j = Returned (res, w1)"
    using assms(2) Some z by blast
  show ?thesis
  proof (cases res)
    case (Inl e)
    then have "y = (Inl e, w1)" using assms(1) Some z by simp
    then have "\<forall>j\<ge>n1. seq_within (M j) (K j) = Returned y" using n1 Inl by simp
    then show ?thesis by blast
  next
    case (Inr x)
    then have "k' x w1 = Some y" using assms(1) Some z by simp
    then obtain n2 where n2: "\<forall>j\<ge>n2. K j x w1 = Returned y"
      using assms(3) Some z Inr by blast
    have "seq_within (M j) (K j) = Returned y" if "max n1 n2 \<le> j" for j
    proof -
      have "M j = Returned (Inr x, w1)" "K j x w1 = Returned y"
        using n1 n2 that Inr by simp_all
      then show ?thesis by simp
    qed
    then show ?thesis by blast
  qed
qed

lemma replicateStages_within_sound:
  assumes "replicateStages_within n r cb w = Returned y"
  shows "replicateStages r cb w = Some y"
  using assms unfolding replicateStages_within_def replicateStages_def
  apply -
  apply (erule seq_within_sound, simp)+
   apply (erule copyNodes_within_sound)
  apply (erule seq_within_sound, simp)+
   apply (erule copyRelationships_within_sound)
  apply (erule seq_within_sound, simp)+
  apply simp
  done

lemma replicateStages_within_complete:
  assumes "replicateStages r cb w = Some y"
  shows "\<exists>n. \<forall>j\<ge>n. replicateStages_within j r cb w = Returned y"
  using assms unfolding replicateStages_within_def replicateStages_def
  apply -
  apply (erule seq_within_complete, simp)+
   apply (erule copyNodes_within_complete)
  apply (erule seq_within_complete, simp)+
   apply (erule copyRelationships_within_complete)
  apply (erule seq_within_complete, simp)+
  apply simp
  done

lemma replicateDatabase_within_sound:
  "replicateDatabase_within n r cb w = Returned y \<Longrightarrow> replicateDatabase r cb w = Some y"
  unfolding replicateDatabase_within_def replicateDatabase_def
  by (cases "replicateStages_within n r cb w")
     (auto dest: replicateStages_within_sound)

lemma replicateDatabase_within_complete:
  assumes "replicateDatabase r cb w = Some y"
  shows "\<exists>n. \<forall>j\<ge>n. replicateDatabase_within j r cb w = Returned y"
proof -
  obtain z where z: "replicateStages r cb w = Some z"
      and y: "y = try_catch z (\<lambda>error w. (Inl error, console_obj Err ''Database replication failed:'' error w))"
    using assms by (auto simp: replicateDatabase_def)
  from replicateStages_within_complete [OF z]
  obtain n where "\<forall>j\<ge>n. replicateStages_within j r cb w = Returned z" by blast
  then have "\<forall>j\<ge>n. replicateDatabase_within j r cb w = Returned y"
    using y by (simp add: replicateDatabase_within_def)
  then show ?thesis by blast
qed

lemma replicateDatabase_within_running:
  assumes "replicateDatabase r cb w = None"
  shows "\<exists>w'. replicateDatabase_within n r cb w = Running w'"
proof (cases "replicateDatabase_within n r cb w")
  case (Returned y)
  from replicateDatabase_within_sound [OF this] show ?thesis using assms by simp
next
  case (Running w')
  then show ?thesis by simp
qed

subsection \<open>What an accepted run has done\<close>

lemma stmt_kind_stage:
  "is_drop_constraint st \<Longrightarrow> stmt_stage st = Clearing"
  "is_drop_index st \<Longrightarrow> stmt_stage st = Clearing"
  "is_create_constraint st \<Longrightarrow> stmt_stage st = Schema"
  "is_create_index st \<Longrightarrow> stmt_stage st = Schema"
  "is_create_nodes st \<Longrightarrow> stmt_stage st = Nodes"
  "is_create_rels st \<Longrightarrow> stmt_stage st = Relationships"
  by (cases st; simp)+

lemma stmt_kind_fixed:
  "is_drop_constraint st \<Longrightarrow> \<not> fixed_stmt st"
  "is_drop_index st \<Longrightarrow> \<not> fixed_stmt st"
  "is_create_constraint st \<Longrightarrow> \<not> fixed_stmt st"
  "is_create_index st \<Longrightarrow> \<not> fixed_stmt st"
  "is_create_nodes st \<Longrightarrow> \<not> fixed_stmt st"
  "is_create_rels st \<Longrightarrow> \<not> fixed_stmt st"
  by (cases st; simp)+

lemma protocol_monitor:
  assumes "protocol (s, k, b) e = Some (s', k', b')"
  shows "monitor (s, b) e = Some (s', b')"
proof (cases e)
  case (SourceRun q)
  then show ?thesis
    using assms by (auto simp: source_step_def split: if_splits)
next
  case (TargetRun st)
  then show ?thesis
    using assms by (auto simp: target_step_def stmt_kind_stage split: if_splits)
next
  case (Observer p)
  then show ?thesis using assms by (auto split: if_splits)
next
  case (Console lvl msg)
  then show ?thesis using assms by simp
next
  case (ConsoleObj lvl msg err)
  then show ?thesis using assms by simp
qed

lemma protocol_run_monitor:
  "protocol_run (s, k, b) evs = Some (s', k', b') \<Longrightarrow> monitor_run (s, b) evs = Some (s', b')"
proof (induction evs arbitrary: s k b)
  case Nil
  then show ?case by simp
next
  case (Cons e evs)
  obtain s1 k1 b1 where m: "protocol (s, k, b) e = Some (s1, k1, b1)"
      and r: "protocol_run (s1, k1, b1) evs = Some (s', k', b')"
    using Cons.prems by (auto split: option.splits)
  show ?case using protocol_monitor [OF m] Cons.IH [OF r] by simp
qed

lemma done_sent:
  assumes "stage_done s k" and "follows s t"
  shows "sent_source s k = sent_source (Some t) 0" "sent_target s k = sent_target (Some t) 0"
proof -
  show "sent_source s k = sent_source (Some t) 0"
  proof (cases s)
    case None
    then show ?thesis using assms by simp
  next
    case (Some u)
    then show ?thesis using assms by (cases u) simp_all
  qed
  show "sent_target s k = sent_target (Some t) 0"
  proof (cases s)
    case None
    then show ?thesis using assms by simp
  next
    case (Some u)
    then show ?thesis using assms by (cases u) simp_all
  qed
qed

lemma protocol_sent_source:
  assumes "protocol (s, k, b) e = Some (s', k', b')"
  shows "sent_source s k @ filter (\<lambda>q. \<not> is_page q) (source_runs [e]) = sent_source s' k'"
proof (cases e)
  case (SourceRun q)
  then show ?thesis
    using assms by (cases q) (auto simp: source_step_def split: if_splits)
next
  case (TargetRun st)
  have same: "sent_source s' k' = sent_source s k" if "s' = s" "s \<noteq> Some Schema \<or> k' = k"
      "s \<noteq> Some Nodes" "s \<noteq> Some Relationships" "s \<noteq> None"
    using that by (cases s; cases "the s") auto
  show ?thesis
    using assms TargetRun
    by (auto simp: target_step_def split: if_splits)
next
  case (Observer p)
  show ?thesis
  proof (cases b)
    case True
    then show ?thesis using assms Observer by (auto split: if_splits)
  next
    case False
    then have "stage_done s k" "follows s (stage p)" "s' = Some (stage p)" "k' = 0"
      using assms Observer by (auto split: if_splits)
    then show ?thesis using done_sent(1) [of s k "stage p"] Observer by simp
  qed
next
  case (Console lvl msg)
  then show ?thesis using assms by simp
next
  case (ConsoleObj lvl msg err)
  then show ?thesis using assms by simp
qed

lemma protocol_sent_target:
  assumes "protocol (s, k, b) e = Some (s', k', b')"
  shows "sent_target s k @ filter fixed_stmt (target_runs [e]) = sent_target s' k'"
proof (cases e)
  case (SourceRun q)
  then show ?thesis
    using assms by (auto simp: source_step_def split: if_splits)
next
  case (TargetRun st)
  then show ?thesis
    using assms
    by (auto simp: target_step_def stmt_kind_fixed split: if_splits)
next
  case (Observer p)
  show ?thesis
  proof (cases b)
    case True
    then show ?thesis using assms Observer by (auto split: if_splits)
  next
    case False
    then have "stage_done s k" "follows s (stage p)" "s' = Some (stage p)" "k' = 0"
      using assms Observer by (auto split: if_splits)
    then show ?thesis using done_sent(2) [of s k "stage p"] Observer by simp
  qed
next
  case (Console lvl msg)
  then show ?thesis using assms by simp
next
  case (ConsoleObj lvl msg err)
  then show ?thesis using assms by simp
qed

lemma protocol_run_sent:
  assumes "protocol_run (s, k, b) evs = Some (s', k', b')"
  shows "sent_source s k @ filter (\<lambda>q. \<not> is_page q) (source_runs evs) = sent_source s' k'"
    and "sent_target s k @ filter fixed_stmt (target_runs evs) = sent_target s' k'"
  using assms
proof (induction evs arbitrary: s k b)
  case Nil
  {
    case 1
    then show ?case by simp
  next
    case 2
    then show ?case by simp
  }
next
  case (Cons e evs)
  {
    case 1
    obtain s1 k1 b1 where m: "protocol (s, k, b) e = Some (s1, k1, b1)"
        and r: "protocol_run (s1, k1, b1) evs = Some (s', k', b')"
      using 1 by (auto split: option.splits)
    have "source_runs (e # evs) = source_runs [e] @ source_runs evs" by (cases e) simp_all
    then show ?case
      using protocol_sent_source [OF m] Cons.IH(1) [OF r] by (simp flip: append_assoc)
  next
    case 2
    obtain s1 k1 b1 where m: "protocol (s, k, b) e = Some (s1, k1, b1)"
        and r: "protocol_run (s1, k1, b1) evs = Some (s', k', b')"
      using 2 by (auto split: option.splits)
    have "target_runs (e # evs) = target_runs [e] @ target_runs evs" by (cases e) simp_all
    then show ?case
      using protocol_sent_target [OF m] Cons.IH(2) [OF r] by (simp flip: append_assoc)
  }
qed

text \<open>Six observer calls and nothing else are not a run.\<close>

lemma protocol_needs_statements:
  "protocol_run (None, 0, False) [Observer p] = None"
  by simp

subsection \<open>Failures are not swallowed\<close>

lemma clean_append:
  "clean r cb h (xs @ ys) \<longleftrightarrow> clean r cb h xs \<and> clean r cb (h @ xs) ys"
  by (induction xs arbitrary: h) auto

lemma clean_harmless: "list_all harmless evs \<Longrightarrow> clean r cb h evs"
proof (induction evs arbitrary: h)
  case Nil
  show ?case by simp
next
  case (Cons e evs)
  then show ?case by (cases e) auto
qed

lemma calmly_refl [simp]: "calmly r cb w w"
  by (simp add: calmly_def)

lemma calmly_trans: "calmly r cb w w1 \<Longrightarrow> calmly r cb w1 w2 \<Longrightarrow> calmly r cb w w2"
  unfolding calmly_def by (elim exE conjE) (auto simp: clean_append)

lemma calmly_harmless: "steps harmless w w' \<Longrightarrow> calmly r cb w w'"
  unfolding steps_def calmly_def by (auto simp: clean_harmless)

lemma calmly_from: "trace w0 = trace w \<Longrightarrow> calmly r cb w0 w' \<Longrightarrow> calmly r cb w w'"
  by (simp add: calmly_def)

lemma calmly_to: "trace w' = trace w0 \<Longrightarrow> calmly r cb w w0 \<Longrightarrow> calmly r cb w w'"
  by (simp add: calmly_def)

lemma calmly_console: "trace w' = trace w @ [Console lvl msg] \<Longrightarrow> calmly r cb w w'"
  by (simp add: calmly_def)

lemma faithful_Inr [simp]: "faithful r cb w (Inr x, w') \<longleftrightarrow> calmly r cb w w'"
  by (simp add: faithful_def)

lemma faithful_Inl [simp]:
  "faithful r cb w (Inl e, w') \<longleftrightarrow> (\<exists>evs. trace w' = trace w @ evs \<and> thrown_by r cb (trace w) evs e)"
  by (simp add: faithful_def)

lemma thrown_by_after:
  assumes "clean r cb h xs" and "thrown_by r cb (h @ xs) ys e"
  shows "thrown_by r cb h (xs @ ys) e"
proof -
  obtain pre ev where "ys = pre @ [ev]" "clean r cb (h @ xs) pre"
      "failure r cb ((h @ xs) @ pre) ev = Some e" "\<not> tolerated ev"
    using assms(2) unfolding thrown_by_def by blast
  then have "xs @ ys = (xs @ pre) @ [ev] \<and> clean r cb h (xs @ pre) \<and>
             failure r cb (h @ (xs @ pre)) ev = Some e \<and> \<not> tolerated ev"
    using assms(1) by (simp add: clean_append)
  then show ?thesis unfolding thrown_by_def by blast
qed

lemma faithful_after:
  assumes "calmly r cb w w1" and "faithful r cb w1 out"
  shows "faithful r cb w out"
proof (cases out rule: conforms_cases)
  case (normal x w')
  then show ?thesis using assms calmly_trans by auto
next
  case (thrown e w')
  obtain xs where xs: "trace w1 = trace w @ xs" "clean r cb (trace w) xs"
    using assms(1) unfolding calmly_def by blast
  obtain ys where ys: "trace w' = trace w1 @ ys" "thrown_by r cb (trace w1) ys e"
    using assms(2) thrown by auto
  have "trace w' = trace w @ (xs @ ys)" using xs(1) ys(1) by simp
  moreover have "thrown_by r cb (trace w) (xs @ ys) e"
    using xs ys(2) by (intro thrown_by_after) simp_all
  ultimately show ?thesis unfolding thrown faithful_Inl by blast
qed

lemma faithful_from: "trace w0 = trace w \<Longrightarrow> faithful r cb w0 out \<Longrightarrow> faithful r cb w out"
  by (cases out rule: conforms_cases) (simp_all add: calmly_def)

lemma faithful_skip_console: "faithful r cb (console lvl msg w) out \<Longrightarrow> faithful r cb w out"
  by (rule faithful_after [of r cb w "console lvl msg w"])
     (rule calmly_console, simp add: console_def)

lemma faithful_then:
  assumes "faithful r cb w m"
    and "\<And>x w1. m = (Inr x, w1) \<Longrightarrow> faithful r cb w1 (k x w1)"
  shows "faithful r cb w (and_then m k)"
proof (cases m rule: conforms_cases)
  case (normal x w1)
  have 1: "calmly r cb w w1" using assms(1) normal by simp
  have "faithful r cb w1 (k x w1)" using assms(2) normal by simp
  with 1 have "faithful r cb w (k x w1)" by (rule faithful_after)
  then show ?thesis using normal by simp
next
  case (thrown e w1)
  then show ?thesis using assms(1) by simp
qed

lemma faithful_finally:
  assumes "faithful r cb w m" and "\<And>w1. trace (f w1) = trace w1"
  shows "faithful r cb w (finally_do m f)"
  using assms by (cases m rule: conforms_cases) (simp_all add: calmly_def)

lemma thrown_by_single:
  "failure r cb h ev = Some e \<Longrightarrow> \<not> tolerated ev \<Longrightarrow> thrown_by r cb h [ev] e"
  unfolding thrown_by_def by (intro exI [of _ "[]"] exI [of _ ev]) simp

lemma faithful_sourceRun:
  assumes "source_error (sourceDriver r) (trace w) q = answer_error ans"
  shows "faithful r cb w (sourceRun q ans w)"
proof (cases ans)
  case (Inl e)
  then have "thrown_by r cb (trace w) [SourceRun q] e"
    using assms by (intro thrown_by_single) simp_all
  then show ?thesis using Inl by (simp add: sourceRun_def)
next
  case (Inr x)
  then show ?thesis using assms by (simp add: sourceRun_def calmly_def)
qed

lemma faithful_targetRun:
  assumes "\<not> tolerated (TargetRun s)"
  shows "faithful r cb w (targetRun r s w)"
proof (cases "targetFault r (trace w) s")
  case None
  then show ?thesis by (simp add: targetRun_def calmly_def)
next
  case (Some e)
  then have "thrown_by r cb (trace w) [TargetRun s] e"
    using assms by (intro thrown_by_single) simp_all
  then show ?thesis using Some by (simp add: targetRun_def)
qed

lemma faithful_harmless:
  assumes "fst out = Inr x" and "steps harmless w (snd out)"
  shows "faithful r cb w out"
  using calmly_harmless [OF assms(2)] assms(1) by (cases out) simp

lemma faithful_notify: "faithful r cb w (notify cb w)"
proof (cases cb)
  case None
  then show ?thesis by (simp add: notify_def)
next
  case (Some f)
  show ?thesis
  proof (cases "f (progress w)")
    case None
    then show ?thesis using Some by (simp add: notify_def calmly_def)
  next
    case e: (Some e)
    then have "thrown_by r cb (trace w) [Observer (progress w)] e"
      using Some by (intro thrown_by_single) simp_all
    then show ?thesis using Some e by (simp add: notify_def)
  qed
qed

lemma faithful_notify_at:
  "trace w0 = trace w \<Longrightarrow> faithful r cb w (notify cb w0)"
  by (rule faithful_from [of w0]) (simp_all add: faithful_notify)

lemma faithful_getTotalCounts: "faithful r cb w (getTotalCounts r w)"
  unfolding getTotalCounts_def
  apply (rule faithful_finally)
   apply (rule faithful_from [of "openSource w"], simp add: openSource_def)
   apply (rule faithful_then)
    apply (rule faithful_sourceRun, simp add: openSource_def)
   apply (rule faithful_then)
    apply (rule faithful_sourceRun, simp)
   apply simp
  apply (simp add: closeSource_def)
  done

lemma faithful_clearTargetDatabase: "faithful r cb w (clearTargetDatabase r w)"
  unfolding clearTargetDatabase_def
  apply (rule faithful_finally)
   apply (rule faithful_skip_console [where lvl = Info and msg = "''Clearing target database...''"])
   apply (rule faithful_from [of "openTarget (console Info ''Clearing target database...'' w)"],
          simp add: openTarget_def)
   apply (rule faithful_then)
    apply (rule faithful_targetRun, simp)
   apply (rule faithful_skip_console [where lvl = Info
            and msg = "''All nodes and relationships deleted''"])
   apply (rule faithful_then)
    apply (rule faithful_targetRun, simp)
   apply (rule faithful_then)
    apply (rule faithful_harmless [OF dropConstraints_returns], rule steps_dropConstraints_gen; simp)
   apply (rule faithful_then)
    apply (rule faithful_targetRun, simp)
   apply (rule faithful_harmless [OF dropIndexes_returns], rule steps_dropIndexes_gen; simp)
  apply (simp add: closeTarget_def)
  done

lemma faithful_copySchema: "faithful r cb w (copySchema r w)"
  unfolding copySchema_def
  apply (rule faithful_finally)
   apply (rule faithful_skip_console [where lvl = Info and msg = "''Copying database schema...''"])
   apply (rule faithful_from
            [of "openTarget (openSource (console Info ''Copying database schema...'' w))"],
          simp add: openTarget_def openSource_def)
   apply (rule faithful_then)
    apply (rule faithful_sourceRun, simp)
   apply (rule faithful_then)
    apply (rule faithful_harmless [OF copyConstraints_returns], rule steps_copyConstraints_gen; simp)
   apply (rule faithful_then)
    apply (rule faithful_sourceRun, simp)
   apply (rule faithful_harmless [OF copyIndexes_returns], rule steps_copyIndexes_gen; simp)
  apply (simp add: closeTarget_def closeSource_def)
  done

lemma faithful_cleanup: "faithful r cb w (cleanup r w)"
  unfolding cleanup_def
  apply (rule faithful_finally)
   apply (rule faithful_skip_console
            [where lvl = Info and msg = "''Cleaning up temporary properties...''"])
   apply (rule faithful_from
            [of "openTarget (console Info ''Cleaning up temporary properties...'' w)"],
          simp add: openTarget_def)
   apply (rule faithful_then)
    apply (rule faithful_targetRun, simp)
   apply (simp add: calmly_console console_def)
  apply (simp add: closeTarget_def)
  done

lemma faithful_createNodeGroups: "faithful r cb w (createNodeGroups r gs w)"
proof (induction gs arbitrary: w)
  case Nil
  show ?case by simp
next
  case (Cons g gs)
  obtain k ns where g: "g = (k, ns)" by (cases g)
  show ?case
    unfolding g createNodeGroups.simps
    by (intro faithful_then faithful_targetRun Cons.IH) simp
qed

lemma faithful_createRelGroups: "faithful r cb w (createRelGroups r gs w)"
proof (induction gs arbitrary: w)
  case Nil
  show ?case by simp
next
  case (Cons g gs)
  obtain k rs where g: "g = (k, rs)" by (cases g)
  show ?case
    unfolding g createRelGroups.simps
    by (intro faithful_then faithful_targetRun Cons.IH) simp
qed

lemma faithful_write_nodes:
  "faithful r cb w (if 0 < length ns then createNodesInTarget r ns w else (Inr (), w))"
proof -
  have "faithful r cb w (createNodesInTarget r ns w)"
    unfolding createNodesInTarget_def
    by (rule faithful_finally, rule faithful_from [of "openTarget w"])
       (simp_all add: openTarget_def closeTarget_def faithful_createNodeGroups)
  then show ?thesis by simp
qed

lemma faithful_write_rels:
  "faithful r cb w (if 0 < length rs then createRelationshipsInTarget r rs w else (Inr (), w))"
proof -
  have "faithful r cb w (createRelationshipsInTarget r rs w)"
    unfolding createRelationshipsInTarget_def
    by (rule faithful_finally, rule faithful_from [of "openTarget w"])
       (simp_all add: openTarget_def closeTarget_def faithful_createRelGroups)
  then show ?thesis by simp
qed

lemma faithful_copyNodesPage:
  "faithful r cb w (copyNodesPage r (Some (nodesCallback cb)) tot p w)"
  unfolding copyNodesPage_def call_opt_simps
  apply (rule faithful_then)
   apply (rule faithful_sourceRun, simp)
  apply (rule faithful_then)
   apply (rule faithful_write_nodes)
  apply (rule faithful_then)
   apply (simp only: nodesCallback_def, rule faithful_notify_at, simp)
  apply (simp add: calmly_console console_def)
  done

lemma faithful_copyRelationshipsPage:
  "faithful r cb w (copyRelationshipsPage r (Some (relsCallback cb)) tot p w)"
  unfolding copyRelationshipsPage_def call_opt_simps
  apply (rule faithful_then)
   apply (rule faithful_sourceRun, simp)
  apply (rule faithful_then)
   apply (rule faithful_write_rels)
  apply (rule faithful_then)
   apply (simp only: relsCallback_def, rule faithful_notify_at, simp)
  apply (simp add: calmly_console console_def)
  done

lemma faithful_within_simps [simp]:
  "faithful_within r cb w (Returned out) \<longleftrightarrow> faithful r cb w out"
  "faithful_within r cb w (Running w') \<longleftrightarrow> calmly r cb w w'"
  by (simp_all add: faithful_within_def)

lemma faithful_within_after:
  assumes "calmly r cb w w1" and "faithful_within r cb w1 m"
  shows "faithful_within r cb w m"
  using assms by (cases m) (auto intro: faithful_after calmly_trans)

lemma faithful_seq_within:
  assumes "faithful_within r cb w m"
    and "\<And>x w1. m = Returned (Inr x, w1) \<Longrightarrow> faithful_within r cb w1 (k x w1)"
  shows "faithful_within r cb w (seq_within m k)"
proof (cases m)
  case (Running w')
  then show ?thesis using assms(1) by simp
next
  case (Returned out)
  show ?thesis
  proof (cases out rule: conforms_cases)
    case (normal x w1)
    have 1: "calmly r cb w w1" using assms(1) Returned normal by simp
    have "faithful_within r cb w1 (k x w1)" using assms(2) Returned normal by simp
    with 1 have "faithful_within r cb w (k x w1)" by (rule faithful_within_after)
    then show ?thesis using Returned normal by simp
  next
    case (thrown e w1)
    then show ?thesis using assms(1) Returned by simp
  qed
qed

lemma faithful_finally_within:
  assumes "faithful_within r cb w m" and "\<And>w1. trace (g w1) = trace w1"
  shows "faithful_within r cb w (after_return (\<lambda>res. finally_do res g) m)"
proof (cases m)
  case (Returned out)
  then have "faithful r cb w out" using assms(1) by simp
  then have "faithful r cb w (finally_do out g)" using assms(2) by (rule faithful_finally)
  then show ?thesis using Returned by simp
next
  case (Running w')
  then show ?thesis using assms(1) by simp
qed

lemma faithful_copyNodesLoop_within:
  "faithful_within r cb w (copyNodesLoop_within n r (Some (nodesCallback cb)) tot p w)"
proof (induction n arbitrary: p w)
  case 0
  show ?case by simp
next
  case (Suc n)
  let ?cb = "Some (nodesCallback cb)"
  show ?case
  proof (cases "p < tot")
    case False
    then show ?thesis by simp
  next
    case True
    have pg: "faithful r cb w (copyNodesPage r ?cb tot p w)" by (rule faithful_copyNodesPage)
    show ?thesis
    proof (cases "copyNodesPage r ?cb tot p w" rule: conforms_cases)
      case (thrown e w')
      then show ?thesis using True pg by simp
    next
      case (normal p' w')
      have "calmly r cb w w'" using pg normal by simp
      then have "faithful_within r cb w (copyNodesLoop_within n r ?cb tot p' w')"
        using Suc.IH by (rule faithful_within_after)
      then show ?thesis using True normal by simp
    qed
  qed
qed

lemma faithful_copyRelationshipsLoop_within:
  "faithful_within r cb w (copyRelationshipsLoop_within n r (Some (relsCallback cb)) tot p w)"
proof (induction n arbitrary: p w)
  case 0
  show ?case by simp
next
  case (Suc n)
  let ?cb = "Some (relsCallback cb)"
  show ?case
  proof (cases "p < tot")
    case False
    then show ?thesis by simp
  next
    case True
    have pg: "faithful r cb w (copyRelationshipsPage r ?cb tot p w)"
      by (rule faithful_copyRelationshipsPage)
    show ?thesis
    proof (cases "copyRelationshipsPage r ?cb tot p w" rule: conforms_cases)
      case (thrown e w')
      then show ?thesis using True pg by simp
    next
      case (normal p' w')
      have "calmly r cb w w'" using pg normal by simp
      then have "faithful_within r cb w (copyRelationshipsLoop_within n r ?cb tot p' w')"
        using Suc.IH by (rule faithful_within_after)
      then show ?thesis using True normal by simp
    qed
  qed
qed

lemma faithful_copyNodes_within:
  "faithful_within r cb w (copyNodes_within n r (Some (nodesCallback cb)) w)"
  unfolding copyNodes_within_def
  apply (rule faithful_finally_within)
   apply (rule faithful_within_after [where ?w1.0 = "openSource (console Info ''Copying nodes...'' w)"])
    apply (rule calmly_console, simp add: openSource_def console_def)
   apply (rule faithful_seq_within)
    apply (simp only: faithful_within_simps, rule faithful_sourceRun,
           simp add: openSource_def console_def)
   apply (rule faithful_copyNodesLoop_within)
  apply (simp add: closeSource_def)
  done

lemma faithful_copyRelationships_within:
  "faithful_within r cb w (copyRelationships_within n r (Some (relsCallback cb)) w)"
  unfolding copyRelationships_within_def
  apply (rule faithful_finally_within)
   apply (rule faithful_within_after
            [where ?w1.0 = "openSource (console Info ''Copying relationships...'' w)"])
    apply (rule calmly_console, simp add: openSource_def console_def)
   apply (rule faithful_seq_within)
    apply (simp only: faithful_within_simps, rule faithful_sourceRun,
           simp add: openSource_def console_def)
   apply (rule faithful_copyRelationshipsLoop_within)
  apply (simp add: closeSource_def)
  done

lemma faithful_replicateStages_within:
  "faithful_within r cb w (replicateStages_within n r cb w)"
  unfolding replicateStages_within_def
  apply (rule faithful_seq_within)
   apply (simp only: faithful_within_simps, rule faithful_skip_console, rule faithful_getTotalCounts)
  apply (rule faithful_seq_within)
   apply (simp only: faithful_within_simps, rule faithful_notify_at, simp)
  apply (rule faithful_seq_within)
   apply (simp only: faithful_within_simps, rule faithful_clearTargetDatabase)
  apply (rule faithful_seq_within)
   apply (simp only: faithful_within_simps, rule faithful_notify_at, simp add: setStage_def)
  apply (rule faithful_seq_within)
   apply (simp only: faithful_within_simps, rule faithful_copySchema)
  apply (rule faithful_seq_within)
   apply (simp only: faithful_within_simps, rule faithful_notify_at, simp add: setStage_def)
  apply (rule faithful_seq_within)
   apply (rule faithful_copyNodes_within)
  apply (rule faithful_seq_within)
   apply (simp only: faithful_within_simps, rule faithful_notify_at, simp add: setStage_def)
  apply (rule faithful_seq_within)
   apply (rule faithful_copyRelationships_within)
  apply (rule faithful_seq_within)
   apply (simp only: faithful_within_simps, rule faithful_notify_at, simp add: setStage_def)
  apply (rule faithful_seq_within)
   apply (simp only: faithful_within_simps, rule faithful_cleanup)
  apply (rule faithful_seq_within)
   apply (simp only: faithful_within_simps, rule faithful_notify_at, simp add: setStage_def)
  apply (simp add: calmly_console console_def)
  done

lemma clean_thrown:
  assumes "thrown_by r cb h evs e"
  shows "\<not> clean r cb h (evs @ rest)"
proof -
  obtain pre ev where "evs = pre @ [ev]" "failure r cb (h @ pre) ev = Some e" "\<not> tolerated ev"
    using assms unfolding thrown_by_def by blast
  then show ?thesis by (simp add: clean_append)
qed

lemma close_released:
  assumes "close r w = (Inr (), w')"
  shows "\<not> sourceDriverOpen w' \<and> \<not> targetDriverOpen w'"
  using assms
  by (auto simp: close_def closeSourceDriver_def closeTargetDriver_def console_def
           split: option.splits)

lemma replicateDatabase_within_cases:
  obtains (running) w' where "replicateStages_within n r cb w = Running w'"
      and "replicateDatabase_within n r cb w = Running w'"
  | (normal) w' where "replicateStages_within n r cb w = Returned (Inr (), w')"
      and "replicateDatabase_within n r cb w = Returned (Inr (), w')"
  | (thrown) e w1 where "replicateStages_within n r cb w = Returned (Inl e, w1)"
      and "replicateDatabase_within n r cb w
             = Returned (Inl e, console_obj Err ''Database replication failed:'' e w1)"
proof (cases "replicateStages_within n r cb w")
  case (Running w')
  then show ?thesis using running by (simp add: replicateDatabase_within_def)
next
  case (Returned out)
  show ?thesis
  proof (cases out rule: conforms_cases)
    case (normal x w')
    then show ?thesis using Returned that(2) by (simp add: replicateDatabase_within_def)
  next
    case (thrown e w1)
    then show ?thesis using Returned that(3) by (simp add: replicateDatabase_within_def)
  qed
qed

subsection \<open>Label-set grouping\<close>

text \<open>
  Claim C5. Two nodes of one batch whose label sets are equal as sets end up in the same
  group of \<open>nodesByLabels\<close>, under the key that joins the sorted labels with commas,
  in whatever order each node lists its labels; and no key occurs twice among the
  groups. A label set is a list without repetition, as the engine's \<open>labels(n)\<close>
  returns it. The group holds the nodes as \<open>sort\<close> left them, with their labels
  sorted in place.
\<close>

theorem same_label_set_same_group:
  assumes "n1 \<in> set batch" "n2 \<in> set batch"
    and "distinct (labels n1)" "distinct (labels n2)"
    and "set (labels n1) = set (labels n2)"
  shows "distinct (map fst (nodesByLabels [] batch)) \<and>
         (\<exists>g. (join '','' (sort (labels n1)), g) \<in> set (nodesByLabels [] batch) \<and>
               sorted_in_place n1 \<in> set g \<and> sorted_in_place n2 \<in> set g)"
proof -
  have d: "distinct (map fst (nodesByLabels [] batch))"
    by (rule nodesByLabels_distinct) simp
  have k: "labelKey n2 = labelKey n1"
    using labelKey_set [OF assms(3-5)] by (rule sym)
  obtain g1 where g1: "(labelKey n1, g1) \<in> set (nodesByLabels [] batch)" "sorted_in_place n1 \<in> set g1"
    using nodesByLabels_member [OF assms(1), of "[]"] by blast
  obtain g2 where g2: "(labelKey n1, g2) \<in> set (nodesByLabels [] batch)" "sorted_in_place n2 \<in> set g2"
    using nodesByLabels_member [OF assms(2), of "[]"] unfolding k by blast
  have "g1 = g2"
    using d g1(1) g2(1) by (rule eq_key_imp_eq_value)
  then show ?thesis using d g1 g2 unfolding labelKey_def by blast
qed

theorem same_label_set_same_group_witness:
  "node_BA \<in> set [node_BA, node_plain, node_AB] \<and> node_AB \<in> set [node_BA, node_plain, node_AB] \<and>
   distinct (labels node_BA) \<and> distinct (labels node_AB) \<and>
   set (labels node_BA) = set (labels node_AB) \<and> labels node_BA \<noteq> labels node_AB \<and>
   distinct (map fst (nodesByLabels [] [node_BA, node_plain, node_AB])) \<and>
   (\<exists>g. (''A,B'', g) \<in> set (nodesByLabels [] [node_BA, node_plain, node_AB]) \<and>
        sorted_in_place node_BA \<in> set g \<and> sorted_in_place node_AB \<in> set g)"
proof -
  have h: "node_BA \<in> set [node_BA, node_plain, node_AB]" "node_AB \<in> set [node_BA, node_plain, node_AB]"
    "distinct (labels node_BA)" "distinct (labels node_AB)"
    "set (labels node_BA) = set (labels node_AB)" "labels node_BA \<noteq> labels node_AB"
    by (auto simp: node_BA_def node_AB_def)
  have s: "join '','' (sort (labels node_BA)) = ''A,B''"
    by (simp add: node_BA_def)
  show ?thesis
    using h same_label_set_same_group [OF h(1-5)] unfolding s by blast
qed

subsection \<open>Count preservation\<close>

text \<open>
  Claim C1 holds of what the program is meant to do and fails on the code for the batch
  size 1. \<open>copyRelationships\<close> limits its pages to \<open>neo4j.int(batchSize / 2)\<close>, which is 0
  for the batch size 1, so every relationship page is empty, \<open>processed\<close> stays 0 and
  the loop asks for the first page for ever. \<open>copyNodes\<close>, the same loop with the limit
  \<open>batchSize\<close>, copies the nodes with the batch size 1. On the graph of two nodes and one
  relationship, with a target that rejects nothing and no observer: the node stage
  alone returns and leaves two nodes in the target, and \<open>replicateDatabase\<close> does not
  return, after any number of turns of its loops it is still running.
\<close>

theorem small_batch_never_returns:
  "wf_graph pair_graph \<and> never_rejects (quiet_replicator pair_graph 1) \<and>
   length (g_nodes pair_graph) = 2 \<and> length (g_rels pair_graph) = 1 \<and>
   batchSize (quiet_replicator pair_graph 1) div 2 = 0 \<and>
   (\<exists>w'. copyNodes (quiet_replicator pair_graph 1) (Some (nodesCallback None)) fresh_world
            = Some (Inr (), w') \<and>
         length (t_nodes (target w')) = 2) \<and>
   copyRelationships (quiet_replicator pair_graph 1) (Some (relsCallback None)) fresh_world = None \<and>
   replicateDatabase (quiet_replicator pair_graph 1) None fresh_world = None \<and>
   (\<forall>n. \<exists>w'. replicateDatabase_within n (quiet_replicator pair_graph 1) None fresh_world
            = Running w')"
proof -
  let ?r = "quiet_replicator pair_graph 1"
  have n: "g_nodes pair_graph \<noteq> []" "g_rels pair_graph \<noteq> []"
    "length (g_nodes pair_graph) = 2" "length (g_rels pair_graph) = 1"
    by (simp_all add: pair_graph_def)
  have stages: "replicateStages ?r None fresh_world = None"
    by (rule replicateStages_hangs_rels [of _ pair_graph]) (simp_all add: n)
  then have run: "replicateDatabase ?r None fresh_world = None"
    by (simp add: replicateDatabase_def)
  have rels: "copyRelationships ?r (Some (relsCallback None)) fresh_world = None"
    by (rule copyRelationships_hangs [of _ pair_graph]) (simp_all add: n)
  obtain w' where w': "copyNodes ?r (Some (nodesCallback None)) fresh_world = Some (Inr (), w')"
    and c: "mset (map snd (content (target w')))
              = mset (map snd (content (target fresh_world))) + mset (map node_props (g_nodes pair_graph))"
    using copyNodes_ok [of ?r pair_graph None fresh_world] by auto
  have "size (mset (map snd (content (target w')))) = 2"
    unfolding c by (simp add: n content_def fresh_world_def empty_db_def)
  then have len: "length (t_nodes (target w')) = 2"
    by (simp add: content_def)
  have nodes: "\<exists>w'. copyNodes ?r (Some (nodesCallback None)) fresh_world = Some (Inr (), w') \<and>
                    length (t_nodes (target w')) = 2"
    using w' len by blast
  have still: "\<forall>n. \<exists>w'. replicateDatabase_within n ?r None fresh_world = Running w'"
    using replicateDatabase_within_running [OF run] by blast
  show ?thesis
    using n(3,4) nodes rels run still by simp
qed

text \<open>
  For comparison, the batch sizes from 2 on. Let the source hold a fixed graph that it
  enumerates in a stable order, with unique node identifiers and every relationship
  between nodes of the graph; let the target reject no statement and the observer (if
  any) not throw. Then \<open>replicateDatabase\<close> returns normally, whatever the target held
  before, the target then has as many nodes and as many relationships as the source,
  and no target node has the property \<open>source_id\<close>. The node count rests on the reading
  of a label clause as names separated by colons, so it is about sources whose labels
  are names.
\<close>

lemma counts_from_batch_two:
  assumes "sourceDriver r = static_source g" and "wf_graph g" and "never_rejects r"
    and "calm progressCallback" and "2 \<le> batchSize r"
  shows "\<exists>w'. replicateDatabase r progressCallback w = Some (Inr (), w') \<and>
           length (t_nodes (target w')) = length (g_nodes g) \<and>
           length (t_rels (target w')) = length (g_rels g) \<and>
           (\<forall>n \<in> set (t_nodes (target w')). map_of (t_props n) ''source_id'' = None) \<and>
           mset (map t_props (t_nodes (target w')))
             = mset (map (\<lambda>n. AList.delete ''source_id'' (properties n)) (g_nodes g))"
proof -
  obtain w' where run: "replicateStages r progressCallback w = Some (Inr (), w')"
    and props: "mset (map t_props (t_nodes (target w')))
                  = mset (map (\<lambda>n. AList.delete ''source_id'' (properties n)) (g_nodes g))"
    and rels: "length (t_rels (target w')) = length (g_rels g)"
    using replicateStages_ok [OF assms] by blast
  have "replicateDatabase r progressCallback w = Some (Inr (), w')"
    by (simp add: replicateDatabase_def run)
  moreover have "length (t_nodes (target w')) = length (g_nodes g)"
    using mset_eq_length [OF props] by simp
  moreover have "map_of (t_props n) ''source_id'' = None" if "n \<in> set (t_nodes (target w'))" for n
  proof -
    have "t_props n \<in># mset (map t_props (t_nodes (target w')))" using that by simp
    then have "t_props n \<in> set (map (\<lambda>n. AList.delete ''source_id'' (properties n)) (g_nodes g))"
      unfolding props by simp
    then obtain m :: NodeData where "t_props n = AList.delete ''source_id'' (properties m)"
      by auto
    then show ?thesis by (simp add: delete_conv)
  qed
  ultimately show ?thesis using rels props by blast
qed

subsection \<open>The order of the stages and the observer\<close>



subsection \<open>The schema stage\<close>

text \<open>
  Claim C3. When the source lists its constraints and indexes, \<open>copySchema\<close> returns
  normally whatever the target rejects. Every row that has a statement gets that
  statement sent to the target during the stage, whichever other rows failed. In the
  events of the stage, every statement that the target rejected is followed at once by
  the line the stage logs for it: with one of the codes for "already exists" a line at
  the information level that the constraint or index exists, with any other error a
  warning with the name and the message of the error; the next row comes after that
  line. The target after the stage is what the accepted statements, in their order,
  made of the target before the stage: a rejected row changed nothing.
\<close>

theorem schema_stage_tolerates_item_failures:
  assumes "showConstraints (sourceDriver r) = Inr cs" and "showIndexes (sourceDriver r) = Inr ixs"
  shows "fst (copySchema r w) = Inr () \<and>
    (\<forall>c \<in> set cs. constraintStatement c \<noteq> [] \<longrightarrow>
        TargetRun (CreateConstraint (c_name c) (constraintStatement c))
          \<in> set (drop (length (trace w)) (trace (snd (copySchema r w))))) \<and>
    (\<forall>ix \<in> set ixs. indexStatement ix \<noteq> [] \<longrightarrow>
        TargetRun (CreateIndex (i_name ix) (indexStatement ix))
          \<in> set (drop (length (trace w)) (trace (snd (copySchema r w))))) \<and>
    (\<exists>evs. trace (snd (copySchema r w)) = trace w @ evs \<and>
       (\<forall>pre s post e.
           evs = pre @ TargetRun s # post \<and> targetFault r (trace w @ pre) s = Some e \<longrightarrow>
           (\<exists>ev post'. reaction s e = Some ev \<and> post = ev # post')) \<and>
       target (snd (copySchema r w)) = replay (accepted r (trace w) evs) (target w))"
proof -
  have a: "fst (copySchema r w) = Inr ()"
    by (rule copySchema_sends(3) [OF assms])
  have b: "\<forall>c \<in> set cs. constraintStatement c \<noteq> [] \<longrightarrow>
        TargetRun (CreateConstraint (c_name c) (constraintStatement c))
          \<in> set (drop (length (trace w)) (trace (snd (copySchema r w))))"
    using copySchema_sends(1) [OF assms] by blast
  have c: "\<forall>ix \<in> set ixs. indexStatement ix \<noteq> [] \<longrightarrow>
        TargetRun (CreateIndex (i_name ix) (indexStatement ix))
          \<in> set (drop (length (trace w)) (trace (snd (copySchema r w))))"
    using copySchema_sends(2) [OF assms] by blast
  obtain evs where evs: "trace (snd (copySchema r w)) = trace w @ evs"
      "logged_after r (trace w) evs"
      "target (snd (copySchema r w)) = replay (accepted r (trace w) evs) (target w)"
    using schema_run_copySchema [OF assms, of w] unfolding schema_run_def by blast
  have q: "list_all (quiet (Some Schema)) evs"
    using steps_copySchema [of w r] evs(1) by (simp add: steps_def)
  have d: "\<exists>ev post'. reaction s e = Some ev \<and> post = ev # post'"
    if "evs = pre @ TargetRun s # post \<and> targetFault r (trace w @ pre) s = Some e"
    for pre s post e
  proof -
    have "quiet (Some Schema) (TargetRun s)" using q that by (simp add: list_all_iff)
    then have "stmt_stage s = Schema" by simp
    then obtain ev where ev: "reaction s e = Some ev" using schema_stmt_reaction by blast
    from logged_afterD [OF evs(2) _ _ ev] that obtain post' where "post = ev # post'" by blast
    with ev show ?thesis by blast
  qed
  have e: "\<exists>evs. trace (snd (copySchema r w)) = trace w @ evs \<and>
       (\<forall>pre s post e.
           evs = pre @ TargetRun s # post \<and> targetFault r (trace w @ pre) s = Some e \<longrightarrow>
           (\<exists>ev post'. reaction s e = Some ev \<and> post = ev # post')) \<and>
       target (snd (copySchema r w)) = replay (accepted r (trace w) evs) (target w)"
    using evs(1,3) d by (intro exI [of _ evs]) blast
  show ?thesis by (intro conjI a b c e)
qed

theorem schema_stage_tolerates_item_failures_witness:
  "showConstraints (sourceDriver (rejecting_replicator schema_graph 1000)) = Inr [unique_person] \<and>
   showIndexes (sourceDriver (rejecting_replicator schema_graph 1000))
     = Inr [range_index, btree_no_label, btree_index] \<and>
   fst (copySchema (rejecting_replicator schema_graph 1000) fresh_world) = Inr () \<and>
   trace (snd (copySchema (rejecting_replicator schema_graph 1000) fresh_world))
     = [Console Info ''Copying database schema...'',
        SourceRun SrcShowConstraints,
        TargetRun (CreateConstraint ''person_id''
          ''CREATE CONSTRAINT person_id FOR (n:Person) REQUIRE (n.id) IS UNIQUE''),
        Console Info ''Constraint person_id already exists, skipping'',
        SourceRun SrcShowIndexes,
        Console Warn ''Skipped unsupported index type: RANGE for idx_range'',
        Console Warn ''Skipped unsupported index type: BTREE for idx_bare'',
        TargetRun (CreateIndex ''idx_name'' ''CREATE INDEX idx_name FOR (n:Person) ON (n.name, n.age)''),
        Console Warn ''Failed to create index idx_name: no space''] \<and>
   reaction (CreateConstraint ''person_id''
               ''CREATE CONSTRAINT person_id FOR (n:Person) REQUIRE (n.id) IS UNIQUE'')
            already_exists
     = Some (Console Info ''Constraint person_id already exists, skipping'') \<and>
   reaction (CreateIndex ''idx_name'' ''CREATE INDEX idx_name FOR (n:Person) ON (n.name, n.age)'')
            disk_full
     = Some (Console Warn ''Failed to create index idx_name: no space'') \<and>
   target (snd (copySchema (rejecting_replicator schema_graph 1000) fresh_world)) = empty_db"
proof -
  let ?r = "rejecting_replicator schema_graph 1000"
  let ?evs = "[Console Info ''Copying database schema...'',
        SourceRun SrcShowConstraints,
        TargetRun (CreateConstraint ''person_id''
          ''CREATE CONSTRAINT person_id FOR (n:Person) REQUIRE (n.id) IS UNIQUE''),
        Console Info ''Constraint person_id already exists, skipping'',
        SourceRun SrcShowIndexes,
        Console Warn ''Skipped unsupported index type: RANGE for idx_range'',
        Console Warn ''Skipped unsupported index type: BTREE for idx_bare'',
        TargetRun (CreateIndex ''idx_name'' ''CREATE INDEX idx_name FOR (n:Person) ON (n.name, n.age)''),
        Console Warn ''Failed to create index idx_name: no space'']"
  have h: "showConstraints (sourceDriver ?r) = Inr [unique_person]"
    "showIndexes (sourceDriver ?r) = Inr [range_index, btree_no_label, btree_index]"
    by (simp_all add: rejecting_replicator_def static_source_def schema_graph_def)
  have f: "targetFault ?r hist (CreateConstraint n t) = Some already_exists"
    "targetFault ?r hist (CreateIndex n t) = Some disk_full" for hist n t
    by (simp_all add: rejecting_replicator_def)
  have n: "c_name unique_person = ''person_id''" "i_name btree_index = ''idx_name''"
    "i_name range_index = ''idx_range''" "i_name btree_no_label = ''idx_bare''"
    "i_type range_index = ''RANGE''" "i_type btree_no_label = ''BTREE''"
    "trace fresh_world = []" "target fresh_world = empty_db"
    "code already_exists = Some ''Neo.ClientError.Schema.ConstraintAlreadyExists''"
    "code disk_full = Some ''Neo.TransientError.General.OutOfMemoryError''"
    "message disk_full = ''no space''"
    by (simp_all add: unique_person_def btree_index_def range_index_def btree_no_label_def
          fresh_world_def already_exists_def disk_full_def)
  have tr: "trace (snd (copySchema ?r fresh_world)) = ?evs"
    unfolding copySchema_unfold [OF h]
    by (simp add: tryConstraint_def tryIndex_def catchConstraint_def catchIndex_def Let_def
          example_statements n f targetRun_def sourceRun_def console_def openSource_def
          openTarget_def closeSource_def closeTarget_def)
  note t = schema_stage_tolerates_item_failures [OF h, of fresh_world]
  from t have a: "fst (copySchema ?r fresh_world) = Inr ()" by (rule conjunct1)
  from t obtain evs where evs: "trace (snd (copySchema ?r fresh_world)) = trace fresh_world @ evs"
      "target (snd (copySchema ?r fresh_world))
         = replay (accepted ?r (trace fresh_world) evs) (target fresh_world)"
    by blast
  have "evs = ?evs" using evs(1) tr n by simp
  then have tg: "target (snd (copySchema ?r fresh_world)) = empty_db"
    using evs(2) by (simp add: n f)
  show ?thesis
    using h a tr tg by (simp add: n)
qed

subsection \<open>Batch boundaries\<close>

text \<open>
  Claim C4. With \<open>batchSize = 2\<close>, a source that holds exactly five nodes, a target that
  rejects nothing and an observer that does not throw, \<open>copyNodes\<close> returns normally;
  after the count it sends exactly three page statements, \<open>SKIP 0\<close>, \<open>SKIP 2\<close> and
  \<open>SKIP 4\<close>, each with \<open>LIMIT 2\<close>, to which the source returns 2, 2 and 1 nodes; and the observer is
  called three times, with the processed counts 2, 4 and 5 in that order.
\<close>

theorem five_nodes_in_batches_of_two:
  assumes "sourceDriver r = static_source g" and "length (g_nodes g) = 5"
    and "batchSize r = 2" and "never_rejects r" and "\<forall>p. f p = None"
  shows "\<exists>w' evs. copyNodes r (Some (nodesCallback (Some f))) w = Some (Inr (), w') \<and>
           trace w' = trace w @ evs \<and>
           source_runs evs = [CountNodes, PageNodes 0 2, PageNodes 2 2, PageNodes 4 2] \<and>
           fetches (sourceDriver r) (trace w) evs = [2, 2, 1] \<and>
           map processedNodes (observed evs) = [2, 4, 5]"
proof -
  let ?cb = "Some (nodesCallback (Some f))"
  let ?w0 = "openSource (console Info ''Copying nodes...'' w)"
  let ?w1 = "?w0\<lparr>trace := trace ?w0 @ [SourceRun CountNodes]\<rparr>"
  have n: "length (take (batchSize r) (drop 0 (g_nodes g))) = 2"
    "length (take (batchSize r) (drop 2 (g_nodes g))) = 2"
    "length (take (batchSize r) (drop 4 (g_nodes g))) = 1"
    by (simp_all add: assms(2,3))
  obtain w2 e2 where w2: "copyNodesPage r ?cb 5 0 ?w1 = (Inr (0 + 2), w2)"
      "trace w2 = trace ?w1 @ e2" "source_runs e2 = [PageNodes 0 (batchSize r)]"
      "map processedNodes (observed e2) = [0 + 2]"
    using copyNodesPage_trace [OF assms(1,4,5) n(1), of 5 ?w1] by (elim exE conjE) (rule that)
  obtain w3 e3 where w3: "copyNodesPage r ?cb 5 2 w2 = (Inr (2 + 2), w3)"
      "trace w3 = trace w2 @ e3" "source_runs e3 = [PageNodes 2 (batchSize r)]"
      "map processedNodes (observed e3) = [2 + 2]"
    using copyNodesPage_trace [OF assms(1,4,5) n(2), of 5 w2] by (elim exE conjE) (rule that)
  obtain w4 e4 where w4: "copyNodesPage r ?cb 5 4 w3 = (Inr (4 + 1), w4)"
      "trace w4 = trace w3 @ e4" "source_runs e4 = [PageNodes 4 (batchSize r)]"
      "map processedNodes (observed e4) = [4 + 1]"
    using copyNodesPage_trace [OF assms(1,4,5) n(3), of 5 w3] by (elim exE conjE) (rule that)
  have p2: "copyNodesPage r ?cb 5 0 ?w1 = (Inr 2, w2)" using w2(1) by simp
  have p3: "copyNodesPage r ?cb 5 2 w2 = (Inr 4, w3)" using w3(1) by simp
  have p4: "copyNodesPage r ?cb 5 4 w3 = (Inr 5, w4)" using w4(1) by simp
  have l4: "copyNodesLoop r ?cb 5 5 w4 = Some (Inr (), w4)"
    by (subst copyNodesLoop.simps) simp
  have l3: "copyNodesLoop r ?cb 5 4 w3 = Some (Inr (), w4)"
    by (subst copyNodesLoop.simps) (simp add: p4 l4)
  have l2: "copyNodesLoop r ?cb 5 2 w2 = Some (Inr (), w4)"
    by (subst copyNodesLoop.simps) (simp add: p3 l3)
  have l1: "copyNodesLoop r ?cb 5 0 ?w1 = Some (Inr (), w4)"
    by (subst copyNodesLoop.simps) (simp add: p2 l2)
  have run: "copyNodes r ?cb w = Some (Inr (), closeSource w4)"
    by (simp add: copyNodes_def assms(1,2) sourceRun_def l1)
  let ?evs = "[Console Info ''Copying nodes...'', SourceRun CountNodes] @ e2 @ e3 @ e4"
  have tr: "trace (closeSource w4) = trace w @ ?evs"
    by (simp add: closeSource_def w4(2) w3(2) w2(2) openSource_def console_def)
  have sr: "source_runs ?evs = [CountNodes, PageNodes 0 2, PageNodes 2 2, PageNodes 4 2]"
    by (simp add: w2(3) w3(3) w4(3) assms(3))
  have ob: "map processedNodes (observed ?evs) = [2, 4, 5]"
    using w2(4) w3(4) w4(4) by simp
  have ft: "fetches (sourceDriver r) (trace w) ?evs = [2, 2, 1]"
    unfolding assms(1) fetches_static sr by (simp add: assms(2))
  show ?thesis
    by (intro exI [of _ "closeSource w4"] exI [of _ ?evs] conjI run tr sr ft ob)
qed

theorem five_nodes_in_batches_of_two_witness:
  "sourceDriver (quiet_replicator five_graph 2) = static_source five_graph \<and>
   length (g_nodes five_graph) = 5 \<and> batchSize (quiet_replicator five_graph 2) = 2 \<and>
   never_rejects (quiet_replicator five_graph 2) \<and>
   (\<exists>w' evs. copyNodes (quiet_replicator five_graph 2) (Some (nodesCallback (Some (\<lambda>p. None))))
                fresh_world = Some (Inr (), w') \<and>
           trace w' = evs \<and>
           source_runs evs = [CountNodes, PageNodes 0 2, PageNodes 2 2, PageNodes 4 2] \<and>
           fetches (static_source five_graph) [] evs = [2, 2, 1] \<and>
           map processedNodes (observed evs) = [2, 4, 5])"
proof -
  have h: "sourceDriver (quiet_replicator five_graph 2) = static_source five_graph"
    "length (g_nodes five_graph) = 5" "batchSize (quiet_replicator five_graph 2) = 2"
    "never_rejects (quiet_replicator five_graph 2)" "\<forall>p. (\<lambda>p. None :: js_error option) p = None"
    by (simp_all add: five_graph_def)
  have t: "trace fresh_world = []" by (simp add: fresh_world_def)
  from five_nodes_in_batches_of_two [OF h, of fresh_world]
  have "\<exists>w' evs. copyNodes (quiet_replicator five_graph 2) (Some (nodesCallback (Some (\<lambda>p. None))))
                fresh_world = Some (Inr (), w') \<and>
           trace w' = evs \<and>
           source_runs evs = [CountNodes, PageNodes 0 2, PageNodes 2 2, PageNodes 4 2] \<and>
           fetches (static_source five_graph) [] evs = [2, 2, 1] \<and>
           map processedNodes (observed evs) = [2, 4, 5]"
    unfolding t h(1) append_Nil .
  then show ?thesis
    by (intro conjI h(1-4))
qed

subsection \<open>Plain property indexes\<close>

text \<open>
  Claim C6, as stated, fails. \<open>copySchema\<close> recognises the index types \<open>BTREE\<close>,
  \<open>TEXT\<close> and \<open>FULLTEXT\<close>. An index that the source reports with the type \<open>RANGE\<close>
  gets no statement: the row is logged as an unsupported index type and nothing is
  sent to the target for it. The same happens to a \<open>BTREE\<close> row without a label. On
  the source with the rows \<open>range_index\<close>, \<open>btree_no_label\<close> and \<open>btree_index\<close> the
  stage sends one index statement, the one for \<open>btree_index\<close>.
\<close>

theorem range_index_is_skipped:
  "i_type range_index = ''RANGE'' \<and> indexStatement range_index = [] \<and>
   try_catch (tryIndex (quiet_replicator schema_graph 1000) range_index fresh_world)
             (catchIndex range_index)
     = (Inr (), console Warn ''Skipped unsupported index type: RANGE for idx_range'' fresh_world) \<and>
   i_type btree_no_label = ''BTREE'' \<and> indexStatement btree_no_label = [] \<and>
   try_catch (tryIndex (quiet_replicator schema_graph 1000) btree_no_label fresh_world)
             (catchIndex btree_no_label)
     = (Inr (), console Warn ''Skipped unsupported index type: BTREE for idx_bare'' fresh_world) \<and>
   target_runs (trace (snd (copySchema (quiet_replicator schema_graph 1000) fresh_world)))
     = [CreateConstraint ''person_id''
          ''CREATE CONSTRAINT person_id FOR (n:Person) REQUIRE (n.id) IS UNIQUE'',
        CreateIndex ''idx_name'' ''CREATE INDEX idx_name FOR (n:Person) ON (n.name, n.age)'']"
proof -
  let ?r = "quiet_replicator schema_graph 1000"
  have n: "i_type range_index = ''RANGE''" "i_name range_index = ''idx_range''"
    "i_type btree_no_label = ''BTREE''" "i_name btree_no_label = ''idx_bare''"
    "i_type btree_index = ''BTREE''" "i_name btree_index = ''idx_name''"
    "c_type unique_person = ''UNIQUENESS''" "c_name unique_person = ''person_id''"
    by (simp_all add: range_index_def btree_no_label_def btree_index_def unique_person_def)
  have a: "try_catch (tryIndex ?r range_index w) (catchIndex range_index)
             = (Inr (), console Warn ''Skipped unsupported index type: RANGE for idx_range'' w)" for w
    by (simp add: tryIndex_def example_statements n)
  have b: "try_catch (tryIndex ?r btree_no_label w) (catchIndex btree_no_label)
             = (Inr (), console Warn ''Skipped unsupported index type: BTREE for idx_bare'' w)" for w
    by (simp add: tryIndex_def example_statements n)
  have c: "try_catch (tryIndex ?r btree_index w) (catchIndex btree_index)
             = (Inr (), console Info ''Created index: idx_name (BTREE)''
                  (w\<lparr> trace := trace w @ [TargetRun (CreateIndex ''idx_name''
                            ''CREATE INDEX idx_name FOR (n:Person) ON (n.name, n.age)'')],
                       target := apply_stmt (CreateIndex ''idx_name''
                            ''CREATE INDEX idx_name FOR (n:Person) ON (n.name, n.age)'') (target w) \<rparr>))" for w
    by (simp add: tryIndex_def example_statements n targetRun_ok [OF never_rejects_quiet])
  have d: "try_catch (tryConstraint ?r unique_person w) (catchConstraint unique_person)
             = (Inr (), console Info ''Created constraint: person_id (UNIQUENESS)''
                  (w\<lparr> trace := trace w @ [TargetRun (CreateConstraint ''person_id''
                            ''CREATE CONSTRAINT person_id FOR (n:Person) REQUIRE (n.id) IS UNIQUE'')],
                       target := apply_stmt (CreateConstraint ''person_id''
                            ''CREATE CONSTRAINT person_id FOR (n:Person) REQUIRE (n.id) IS UNIQUE'')
                            (target w) \<rparr>))" for w
    by (simp add: tryConstraint_def example_statements n targetRun_ok [OF never_rejects_quiet])
  have s: "showConstraints (sourceDriver ?r) = Inr [unique_person]"
    "showIndexes (sourceDriver ?r) = Inr [range_index, btree_no_label, btree_index]"
    by (simp_all add: quiet_replicator_def static_source_def schema_graph_def)
  have "target_runs (trace (snd (copySchema ?r fresh_world)))
     = [CreateConstraint ''person_id''
          ''CREATE CONSTRAINT person_id FOR (n:Person) REQUIRE (n.id) IS UNIQUE'',
        CreateIndex ''idx_name'' ''CREATE INDEX idx_name FOR (n:Person) ON (n.name, n.age)'']"
    unfolding copySchema_unfold [OF s]
    by (simp add: a b c d sourceRun_def console_def openSource_def openTarget_def closeSource_def
          closeTarget_def fresh_world_def)
  then show ?thesis
    using n a [of fresh_world] b [of fresh_world] by (simp add: example_statements)
qed

text \<open>
  Claim C6, amended. For every index row of the source whose type is \<open>BTREE\<close> and whose
  list of labels or types starts with a non-empty name, \<open>copySchema\<close> builds the plain
  index statement \<^verbatim>\<open>CREATE INDEX <name> FOR (n:<first label>) ON (n.p1, ..., n.pk)\<close> and sends
  it to the target during the stage.
\<close>

theorem btree_index_is_created:
  assumes "showConstraints (sourceDriver r) = Inr cs" and "showIndexes (sourceDriver r) = Inr ixs"
    and "ix \<in> set ixs" and "i_type ix = ''BTREE''"
    and "i_labelsOrTypes ix = l # ls" and "l \<noteq> []"
  shows "indexStatement ix =
           ''CREATE INDEX '' @ i_name ix @ '' FOR (n:'' @ l @ '') ON (''
             @ join '', '' (map (\<lambda>p. ''n.'' @ p) (i_properties ix)) @ '')'' \<and>
         TargetRun (CreateIndex (i_name ix) (indexStatement ix))
           \<in> set (drop (length (trace w)) (trace (snd (copySchema r w))))"
proof -
  have st: "indexStatement ix =
           ''CREATE INDEX '' @ i_name ix @ '' FOR (n:'' @ l @ '') ON (''
             @ join '', '' (map (\<lambda>p. ''n.'' @ p) (i_properties ix)) @ '')''"
  proof -
    have e: "(@) ''n.'' = (\<lambda>p. CHR ''n'' # CHR ''.'' # p)" by (rule ext) simp
    show ?thesis using assms(4-6) by (simp add: indexStatement_def e)
  qed
  then have "indexStatement ix \<noteq> []" by simp
  with assms(3) have "TargetRun (CreateIndex (i_name ix) (indexStatement ix))
           \<in> set (drop (length (trace w)) (trace (snd (copySchema r w))))"
    by (rule copySchema_sends(2) [OF assms(1,2)])
  with st show ?thesis by simp
qed

theorem btree_index_is_created_witness:
  "showConstraints (sourceDriver (rejecting_replicator schema_graph 1000)) = Inr [unique_person] \<and>
   showIndexes (sourceDriver (rejecting_replicator schema_graph 1000))
     = Inr [range_index, btree_no_label, btree_index] \<and>
   btree_index \<in> set [range_index, btree_no_label, btree_index] \<and>
   i_type btree_index = ''BTREE'' \<and> i_labelsOrTypes btree_index = [''Person''] \<and>
   indexStatement btree_index = ''CREATE INDEX idx_name FOR (n:Person) ON (n.name, n.age)'' \<and>
   TargetRun (CreateIndex ''idx_name'' ''CREATE INDEX idx_name FOR (n:Person) ON (n.name, n.age)'')
     \<in> set (trace (snd (copySchema (rejecting_replicator schema_graph 1000) fresh_world)))"
proof -
  let ?r = "rejecting_replicator schema_graph 1000"
  have h: "showConstraints (sourceDriver ?r) = Inr [unique_person]"
    "showIndexes (sourceDriver ?r) = Inr [range_index, btree_no_label, btree_index]"
    "btree_index \<in> set [range_index, btree_no_label, btree_index]"
    "i_type btree_index = ''BTREE''" "i_labelsOrTypes btree_index = [''Person'']"
    "''Person'' \<noteq> []"
    by (simp_all add: rejecting_replicator_def static_source_def schema_graph_def btree_index_def)
  have n: "i_name btree_index = ''idx_name''" "trace fresh_world = []"
    by (simp_all add: btree_index_def fresh_world_def)
  from btree_index_is_created [OF h, of fresh_world]
  show ?thesis
    using h by (simp add: n example_statements)
qed

subsection \<open>Failures and the connections\<close>




subsection \<open>Nodes without labels\<close>

lemma clause_of_empty_key [simp]: "labelClause [] = []" "clause_labels [] = []"
  by (simp_all add: labelClause_def keyLabels_def clause_labels_def)

lemma labelKey_no_labels: "labels node = [] \<Longrightarrow> labelKey node = [] \<and> sorted_in_place node = node"
  by (simp add: labelKey_def sorted_in_place_def)

text \<open>
  Claim C8. A node of the batch with no label is put into the group of the empty key,
  as it came; the statement issued for that group has the empty label clause, that is
  \<^verbatim>\<open>CREATE (n)\<close>; and when the target rejects nothing, \<open>createNodesInTarget\<close> returns
  normally and the target then holds a node with no label that carries the node's
  properties and its \<open>source_id\<close>.
\<close>

theorem unlabeled_node_is_created:
  assumes "never_rejects r" and "node \<in> set nodesData" and "labels node = []"
  shows "\<exists>w' g. createNodesInTarget r nodesData w = (Inr (), w') \<and>
           ([], g) \<in> set (nodesByLabels [] nodesData) \<and> node \<in> set g \<and>
           labelClause [] = [] \<and>
           TargetRun (UnwindCreateNodes [] g) \<in> set (drop (length (trace w)) (trace w')) \<and>
           ([], AList.update ''source_id'' (PNum (nodeId node)) (properties node))
             \<in> set (content (target w'))"
proof -
  let ?gs = "nodesByLabels [] nodesData"
  obtain g where g: "([], g) \<in> set ?gs" "node \<in> set g"
    using nodesByLabels_member [OF assms(2), of "[]"] labelKey_no_labels [OF assms(3)] by auto
  have ev: "TargetRun (UnwindCreateNodes [] g) \<in> set (node_group_events ?gs)"
    using g(1) by (force simp: node_group_events_def)
  have "([], node_props node) \<in> set (concat (map (\<lambda>(k, ns).
          map (\<lambda>n. (clause_labels (labelClause k), node_props n)) ns) ?gs))"
    using g by force
  then have c: "([], node_props node) \<in> set (content (create_groups ?gs (target w)))"
    by (simp add: content_create_groups)
  show ?thesis
    using g ev c by (auto simp: createNodesInTarget_ok [OF assms(1)] node_props_def)
qed

theorem unlabeled_node_is_created_witness:
  "never_rejects (quiet_replicator \<lparr> g_nodes = [], g_rels = [], g_constraints = [], g_indexes = [] \<rparr> 2) \<and>
   node_plain \<in> set [node_AB, node_plain] \<and> labels node_plain = [] \<and>
   (\<exists>w' g. createNodesInTarget
              (quiet_replicator \<lparr> g_nodes = [], g_rels = [], g_constraints = [], g_indexes = [] \<rparr> 2)
              [node_AB, node_plain] fresh_world = (Inr (), w') \<and>
           ([], g) \<in> set (nodesByLabels [] [node_AB, node_plain]) \<and> node_plain \<in> set g \<and>
           labelClause [] = [] \<and>
           TargetRun (UnwindCreateNodes [] g) \<in> set (drop (length (trace fresh_world)) (trace w')) \<and>
           ([], [(''k'', PNum 7), (''source_id'', PNum 4)]) \<in> set (content (target w')))"
proof -
  have h: "node_plain \<in> set [node_AB, node_plain]" "labels node_plain = []"
    by (simp_all add: node_plain_def)
  have p: "AList.update ''source_id'' (PNum (nodeId node_plain)) (properties node_plain)
             = [(''k'', PNum 7), (''source_id'', PNum 4)]"
    by (simp add: node_plain_def)
  let ?r = "quiet_replicator \<lparr> g_nodes = [], g_rels = [], g_constraints = [], g_indexes = [] \<rparr> 2"
  have n: "never_rejects ?r" by (rule never_rejects_quiet)
  from unlabeled_node_is_created [where w = fresh_world, OF n h]
  show ?thesis
    unfolding p by (intro conjI n h)
qed

subsection \<open>Paging loops and empty pages\<close>

lemma never_rejects_shrunk [simp]: "never_rejects shrunk_replicator"
  by (simp add: never_rejects_def shrunk_replicator_def no_fault_def)

lemma never_rejects_flicker [simp]: "never_rejects flicker_replicator"
  by (simp add: never_rejects_def flicker_replicator_def no_fault_def)

text \<open>
  Claim C9, as stated, fails in its first half. The loop asks the source anew on every
  turn, and the source may change between two turns. On a source of two nodes where
  the first page statement finds nothing and the next one finds both nodes, the loop of
  \<open>copyNodes\<close> sends the page statement \<open>SKIP 0 LIMIT 2\<close> twice, gets no record and then
  two, and returns normally: it terminated although a page fetched below the total was
  empty.
\<close>

theorem empty_page_then_loop_returns:
  "copyNodes flicker_replicator (Some (nodesCallback (Some quiet_observer))) fresh_world \<noteq> None \<and>
   fst (the (copyNodes flicker_replicator (Some (nodesCallback (Some quiet_observer))) fresh_world))
     = Inr () \<and>
   source_runs (trace (snd (the (copyNodes flicker_replicator
       (Some (nodesCallback (Some quiet_observer))) fresh_world))))
     = [CountNodes, PageNodes 0 2, PageNodes 0 2] \<and>
   fetches (sourceDriver flicker_replicator) []
     (trace (snd (the (copyNodes flicker_replicator
       (Some (nodesCallback (Some quiet_observer))) fresh_world))))
     = [0, 2]"
proof -
  let ?r = flicker_replicator
  let ?f = quiet_observer
  let ?cb = "Some (nodesCallback (Some ?f))"
  let ?h1 = "[Console Info ''Copying nodes...'', SourceRun CountNodes]"
  let ?w1 = "snd (sourceRun CountNodes (Inr 2 :: js_error + nat)
                (openSource (console Info ''Copying nodes...'' fresh_world)))"
  let ?P = "PageNodes 0 2"
  have s: "sourceDriver ?r = flicker_source" "batchSize ?r = 2"
    by (simp_all add: flicker_replicator_def)
  have t1: "trace ?w1 = ?h1"
    by (simp add: sourceRun_def openSource_def console_def fresh_world_def)
  have a1: "pageNodes (sourceDriver ?r) (trace ?w1) 0 (batchSize ?r) = Inr []"
    unfolding t1 s by (simp add: flicker_source_def)
  have nn: "\<forall>p. ?f p = None" by (simp add: quiet_observer_def)
  obtain w2 rest2 where w2: "copyNodesPage ?r ?cb 2 0 ?w1 = (Inr (0 + length ([] :: NodeData list)), w2)"
      "trace w2 = trace ?w1 @ SourceRun (PageNodes 0 (batchSize ?r)) # rest2"
      "source_runs rest2 = []"
    using copyNodesPage_trace_gen [OF a1 never_rejects_flicker nn, of 2]
    by (elim exE conjE) (rule that, simp_all)
  have t2: "trace w2 = ?h1 @ SourceRun ?P # rest2" using w2(2) t1 s by simp
  have a2: "pageNodes (sourceDriver ?r) (trace w2) 0 (batchSize ?r) = Inr [node_AB, node_plain]"
    unfolding t2 s by (simp add: flicker_source_def w2(3))
  obtain w3 rest3 where w3: "copyNodesPage ?r ?cb 2 0 w2 = (Inr (0 + length [node_AB, node_plain]), w3)"
      "trace w3 = trace w2 @ SourceRun (PageNodes 0 (batchSize ?r)) # rest3"
      "source_runs rest3 = []"
    using copyNodesPage_trace_gen [OF a2 never_rejects_flicker nn, of 2]
    by (elim exE conjE) (rule that, simp_all)
  have t3: "trace w3 = ?h1 @ SourceRun ?P # rest2 @ SourceRun ?P # rest3"
    using w3(2) t2 s by simp
  have p1: "copyNodesPage ?r ?cb 2 0 ?w1 = (Inr 0, w2)" using w2(1) by simp
  have p2: "copyNodesPage ?r ?cb 2 0 w2 = (Inr 2, w3)" using w3(1) by simp
  have l3: "copyNodesLoop ?r ?cb 2 2 w3 = Some (Inr (), w3)"
    by (subst copyNodesLoop.simps) simp
  have l2: "copyNodesLoop ?r ?cb 2 0 w2 = Some (Inr (), w3)"
    by (subst copyNodesLoop.simps) (simp add: p2 l3)
  have l1: "copyNodesLoop ?r ?cb 2 0 ?w1 = Some (Inr (), w3)"
    by (subst copyNodesLoop.simps) (simp add: p1 l2)
  have cnt: "countNodes flicker_source h = Inr 2" for h
    by (simp add: flicker_source_def)
  have sr1: "seq (Some (sourceRun CountNodes (Inr 2 :: js_error + nat)
                 (openSource (console Info ''Copying nodes...'' fresh_world)))) k = k 2 ?w1"
    for k :: "nat \<Rightarrow> world \<Rightarrow> unit result option"
    by (simp add: sourceRun_def)
  have run: "copyNodes ?r ?cb fresh_world = Some (Inr (), closeSource w3)"
    by (simp only: copyNodes_def s cnt sr1 l1) simp
  have tr: "trace (closeSource w3) = ?h1 @ SourceRun ?P # rest2 @ SourceRun ?P # rest3"
    using t3 by (simp add: closeSource_def)
  have sr: "source_runs (trace (closeSource w3)) = [CountNodes, ?P, ?P]"
    unfolding tr by (simp add: w2(3) w3(3))
  have f1: "fetched flicker_source ?h1 ?P = 0"
    by (simp add: flicker_source_def)
  have f2: "fetched flicker_source (?h1 @ SourceRun ?P # rest2) ?P = 2"
    by (simp add: flicker_source_def w2(3))
  have "fetches flicker_source [] (?h1 @ (SourceRun ?P # rest2) @ (SourceRun ?P # rest3))
          = [0, 2]"
    unfolding fetches_append
    using f1 f2 by (simp add: fetches_no_source w2(3) w3(3) del: fetched.simps)
  then have ft: "fetches (sourceDriver ?r) [] (trace (closeSource w3)) = [0, 2]"
    unfolding tr s by simp
  show ?thesis
    unfolding run using sr ft by simp
qed

text \<open>
  Claim C9, amended. Each turn of a paging loop advances \<open>processed\<close> by the number of
  records the page returned and by nothing else, and the next page statement skips
  \<open>processed\<close> records. Therefore:
  \<^item> when the answer of the source to a page statement does not depend on the moment it
    is asked, a loop that returns normally got at least one record for every page
    statement it sent;
  \<^item> for any source, when the page statement at the current position is answered with
    no record whenever it is asked, \<open>processed\<close> is below the total and the callback
    does not throw, the loop never returns: every turn sends the same statement.
  The total is the count taken before the loop and need not agree with the pages, as
  when the source shrank after the count.
\<close>

theorem repeated_empty_page_never_terminates:
  "(copyNodesPage r callback tot p w = (Inr p', w') \<longrightarrow>
      p' = p + fetched (sourceDriver r) (trace w) (PageNodes p (batchSize r))) \<and>
   (copyRelationshipsPage r callback tot p w = (Inr p', w') \<longrightarrow>
      p' = p + fetched (sourceDriver r) (trace w) (PageRels p (batchSize r div 2))) \<and>
   (stable_pages (sourceDriver r) \<and>
    copyNodesLoop r (Some (nodesCallback cb)) tot p w = Some (Inr u, w') \<longrightarrow>
      (\<exists>evs. trace w' = trace w @ evs \<and> 0 \<notin> set (fetches (sourceDriver r) (trace w) evs))) \<and>
   (stable_pages (sourceDriver r) \<and>
    copyRelationshipsLoop r (Some (relsCallback cb)) tot p w = Some (Inr u, w') \<longrightarrow>
      (\<exists>evs. trace w' = trace w @ evs \<and> 0 \<notin> set (fetches (sourceDriver r) (trace w) evs))) \<and>
   (p < tot \<and> (\<forall>h. pageNodes (sourceDriver r) h p (batchSize r) = Inr []) \<and>
    never_throws callback \<longrightarrow>
      copyNodesLoop r callback tot p w = None) \<and>
   (p < tot \<and> (\<forall>h. pageRels (sourceDriver r) h p (batchSize r div 2) = Inr []) \<and>
    never_throws callback \<longrightarrow>
      copyRelationshipsLoop r callback tot p w = None)"
proof (intro conjI impI)
  assume "copyNodesPage r callback tot p w = (Inr p', w')"
  from copyNodesPage_Inr [OF this]
  show "p' = p + fetched (sourceDriver r) (trace w) (PageNodes p (batchSize r))" by auto
next
  assume "copyRelationshipsPage r callback tot p w = (Inr p', w')"
  from copyRelationshipsPage_Inr [OF this]
  show "p' = p + fetched (sourceDriver r) (trace w) (PageRels p (batchSize r div 2))" by auto
next
  assume a: "stable_pages (sourceDriver r) \<and>
             copyNodesLoop r (Some (nodesCallback cb)) tot p w = Some (Inr u, w')"
  then have "steps (fetch_nonempty (sourceDriver r)) w w'"
    by (intro normal_loop_nodes_fetches [of r cb tot p w u w']) simp_all
  then obtain evs where "trace w' = trace w @ evs" "list_all (fetch_nonempty (sourceDriver r)) evs"
    by (auto simp: steps_def)
  then show "\<exists>evs. trace w' = trace w @ evs \<and> 0 \<notin> set (fetches (sourceDriver r) (trace w) evs)"
    using a fetch_nonempty_fetches by blast
next
  assume a: "stable_pages (sourceDriver r) \<and>
             copyRelationshipsLoop r (Some (relsCallback cb)) tot p w = Some (Inr u, w')"
  then have "steps (fetch_nonempty (sourceDriver r)) w w'"
    by (intro normal_loop_rels_fetches [of r cb tot p w u w']) simp_all
  then obtain evs where "trace w' = trace w @ evs" "list_all (fetch_nonempty (sourceDriver r)) evs"
    by (auto simp: steps_def)
  then show "\<exists>evs. trace w' = trace w @ evs \<and> 0 \<notin> set (fetches (sourceDriver r) (trace w) evs)"
    using a fetch_nonempty_fetches by blast
next
  assume "p < tot \<and> (\<forall>h. pageNodes (sourceDriver r) h p (batchSize r) = Inr []) \<and>
          never_throws callback"
  then show "copyNodesLoop r callback tot p w = None"
    by (intro copyNodesLoop_stuck) simp_all
next
  assume "p < tot \<and> (\<forall>h. pageRels (sourceDriver r) h p (batchSize r div 2) = Inr []) \<and>
          never_throws callback"
  then show "copyRelationshipsLoop r callback tot p w = None"
    by (intro copyRelationshipsLoop_stuck) simp_all
qed

theorem repeated_empty_page_never_terminates_witness:
  "(\<exists>w'. copyNodesPage (quiet_replicator pair_graph 2) (Some (nodesCallback None)) 2 0 fresh_world
            = (Inr 2, w')) \<and>
   2 = 0 + fetched (sourceDriver (quiet_replicator pair_graph 2)) (trace fresh_world)
             (PageNodes 0 (batchSize (quiet_replicator pair_graph 2))) \<and>
   (\<exists>w'. copyRelationshipsPage (quiet_replicator pair_graph 1) (Some (relsCallback None)) 1 0
            fresh_world = (Inr 0, w')) \<and>
   0 = 0 + fetched (sourceDriver (quiet_replicator pair_graph 1)) (trace fresh_world)
             (PageRels 0 (batchSize (quiet_replicator pair_graph 1) div 2)) \<and>
   never_throws (Some (nodesCallback None)) \<and> never_throws (Some (relsCallback None)) \<and>
   countNodes (sourceDriver shrunk_replicator) [] = Inr 3 \<and>
   (\<forall>h. pageNodes (sourceDriver shrunk_replicator) h 2 (batchSize shrunk_replicator) = Inr []) \<and>
   copyNodesLoop shrunk_replicator (Some (nodesCallback None)) 3 2 fresh_world = None \<and>
   (\<forall>h. pageRels (sourceDriver (quiet_replicator pair_graph 1)) h 0
          (batchSize (quiet_replicator pair_graph 1) div 2) = Inr []) \<and>
   copyRelationshipsLoop (quiet_replicator pair_graph 1) (Some (relsCallback None)) 1 0 fresh_world
      = None \<and>
   stable_pages (sourceDriver (quiet_replicator pair_graph 2)) \<and>
   (\<exists>w'. copyNodesLoop (quiet_replicator pair_graph 2) (Some (nodesCallback None)) 2 0 fresh_world
            = Some (Inr (), w') \<and>
         (\<exists>evs. trace w' = trace fresh_world @ evs \<and>
                0 \<notin> set (fetches (static_source pair_graph) (trace fresh_world) evs))) \<and>
   (\<exists>w'. copyRelationshipsLoop (quiet_replicator pair_graph 2) (Some (relsCallback None)) 0 0
            fresh_world = Some (Inr (), w') \<and>
         (\<exists>evs. trace w' = trace fresh_world @ evs \<and>
                0 \<notin> set (fetches (static_source pair_graph) (trace fresh_world) evs)))"
proof -
  note nt = calm_never_throws [of None, simplified]
  have pg: "\<forall>h. pageNodes (sourceDriver shrunk_replicator) h 2 (batchSize shrunk_replicator) = Inr []"
    "countNodes (sourceDriver shrunk_replicator) [] = Inr 3"
    by (simp_all add: shrunk_replicator_def shrunk_source_def)
  note T = repeated_empty_page_never_terminates
  have stuck: "copyNodesLoop shrunk_replicator (Some (nodesCallback None)) 3 2 fresh_world = None"
    using T [of shrunk_replicator "Some (nodesCallback None)" 3 2 fresh_world] pg nt by simp
  have rp: "\<forall>h. pageRels (sourceDriver (quiet_replicator pair_graph 1)) h 0
              (batchSize (quiet_replicator pair_graph 1) div 2) = Inr []"
    by (simp add: quiet_replicator_def)
  have rstuck: "copyRelationshipsLoop (quiet_replicator pair_graph 1) (Some (relsCallback None)) 1 0
                  fresh_world = None"
    using T [of "quiet_replicator pair_graph 1" "Some (relsCallback None)" 1 0 fresh_world] rp nt
    by simp
  have src: "sourceDriver (quiet_replicator pair_graph 2) = static_source pair_graph"
    "batchSize (quiet_replicator pair_graph 2) = 2" "length (g_nodes pair_graph) = 2"
    by (simp_all add: quiet_replicator_def pair_graph_def)
  have st: "stable_pages (sourceDriver (quiet_replicator pair_graph 2))"
    by (simp add: src)
  obtain w3 where w3: "copyNodesLoop (quiet_replicator pair_graph 2) (Some (nodesCallback None))
                         2 0 fresh_world = Some (Inr (), w3)"
    using copyNodesLoop_ok [OF src(1) never_rejects_quiet calm_simps(1), of 0 fresh_world]
    by (auto simp: src)
  from T [of "quiet_replicator pair_graph 2" _ 2 0 fresh_world _ w3 None "()"] w3 st
  have a: "\<exists>evs. trace w3 = trace fresh_world @ evs \<and>
                0 \<notin> set (fetches (static_source pair_graph) (trace fresh_world) evs)"
    by (simp add: src)
  have w4: "copyRelationshipsLoop (quiet_replicator pair_graph 2) (Some (relsCallback None)) 0 0
              fresh_world = Some (Inr (), fresh_world)"
    by (subst copyRelationshipsLoop.simps) simp
  from T [of "quiet_replicator pair_graph 2" _ 0 0 fresh_world _ fresh_world None "()"] w4 st
  have b: "\<exists>evs. trace fresh_world = trace fresh_world @ evs \<and>
                0 \<notin> set (fetches (static_source pair_graph) (trace fresh_world) evs)"
    by (simp add: src)
  obtain w5 where w5: "copyNodesPage (quiet_replicator pair_graph 2) (Some (nodesCallback None))
                         2 0 fresh_world = (Inr 2, w5)"
    using copyNodesPage_ok [OF src(1) never_rejects_quiet calm_simps(1), of 2 0 fresh_world]
    by (auto simp: src)
  from T [of "quiet_replicator pair_graph 2" "Some (nodesCallback None)" 2 0 fresh_world 2 w5] w5
  have c: "2 = 0 + fetched (sourceDriver (quiet_replicator pair_graph 2)) (trace fresh_world)
                     (PageNodes 0 (batchSize (quiet_replicator pair_graph 2)))"
    by blast
  obtain w6 where w6: "copyRelationshipsPage (quiet_replicator pair_graph 1)
                         (Some (relsCallback None)) 1 0 fresh_world = (Inr 0, w6)"
    using copyRelationshipsPage_empty [OF rp [rule_format, of "trace fresh_world"] nt(2), of 1]
    by blast
  from T [of "quiet_replicator pair_graph 1" "Some (relsCallback None)" 1 0 fresh_world 0 w6] w6
  have d: "0 = 0 + fetched (sourceDriver (quiet_replicator pair_graph 1)) (trace fresh_world)
                     (PageRels 0 (batchSize (quiet_replicator pair_graph 1) div 2))"
    by blast
  have p1: "\<exists>w'. copyNodesPage (quiet_replicator pair_graph 2) (Some (nodesCallback None)) 2 0
                   fresh_world = (Inr 2, w')"
    using w5 by blast
  have p2: "\<exists>w'. copyRelationshipsPage (quiet_replicator pair_graph 1) (Some (relsCallback None))
                   1 0 fresh_world = (Inr 0, w')"
    using w6 by blast
  have rest: "\<exists>w'. copyNodesLoop (quiet_replicator pair_graph 2) (Some (nodesCallback None)) 2 0
                     fresh_world = Some (Inr (), w') \<and>
         (\<exists>evs. trace w' = trace fresh_world @ evs \<and>
                0 \<notin> set (fetches (static_source pair_graph) (trace fresh_world) evs))"
    using w3 a by blast
  have rest2: "\<exists>w'. copyRelationshipsLoop (quiet_replicator pair_graph 2)
                      (Some (relsCallback None)) 0 0 fresh_world = Some (Inr (), w') \<and>
         (\<exists>evs. trace w' = trace fresh_world @ evs \<and>
                0 \<notin> set (fetches (static_source pair_graph) (trace fresh_world) evs))"
    using w4 b by blast
  show ?thesis
    by (intro conjI p1 c p2 d nt pg stuck rp rstuck st rest rest2)
qed

subsection \<open>A label that contains a comma\<close>

text \<open>
  Claim C10. The key of a group is the comma-join of the sorted labels and the labels
  of the statement are recovered by splitting the key on commas. The batch of a node
  with the two labels \<open>A\<close> and \<open>B\<close> and a node with the single label \<open>A,B\<close> has one
  group: both nodes get the key \<open>A,B\<close>, the key splits into \<open>A\<close> and \<open>B\<close>, the label
  clause of the one statement is \<open>:A:B\<close>, and the target node made for the second
  node has the labels \<open>A\<close> and \<open>B\<close>, not \<open>A,B\<close>.
\<close>

theorem comma_label_is_split:
  "labels node_AB = [''A'', ''B''] \<and> labels node_comma = [''A,B''] \<and>
   labelKey node_comma = labelKey node_AB \<and>
   nodesByLabels [] [node_AB, node_comma] = [(''A,B'', [node_AB, node_comma])] \<and>
   keyLabels ''A,B'' = [''A'', ''B''] \<and>
   labelClause ''A,B'' = '':A:B'' \<and>
   target_runs (trace (snd (createNodesInTarget
       (quiet_replicator \<lparr> g_nodes = [], g_rels = [], g_constraints = [], g_indexes = [] \<rparr> 2)
       [node_AB, node_comma] fresh_world)))
     = [UnwindCreateNodes '':A:B'' [node_AB, node_comma]] \<and>
   content (target (snd (createNodesInTarget
       (quiet_replicator \<lparr> g_nodes = [], g_rels = [], g_constraints = [], g_indexes = [] \<rparr> 2)
       [node_AB, node_comma] fresh_world)))
     = [([''A'', ''B''], [(''source_id'', PNum 2)]), ([''A'', ''B''], [(''source_id'', PNum 3)])]"
proof -
  have k: "labelKey node_AB = ''A,B''" "labelKey node_comma = ''A,B''"
    by (simp_all add: labelKey_def node_AB_def node_comma_def)
  have s: "sorted_in_place node_AB = node_AB" "sorted_in_place node_comma = node_comma"
    by (simp_all add: sorted_in_place_def node_AB_def node_comma_def)
  have g: "nodesByLabels [] [node_AB, node_comma] = [(''A,B'', [node_AB, node_comma])]"
    by (simp add: k s)
  have l: "keyLabels ''A,B'' = [''A'', ''B'']"
    by (simp add: keyLabels_def)
  have c: "labelClause ''A,B'' = '':A:B''"
    by (simp add: labelClause_def l)
  have cl: "clause_labels '':A:B'' = [''A'', ''B'']"
    by (simp add: clause_labels_def)
  have p: "node_props node_AB = [(''source_id'', PNum 2)]" "node_props node_comma = [(''source_id'', PNum 3)]"
    by (simp_all add: node_props_def node_AB_def node_comma_def)
  have t: "target_runs (node_group_events [(''A,B'', [node_AB, node_comma])])
             = [UnwindCreateNodes '':A:B'' [node_AB, node_comma]]"
    by (simp add: node_group_events_def c)
  have d: "content (create_groups [(''A,B'', [node_AB, node_comma])] empty_db)
             = [([''A'', ''B''], [(''source_id'', PNum 2)]), ([''A'', ''B''], [(''source_id'', PNum 3)])]"
    by (simp add: content_def empty_db_def new_node_def c cl node_AB_def node_comma_def)
  have "labels node_AB = [''A'', ''B'']" "labels node_comma = [''A,B'']"
    by (simp_all add: node_AB_def node_comma_def)
  then show ?thesis
    using k g l c t d
    by (simp add: createNodesInTarget_ok [OF never_rejects_quiet] fresh_world_def)
qed

end
